(* ===== verification/Xorp_Prelude.thy ===== *)
theory Xorp_Prelude
  imports Main "HOL-Library.Word"
begin

text \<open>
  Shared vocabulary of the development: the machine integer types of the C++ sources, the
  exceptions and assertion failures of the code as values of one error type, the byte order of a
  little-endian host (what \<open>htonl\<close> and \<open>ntohl\<close> compute there), and the facts on words that the
  components share: the high-order masks of a 32-bit value, and the aligned blocks of natural
  numbers that address prefixes denote.
\<close>

unbundle bit_operations_syntax

named_theorems res_simps \<open>how the total cases of a fallible operation evaluate\<close>

type_synonym u8 = "8 word"
type_synonym u16 = "16 word"
type_synonym u32 = "32 word"
type_synonym u64 = "64 word"

subsection \<open>Errors as values\<close>

text \<open>
  The exceptions that the modelled code throws (\<open>xorp_throw\<close>), its assertion failures
  (\<open>XLOG_ASSERT\<close>, \<open>XLOG_FATAL\<close>, \<open>abort()\<close>), reads past the end of a buffer or a list, uses of an
  iterator whose element was erased, loops that never end, and overflow of a signed integer.
\<close>

datatype xorp_error =
    InvalidFamily nat
  | InvalidString string
  | InvalidNetmaskLength nat
  | CorruptMessage nat nat "u8 list"
  | XlogAssert
  | XlogFatal
  | Abort
  | OutOfBounds
  | DanglingIterator
  | Diverges
  | SignedOverflow

type_synonym 'a res = "xorp_error + 'a"

fun res_bind :: "'a res \<Rightarrow> ('a \<Rightarrow> 'b res) \<Rightarrow> 'b res" where
  "res_bind (Inl e) f = Inl e"
| "res_bind (Inr x) f = f x"

fun res_map :: "('a \<Rightarrow> 'b) \<Rightarrow> 'a res \<Rightarrow> 'b res" where
  "res_map f (Inl e) = Inl e"
| "res_map f (Inr x) = Inr (f x)"

lemma res_bind_Inr_iff [simp]: "res_bind m f = Inr y \<longleftrightarrow> (\<exists>x. m = Inr x \<and> f x = Inr y)"
  by (cases m) auto

lemma res_map_Inr_iff [simp]: "res_map f m = Inr y \<longleftrightarrow> (\<exists>x. m = Inr x \<and> y = f x)"
  by (cases m) auto

lemma res_bind_cong [fundef_cong]:
  "m = m' \<Longrightarrow> (\<And>x. m' = Inr x \<Longrightarrow> f x = f' x) \<Longrightarrow> res_bind m f = res_bind m' f'"
  by (cases m') auto

subsection \<open>Byte order\<close>

definition bswap32 :: "u32 \<Rightarrow> u32" where
  "bswap32 w = push_bit 24 (w AND 0xff) OR push_bit 8 (w AND 0xff00)
     OR (drop_bit 8 w AND 0xff00) OR (drop_bit 24 w AND 0xff)"

abbreviation htonl :: "u32 \<Rightarrow> u32" where "htonl \<equiv> bswap32"
abbreviation ntohl :: "u32 \<Rightarrow> u32" where "ntohl \<equiv> bswap32"

lemma byte_masks: "(0xff :: u32) = mask 8" "(0xff00 :: u32) = push_bit 8 (mask 8)"
  by (simp_all add: mask_eq_exp_minus_1 push_bit_eq_mult)

lemma bit_bswap32:
  "bit (bswap32 w) n =
     (if n < 8 then bit w (24 + n) else if n < 16 then bit w (8 + n)
      else if n < 24 then bit w (n - 8) else n < 32 \<and> bit w (n - 24))"
  unfolding bswap32_def byte_masks by (auto simp: bit_simps)

lemma bswap32_bswap32 [simp]: "bswap32 (bswap32 w) = w"
  by (rule bit_word_eqI) (auto simp: bit_bswap32)

lemma bswap32_eq_iff [simp]: "bswap32 v = bswap32 w \<longleftrightarrow> v = w"
  by (metis bswap32_bswap32)

lemma bswap32_and [simp]: "bswap32 (v AND w) = bswap32 v AND bswap32 w"
  by (rule bit_word_eqI) (auto simp: bit_bswap32 bit_simps)

lemma bswap32_or [simp]: "bswap32 (v OR w) = bswap32 v OR bswap32 w"
  by (rule bit_word_eqI) (auto simp: bit_bswap32 bit_simps)

lemma bswap32_xor [simp]: "bswap32 (v XOR w) = bswap32 v XOR bswap32 w"
  by (rule bit_word_eqI) (auto simp: bit_bswap32 bit_simps)

lemma bswap32_not [simp]: "bswap32 (NOT w) = NOT (bswap32 w)"
  by (rule bit_word_eqI) (auto simp: bit_bswap32 bit_simps)

lemma bswap32_0 [simp]: "bswap32 0 = 0"
  by (simp add: bswap32_def)

lemma bswap32_eq_0_iff [simp]: "bswap32 w = 0 \<longleftrightarrow> w = 0"
  by (metis bswap32_0 bswap32_bswap32)

text \<open>The four bytes of a 32-bit value as a little-endian host keeps them in memory.\<close>

definition le_bytes :: "u32 \<Rightarrow> u8 list" where
  "le_bytes w = [ucast w, ucast (drop_bit 8 w), ucast (drop_bit 16 w), ucast (drop_bit 24 w)]"

definition of_le_bytes :: "u8 \<Rightarrow> u8 \<Rightarrow> u8 \<Rightarrow> u8 \<Rightarrow> u32" where
  "of_le_bytes a b c d = ucast a OR push_bit 8 (ucast b) OR push_bit 16 (ucast c) OR push_bit 24 (ucast d)"

lemma bit_of_le_bytes:
  "bit (of_le_bytes a b c d) n =
     (if n < 8 then bit a n else if n < 16 then bit b (n - 8)
      else if n < 24 then bit c (n - 16) else n < 32 \<and> bit d (n - 24))"
  unfolding of_le_bytes_def by (auto simp: bit_simps dest: bit_imp_le_length)

lemma of_le_bytes_le_bytes [simp]:
  "of_le_bytes (ucast w) (ucast (drop_bit 8 w)) (ucast (drop_bit 16 w)) (ucast (drop_bit 24 w)) = w"
  by (rule bit_word_eqI) (auto simp: bit_of_le_bytes bit_simps)

lemma le_bytes_of_le_bytes [simp]: "le_bytes (of_le_bytes a b c d) = [a, b, c, d]"
  unfolding le_bytes_def
  by (auto intro!: bit_word_eqI simp: bit_of_le_bytes bit_simps)

subsection \<open>High-order masks\<close>

definition hi_mask :: "nat \<Rightarrow> u32" where
  "hi_mask n = (if n = 0 then 0 else push_bit (32 - n) (NOT 0))"

lemma bit_hi_mask: "n \<le> 32 \<Longrightarrow> bit (hi_mask n) i \<longleftrightarrow> 32 - n \<le> i \<and> i < 32"
  by (auto simp: hi_mask_def bit_simps)

lemma unat_and_hi_mask:
  assumes "n \<le> 32"
  shows "unat (w AND hi_mask n) = unat w div 2 ^ (32 - n) * 2 ^ (32 - n)"
proof -
  have "w AND hi_mask n = push_bit (32 - n) (drop_bit (32 - n) w)"
    by (rule bit_word_eqI) (use assms in \<open>auto simp: bit_simps bit_hi_mask\<close>)
  then have "unat (w AND hi_mask n) = take_bit 32 (unat w div 2 ^ (32 - n) * 2 ^ (32 - n))"
    by (simp only: unsigned_push_bit_eq unat_drop_bit_eq)
      (simp add: push_bit_eq_mult drop_bit_eq_div)
  moreover have "unat w div 2 ^ (32 - n) * 2 ^ (32 - n) < 2 ^ 32"
    using unsigned_less [of w, where 'a = nat] by (simp add: le_less_trans [OF div_times_less_eq_dividend])
  ultimately show ?thesis
    by (simp add: take_bit_nat_eq_self)
qed

subsection \<open>Aligned blocks of natural numbers\<close>

text \<open>
  An address prefix denotes an aligned block: the \<open>2 ^ k\<close> numbers that follow a multiple of
  \<open>2 ^ k\<close>. Two aligned blocks are nested or disjoint, and a block that is strictly inside another
  lies in one of its halves.
\<close>

lemma block_round: "(a::nat) div 2 ^ k * 2 ^ k \<le> a" "a < a div 2 ^ k * 2 ^ k + 2 ^ k"
  by (simp_all add: div_times_less_eq_dividend) (metis add.commute dividend_less_div_times
      mult.commute zero_less_numeral zero_less_power)

lemma block_mem_iff:
  assumes "2 ^ k dvd (b::nat)"
  shows "a div 2 ^ k * 2 ^ k = b \<longleftrightarrow> b \<le> a \<and> a < b + 2 ^ k"
proof
  assume "a div 2 ^ k * 2 ^ k = b"
  then show "b \<le> a \<and> a < b + 2 ^ k" using block_round [of a k] by simp
next
  assume "b \<le> a \<and> a < b + 2 ^ k"
  then obtain r where r: "a = b + r" "r < 2 ^ k" by (metis le_Suc_ex nat_add_left_cancel_less)
  from assms obtain q where q: "b = 2 ^ k * q" by blast
  show "a div 2 ^ k * 2 ^ k = b" using r(2) by (simp add: r(1) q)
qed

lemma block_nested_or_disjoint:
  assumes "2 ^ j dvd (a::nat)" "2 ^ k dvd b" "j \<le> k"
  shows "(b \<le> a \<and> a + 2 ^ j \<le> b + 2 ^ k) \<or> a + 2 ^ j \<le> b \<or> b + 2 ^ k \<le> a"
proof -
  from assms(1) obtain p where p: "a = 2 ^ j * p" by blast
  from assms(2) obtain q where "b = 2 ^ k * q" by blast
  then have q: "b = 2 ^ j * (2 ^ (k - j) * q)"
    using assms(3) by (simp add: mult.assoc [symmetric] power_add [symmetric])
  have k: "(2::nat) ^ k = 2 ^ j * 2 ^ (k - j)"
    using assms(3) by (simp add: power_add [symmetric])
  have *: "2 ^ j * x + 2 ^ j \<le> 2 ^ j * y \<longleftrightarrow> x < y" for x y :: nat
    by (metis Suc_leI Suc_le_lessD add.commute mult_Suc_right nat_mult_le_cancel_disj
        zero_less_numeral zero_less_power not_le)
  have "(2 ^ (k - j) * q \<le> p \<and> p < 2 ^ (k - j) * q + 2 ^ (k - j)) \<or> p < 2 ^ (k - j) * q
      \<or> 2 ^ (k - j) * q + 2 ^ (k - j) \<le> p"
    by linarith
  then show ?thesis
    using * [of p "2 ^ (k - j) * q + 2 ^ (k - j)"] * [of p "2 ^ (k - j) * q"]
    by (simp add: p q k distrib_left [symmetric] del: distrib_left_numeral)
qed

lemma block_half:
  assumes "2 ^ j dvd (a::nat)" "2 ^ k dvd b" "j < k" "b \<le> a" "a + 2 ^ j \<le> b + 2 ^ k"
  shows "a + 2 ^ j \<le> b + 2 ^ (k - 1) \<or> b + 2 ^ (k - 1) \<le> a"
proof -
  have "(2::nat) ^ (k - 1) dvd 2 ^ k"
    by (simp add: le_imp_power_dvd)
  with assms(2) have "2 ^ (k - 1) dvd b" by (rule dvd_trans [rotated])
  moreover from assms(3) have "j \<le> k - 1" by linarith
  ultimately show ?thesis
    using block_nested_or_disjoint [OF assms(1)] assms(4) by fastforce
qed

end
