(* ===== verification/Bit_Count.thy ===== *)
theory Bit_Count
  imports Xorp_Prelude
begin

text \<open>
  The bit-counting helpers of \<open>libxorp/utils.hh\<close>: the population count by parallel reduction
  inside one 32-bit word, and the leading zero count that fills the word to the right of its highest
  set bit and counts.
\<close>

definition xorp_bit_count_uint32 :: "u32 \<Rightarrow> u32" where
  "xorp_bit_count_uint32 x0 =
     (let x1 = x0 - (drop_bit 1 x0 AND 0x55555555);
          x2 = (drop_bit 2 x1 AND 0x33333333) + (x1 AND 0x33333333);
          x3 = (drop_bit 4 x2 + x2) AND 0x0f0f0f0f;
          x4 = x3 + drop_bit 8 x3;
          x5 = x4 + drop_bit 16 x4
      in x5 AND 0x0000003f)"

definition smear_right :: "u32 \<Rightarrow> u32" where
  "smear_right x0 =
     (let x1 = x0 OR drop_bit 1 x0;
          x2 = x1 OR drop_bit 2 x1;
          x3 = x2 OR drop_bit 4 x2;
          x4 = x3 OR drop_bit 8 x3
      in x4 OR drop_bit 16 x4)"

definition xorp_leading_zero_count_uint32 :: "u32 \<Rightarrow> u32" where
  "xorp_leading_zero_count_uint32 x = 32 - xorp_bit_count_uint32 (smear_right x)"

subsection \<open>The population count, digit by digit\<close>

text \<open>
  The first two steps of the reduction work inside each group of four bits, so the word is read as a
  list of hexadecimal digits and the steps are checked on the sixteen digits; the later steps are sums
  that never carry out of their group.
\<close>

definition ones :: "'a::len word \<Rightarrow> nat" where
  "ones w = length (filter (bit w) [0..<LENGTH('a)])"

fun hex_val :: "nat list \<Rightarrow> nat" where
  "hex_val [] = 0"
| "hex_val (d # ds) = d + 16 * hex_val ds"

definition leading_zeros :: "'a::len word \<Rightarrow> nat" where
  "leading_zeros w = length (takeWhile (\<lambda>i. \<not> bit w (LENGTH('a) - Suc i)) [0..<LENGTH('a)])"

definition digits_ok :: "nat list \<Rightarrow> bool" where
  "digits_ok ds \<longleftrightarrow> (\<forall>d \<in> set ds. d < 16)"

definition pair_sums :: "nat \<Rightarrow> nat" where
  "pair_sums d = d - (drop_bit 1 d AND 5)"

definition nibble_sum :: "nat \<Rightarrow> nat" where
  "nibble_sum d = (drop_bit 2 d AND 3) + (d AND 3)"

definition digit_ones :: "nat \<Rightarrow> nat" where
  "digit_ones d = length (filter (bit d) [0..<4])"

lemma hex_digit_cases: "list_all P [0..<16] \<Longrightarrow> d < 16 \<Longrightarrow> P (d :: nat)"
  by (simp add: list_all_iff)

lemma pair_sums_less: "d < 16 \<Longrightarrow> pair_sums d < 16"
  by (simp add: pair_sums_def)

lemma hex_digit_table: "list_all (\<lambda>d. nibble_sum (pair_sums d) = digit_ones d) [0..<16]"
  by code_simp

lemma nibble_sum_pair_sums: "d < 16 \<Longrightarrow> nibble_sum (pair_sums d) = digit_ones d"
  using hex_digit_table unfolding list_all_iff by simp

lemma digit_ones_le: "digit_ones d \<le> 4"
  unfolding digit_ones_def by (rule order_trans [OF length_filter_le]) simp

lemma nat_bit_less: "(a::nat) < 2 ^ m \<Longrightarrow> bit a n \<Longrightarrow> n < m"
  using bit_take_bit_iff [of m a n] by (simp add: take_bit_nat_eq_self)

lemma nat_hex_bit:
  fixes d r :: nat
  assumes "d < 16"
  shows "bit (d + 16 * r) n = (if n < 4 then bit d n else bit r (n - 4))"
proof -
  have low: "bit d k \<Longrightarrow> k < 4" for k
    using nat_bit_less [of d 4 k] assms by simp
  have "d + push_bit 4 r = d OR push_bit 4 r"
  proof (rule disjunctive_add)
    show "\<not> bit d n \<or> \<not> bit (push_bit 4 r) n" for n
      using low [of n] by (auto simp: bit_simps)
  qed
  then have "bit (d + 16 * r) n = bit (d OR push_bit 4 r) n"
    by (simp add: push_bit_eq_mult mult.commute)
  with low [of n] show ?thesis by (auto simp: bit_simps)
qed

lemma and_nat_le: "m AND n \<le> (m :: nat)" "m AND n \<le> (n :: nat)"
  unfolding and_nat_def by (simp_all add: nat_le_iff)

lemma nat_hex_and:
  fixes r s :: nat
  assumes "d < 16" "e < 16"
  shows "(d + 16 * r) AND (e + 16 * s) = (d AND e) + 16 * (r AND s)"
proof -
  have "d AND e < 16" using assms(1) and_nat_le(1) [of d e] by linarith
  with assms show ?thesis
    by (intro bit_eqI) (simp add: nat_hex_bit bit_and_iff)
qed

lemma hex_shift_and:
  fixes r s :: nat
  assumes "d < 16" "e < 2 ^ (4 - k)"
  shows "drop_bit k (d + 16 * r) AND (e + 16 * s) = (drop_bit k d AND e) + 16 * (drop_bit k r AND s)"
proof (rule bit_eqI)
  fix n
  have "(2::nat) ^ (4 - k) \<le> 2 ^ 4" by (rule power_increasing) simp_all
  with assms(2) have e: "e < 16" by simp
  have low: "n + k < 4" if "bit e n" using nat_bit_less [OF assms(2) that] by simp
  have small: "drop_bit k d AND e < 16" using and_nat_le(2) [of "drop_bit k d" e] e by linarith
  show "bit (drop_bit k (d + 16 * r) AND (e + 16 * s)) n = bit ((drop_bit k d AND e) + 16 * (drop_bit k r AND s)) n"
  proof (cases "n < 4")
    case True
    then show ?thesis
      unfolding bit_and_iff bit_drop_bit_eq nat_hex_bit [OF small] nat_hex_bit [OF assms(1)] nat_hex_bit [OF e]
      using low by (auto simp: add.commute)
  next
    case False
    then show ?thesis
      unfolding bit_and_iff bit_drop_bit_eq nat_hex_bit [OF small] nat_hex_bit [OF assms(1)] nat_hex_bit [OF e]
      by simp
  qed
qed

lemma digits_ok_Cons [simp]: "digits_ok (d # ds) \<longleftrightarrow> d < 16 \<and> digits_ok ds"
  by (simp add: digits_ok_def)

lemma shift_and_le: "drop_bit k m AND n \<le> (m :: nat)"
  by (rule order_trans [OF and_nat_le(1)]) (simp add: drop_bit_eq_div)

lemma hex_pair_sums:
  "digits_ok ds \<Longrightarrow>
    hex_val ds - (drop_bit 1 (hex_val ds) AND hex_val (replicate (length ds) 5)) = hex_val (map pair_sums ds)"
proof (induction ds)
  case (Cons d ds)
  define a where "a = drop_bit 1 d AND 5"
  define b where "b = drop_bit 1 (hex_val ds) AND hex_val (replicate (length ds) 5)"
  have "drop_bit 1 (hex_val (d # ds)) AND hex_val (replicate (length (d # ds)) 5) = a + 16 * b"
    unfolding a_def b_def hex_val.simps length_Cons replicate.simps
    using Cons.prems by (intro hex_shift_and) simp_all
  moreover have "a \<le> d" "b \<le> hex_val ds"
    unfolding a_def b_def by (rule shift_and_le)+
  moreover have "hex_val ds - b = hex_val (map pair_sums ds)"
    unfolding b_def using Cons by simp
  moreover have "pair_sums d = d - a"
    by (simp only: pair_sums_def a_def)
  ultimately show ?case by simp
qed simp

lemma hex_nibble_sums:
  "digits_ok ds \<Longrightarrow>
    (drop_bit 2 (hex_val ds) AND hex_val (replicate (length ds) 3)) + (hex_val ds AND hex_val (replicate (length ds) 3))
      = hex_val (map nibble_sum ds)"
proof (induction ds)
  case (Cons d ds)
  have "drop_bit 2 (d + 16 * hex_val ds) AND (3 + 16 * hex_val (replicate (length ds) 3))
      = (drop_bit 2 d AND 3) + 16 * (drop_bit 2 (hex_val ds) AND hex_val (replicate (length ds) 3))"
    using Cons.prems by (intro hex_shift_and) simp_all
  moreover have "(d + 16 * hex_val ds) AND (3 + 16 * hex_val (replicate (length ds) 3))
      = (d AND 3) + 16 * (hex_val ds AND hex_val (replicate (length ds) 3))"
    using Cons.prems by (intro nat_hex_and) simp_all
  moreover have "(drop_bit 2 (hex_val ds) AND hex_val (replicate (length ds) 3))
      + (hex_val ds AND hex_val (replicate (length ds) 3)) = hex_val (map nibble_sum ds)"
    using Cons by simp
  ultimately show ?case
    unfolding hex_val.simps length_Cons replicate.simps list.map nibble_sum_def [of d] by linarith
qed simp

lemma hex_digits_of: "m < 16 ^ n \<Longrightarrow> \<exists>ds. length ds = n \<and> digits_ok ds \<and> hex_val ds = m"
proof (induction n arbitrary: m)
  case (Suc n)
  then have "m div 16 < 16 ^ n" by (simp add: less_mult_imp_div_less mult.commute)
  from Suc.IH [OF this] obtain ds where "length ds = n" "digits_ok ds" "hex_val ds = m div 16" by blast
  then have "length (m mod 16 # ds) = Suc n \<and> digits_ok (m mod 16 # ds) \<and> hex_val (m mod 16 # ds) = m"
    by (simp add: digits_ok_def)
  then show ?case by blast
qed (simp add: digits_ok_def)

lemma hex_val_less: "digits_ok ds \<Longrightarrow> hex_val ds < 16 ^ length ds"
proof (induction ds)
  case (Cons d ds)
  then have "d < 16" "hex_val ds + 1 \<le> 16 ^ length ds" by simp_all
  then show ?case by simp
qed simp

lemma hex_and:
  "length ds = length es \<Longrightarrow> digits_ok ds \<Longrightarrow> digits_ok es \<Longrightarrow>
    hex_val ds AND hex_val es = hex_val (map2 (AND) ds es)"
proof (induction ds es rule: list_induct2)
  case (Cons d ds e es)
  then show ?case by (simp only: hex_val.simps digits_ok_Cons nat_hex_and zip_Cons_Cons list.map prod.case)
qed simp

lemma digits_ok_Nil [simp]: "digits_ok []"
  by (simp add: digits_ok_def)

text \<open>The last three steps add the eight digit counts.\<close>

lemma hex_fold_sums:
  assumes "\<And>c. c \<in> set [c0, c1, c2, c3, c4, c5, c6, c7] \<Longrightarrow> c \<le> 4"
    and "unat x2 = hex_val [c0, c1, c2, c3, c4, c5, c6, c7]"
  defines "x3 \<equiv> (drop_bit 4 x2 + x2) AND (0x0f0f0f0f :: u32)"
  defines "x4 \<equiv> x3 + drop_bit 8 x3"
  shows "unat ((x4 + drop_bit 16 x4) AND 0x3f) = c0 + c1 + c2 + c3 + c4 + c5 + c6 + c7"
proof -
  have le: "c0 \<le> 4" "c1 \<le> 4" "c2 \<le> 4" "c3 \<le> 4" "c4 \<le> 4" "c5 \<le> 4" "c6 \<le> 4" "c7 \<le> 4"
    by (simp_all add: assms(1))
  have "drop_bit 4 (unat x2) = hex_val [c1, c2, c3, c4, c5, c6, c7]"
    using le by (simp add: assms(2) drop_bit_eq_div)
  then have "unat (drop_bit 4 x2 + x2) = hex_val [c0 + c1, c1 + c2, c2 + c3, c3 + c4, c4 + c5, c5 + c6, c6 + c7, c7]"
    using le by (simp add: unat_word_ariths unat_drop_bit_eq assms(2))
  moreover have "(0x0f0f0f0f :: nat) = hex_val [15, 0, 15, 0, 15, 0, 15, 0]" by simp
  moreover have "hex_val [c0 + c1, c1 + c2, c2 + c3, c3 + c4, c4 + c5, c5 + c6, c6 + c7, c7]
        AND hex_val [15, 0, 15, 0, 15, 0, 15, 0] =
      hex_val (map2 (AND) [c0 + c1, c1 + c2, c2 + c3, c3 + c4, c4 + c5, c5 + c6, c6 + c7, c7] [15, 0, 15, 0, 15, 0, 15, 0])"
    using le by (intro hex_and) simp_all
  moreover have "(c + c' AND 15) = c + c'" if "c \<le> 4" "c' \<le> 4" for c c' :: nat
    using that take_bit_nat_eq_self [of "c + c'" 4] by (simp add: take_bit_eq_mask mask_eq_exp_minus_1)
  ultimately have "unat x3 = hex_val [c0 + c1, 0, c2 + c3, 0, c4 + c5, 0, c6 + c7, 0]"
    unfolding x3_def using le by (simp only: unsigned_and_eq unsigned_numeral) (simp add: unsigned_and_eq)
  then have x3: "unat x3 = (c0 + c1) + 256 * (c2 + c3) + 65536 * (c4 + c5) + 16777216 * (c6 + c7)"
    by simp
  have x4: "unat x4 = (c0 + c1 + c2 + c3) + 256 * (c2 + c3 + c4 + c5) + 65536 * (c4 + c5 + c6 + c7) + 16777216 * (c6 + c7)"
    using le by (simp add: x4_def unat_word_ariths unat_drop_bit_eq x3 drop_bit_eq_div)
  then have "drop_bit 16 (unat x4) = (c4 + c5 + c6 + c7) + 256 * (c6 + c7)"
    using le by (simp add: drop_bit_eq_div)
  with x4 le have "unat (x4 + drop_bit 16 x4) = (c0 + c1 + c2 + c3 + c4 + c5 + c6 + c7)
      + 64 * (4 * (c2 + c3 + c4 + c5) + 1024 * (c4 + c5 + c6 + c7) + 262148 * (c6 + c7))"
    by (simp add: unat_word_ariths unat_drop_bit_eq)
  moreover have "unat (w AND 0x3f) = unat w mod 64" for w :: u32
  proof -
    have "w AND 0x3f = take_bit 6 w" by (simp add: take_bit_eq_mask mask_eq_exp_minus_1)
    then have "unat (w AND 0x3f) = take_bit 6 (unat w)" by (simp only: unsigned_take_bit_eq)
    then show ?thesis by (simp add: take_bit_eq_mod)
  qed
  ultimately show ?thesis using le by (simp only: mod_mult_self2) simp
qed

lemma replicate_8: "replicate 8 x = [x, x, x, x, x, x, x, x]"
  by (simp add: numeral_eq_Suc)

lemma hex_mask_constants:
  "(0x55555555 :: nat) = hex_val (replicate 8 5)" "(0x33333333 :: nat) = hex_val (replicate 8 3)"
  by (simp_all add: replicate_8)

lemma ones_hex: "digits_ok ds \<Longrightarrow> length (filter (bit (hex_val ds)) [0..<4 * length ds]) = sum_list (map digit_ones ds)"
proof (induction ds)
  case (Cons d ds)
  have "[0..<4 * length (d # ds)] = [0..<4] @ map (\<lambda>n. n + 4) [0..<4 * length ds]"
    by (simp add: map_add_upt upt_add_eq_append [of 0 4, simplified] add.commute)
  moreover have "filter (bit (d + 16 * hex_val ds)) [0..<4] = filter (bit d) [0..<4]"
    using Cons.prems by (intro filter_cong) (auto simp: nat_hex_bit)
  moreover have "filter (bit (d + 16 * hex_val ds) \<circ> (\<lambda>n. n + 4)) [0..<4 * length ds]
      = filter (bit (hex_val ds)) [0..<4 * length ds]"
    using Cons.prems by (intro filter_cong) (auto simp: nat_hex_bit)
  ultimately show ?case
    using Cons by (simp add: filter_map digit_ones_def del: upt_Suc)
qed simp

lemma bit_count_ones: "unat (xorp_bit_count_uint32 x) = ones x"
proof -
  have "unat x < 16 ^ 8" using unsigned_less [of x, where 'a = nat] by simp
  from hex_digits_of [OF this] obtain ds where len: "length ds = 8" and ok: "digits_ok ds" and x: "hex_val ds = unat x"
    by blast
  define x1 where "x1 = x - (drop_bit 1 x AND 0x55555555)"
  define x2 where "x2 = (drop_bit 2 x1 AND 0x33333333) + (x1 AND 0x33333333)"
  define cs where "cs = map digit_ones ds"
  have x1: "unat x1 = hex_val (map pair_sums ds)"
  proof -
    have le: "unat (drop_bit 1 x AND 0x55555555) \<le> unat x"
      by (simp only: unsigned_and_eq unat_drop_bit_eq shift_and_le)
    have "unat x1 = unat x - unat (drop_bit 1 x AND 0x55555555)"
      unfolding x1_def by (rule unat_sub) (simp only: word_le_nat_alt le)
    also have "\<dots> = hex_val ds - (drop_bit 1 (hex_val ds) AND hex_val (replicate (length ds) 5))"
      by (simp add: unsigned_and_eq unat_drop_bit_eq x len hex_mask_constants [symmetric])
    finally show ?thesis using ok by (simp only: hex_pair_sums)
  qed
  have x2: "unat x2 = hex_val cs"
  proof -
    have "digit_ones d < 16" for d using digit_ones_le [of d] by simp
    then have le: "hex_val cs < 2 ^ 32"
      using hex_val_less [of cs] by (simp add: cs_def digits_ok_def len)
    have ok': "digits_ok (map pair_sums ds)"
      using ok pair_sums_less by (simp add: digits_ok_def)
    have cs: "map nibble_sum (map pair_sums ds) = cs"
      using ok nibble_sum_pair_sums by (auto simp: cs_def digits_ok_def)
    have "unat (drop_bit 2 x1 AND 0x33333333) + unat (x1 AND 0x33333333) = hex_val cs"
      using hex_nibble_sums [OF ok'] unfolding cs
      by (simp add: unsigned_and_eq unat_drop_bit_eq x1 len hex_mask_constants [symmetric])
    then show ?thesis using le unfolding x2_def by (simp add: unat_word_ariths)
  qed
  have "length cs = 8" by (simp add: cs_def len)
  then obtain c0 c1 c2 c3 c4 c5 c6 c7 where cs: "cs = [c0, c1, c2, c3, c4, c5, c6, c7]"
    by (auto simp: numeral_eq_Suc length_Suc_conv)
  have "c \<le> 4" if "c \<in> set cs" for c using that by (auto simp: cs_def digit_ones_le)
  with x2 have "unat (xorp_bit_count_uint32 x) = sum_list cs"
    unfolding xorp_bit_count_uint32_def Let_def cs x1_def [symmetric] x2_def [symmetric]
    by (subst hex_fold_sums [of c0 c1 c2 c3 c4 c5 c6 c7]) simp_all
  also have "\<dots> = length (filter (bit (unat x)) [0..<32])"
    using ones_hex [OF ok] by (simp add: cs_def len x)
  also have "\<dots> = ones x"
    by (simp add: ones_def bit_unsigned_iff cong: filter_cong)
  finally show ?thesis .
qed

subsection \<open>The leading zero count\<close>

text \<open>Filling a word to the right of its highest set bit gives a low-order mask.\<close>

lemma bit_or_drop_bit: "bit (x OR drop_bit k x) n \<longleftrightarrow> bit x n \<or> bit x (k + n)"
  by (simp add: bit_or_iff bit_drop_bit_eq)

lemma bit_smear_right: "bit (smear_right x) n \<longleftrightarrow> (\<exists>m. n \<le> m \<and> bit x m)"
proof -
  have "bit (smear_right x) n \<longleftrightarrow> (\<exists>j < 32. bit x (n + j))"
    unfolding smear_right_def Let_def bit_or_drop_bit
    by (simp add: numeral_eq_Suc Ex_less_Suc add.commute) blast
  also have "\<dots> \<longleftrightarrow> (\<exists>m. n \<le> m \<and> bit x m)"
  proof
    assume "\<exists>m. n \<le> m \<and> bit x m"
    then obtain m where "n \<le> m" "bit x m" by blast
    moreover from this have "m < 32" using bit_imp_le_length [of x m] by simp
    ultimately show "\<exists>j < 32. bit x (n + j)" by (intro exI [of _ "m - n"]) simp
  qed (auto intro: le_add1)
  finally show ?thesis .
qed

lemma ones_mask: "h \<le> 32 \<Longrightarrow> ones (mask h :: u32) = h"
proof -
  assume "h \<le> 32"
  then have "[0..<32] = [0..<h] @ [h..<32]" using upt_add_eq_append [of 0 h "32 - h"] by simp
  then show ?thesis
    using \<open>h \<le> 32\<close> by (simp add: ones_def bit_mask_iff filter_empty_conv)
qed

lemma smear_right_mask:
  assumes "bit x h" and "\<And>m. bit x m \<Longrightarrow> m \<le> h"
  shows "smear_right x = mask (Suc h)"
proof (rule bit_word_eqI)
  fix n assume "n < LENGTH(32)"
  then show "bit (smear_right x) n \<longleftrightarrow> bit (mask (Suc h) :: u32) n"
    using assms by (auto simp: bit_smear_right bit_mask_iff less_Suc_eq_le) (meson order_trans)
qed

lemma xorp_leading_zero_count_top:
  assumes "bit x h" and "\<And>m. bit x m \<Longrightarrow> m \<le> h"
  shows "unat (xorp_leading_zero_count_uint32 x) = 31 - h"
proof -
  have "h < 32" using assms(1) bit_imp_le_length [of x h] by simp
  then have c: "unat (xorp_bit_count_uint32 (smear_right x)) = Suc h"
    by (simp add: smear_right_mask [OF assms] bit_count_ones ones_mask del: mask_Suc_exp)
  then have "unat (xorp_leading_zero_count_uint32 x) = 32 - Suc h"
    using \<open>h < 32\<close> unfolding xorp_leading_zero_count_uint32_def
    by (subst unat_sub) (simp_all add: word_le_nat_alt)
  then show ?thesis by simp
qed

lemma highest_bit_ex:
  assumes "(x :: u32) \<noteq> 0"
  obtains h where "bit x h" "\<And>m. bit x m \<Longrightarrow> m \<le> h"
proof -
  have "finite {n. bit x n}"
    by (rule finite_subset [of _ "{..<32}"]) (auto dest: bit_imp_le_length)
  moreover have "{n. bit x n} \<noteq> {}" using assms by (auto simp: bit_eq_iff)
  ultimately show ?thesis using that [of "Max {n. bit x n}"] by (metis Max_ge Max_in mem_Collect_eq)
qed

lemma leading_zeros_top:
  assumes "bit (x :: u32) h" and "\<And>m. bit x m \<Longrightarrow> m \<le> h"
  shows "leading_zeros x = 31 - h"
proof -
  have h: "h < 32" using assms(1) bit_imp_le_length [of x h] by simp
  then have "[0..<32] = [0..<31 - h] @ (31 - h) # [Suc (31 - h)..<32]"
    using upt_add_eq_append [of 0 "31 - h" "Suc h"] upt_conv_Cons [of "31 - h" 32] by simp
  moreover have "\<not> bit x (31 - i)" if "i < 31 - h" for i
    using assms(2) [of "31 - i"] that by auto
  ultimately show ?thesis using h assms(1) by (simp add: leading_zeros_def takeWhile_append)
qed

lemma leading_zero_count_eq: "unat (xorp_leading_zero_count_uint32 x) = leading_zeros x"
proof (cases "x = 0")
  case True
  then show ?thesis
    by (simp add: xorp_leading_zero_count_uint32_def xorp_bit_count_uint32_def smear_right_def leading_zeros_def
        takeWhile_eq_all_conv [THEN iffD2])
next
  case False
  then obtain h where "bit x h" "\<And>m. bit x m \<Longrightarrow> m \<le> h" by (rule highest_bit_ex) blast
  then show ?thesis by (simp only: xorp_leading_zero_count_top leading_zeros_top)
qed

lemma leading_zeros_bounds: "leading_zeros (x :: u32) \<le> 32" "x \<noteq> 0 \<Longrightarrow> leading_zeros (x :: u32) < 32"
proof -
  show "leading_zeros x \<le> 32"
    using length_takeWhile_le [of _ "[0..<32]"] by (simp add: leading_zeros_def)
  assume "x \<noteq> 0"
  then obtain h where "bit x h" "\<And>m. bit x m \<Longrightarrow> m \<le> h" by (rule highest_bit_ex) blast
  then show "leading_zeros x < 32" by (simp only: leading_zeros_top)
qed

subsection \<open>Properties\<close>

text \<open>
  C26: the parallel reduction of \<open>xorp_bit_count_uint32\<close> counts the set bits of every 32-bit word.
\<close>

theorem xorp_bit_count_uint32_correct: "unat (xorp_bit_count_uint32 x) = card {n. bit x n}"
proof -
  have "card {n. bit x n} = card (set (filter (bit x) [0..<32]))"
    by (rule arg_cong [where f = card]) (auto dest: bit_imp_le_length)
  also have "\<dots> = ones x" by (simp only: distinct_card distinct_filter distinct_upt ones_def) simp
  finally show ?thesis by (simp add: bit_count_ones)
qed

text \<open>
  \<open>xorp_leading_zero_count_uint32\<close> returns the number of zero bits above the highest set bit, and
  32 for the zero word.
\<close>

theorem xorp_leading_zero_count_uint32_correct:
  "unat (xorp_leading_zero_count_uint32 x) = length (takeWhile (\<lambda>i. \<not> bit x (31 - i)) [0..<32])"
  by (simp add: leading_zero_count_eq leading_zeros_def)

end
