(* ===== verification/Decimal.thy ===== *)
theory Decimal
  imports Xorp_Prelude
begin

text \<open>
  Decimal numerals as the C and C++ library prints and reads them: the \<open>%d\<close> and \<open>%u\<close> conversions
  of \<open>c_format\<close>, and \<open>atoi\<close>.
\<close>

definition digit_char :: "nat \<Rightarrow> char" where
  "digit_char d = char_of (48 + d)"

definition is_digit :: "char \<Rightarrow> bool" where
  "is_digit c \<longleftrightarrow> 48 \<le> (of_char c :: nat) \<and> (of_char c :: nat) \<le> 57"

definition digit_val :: "char \<Rightarrow> nat" where
  "digit_val c = of_char c - 48"

fun dec :: "nat \<Rightarrow> string" where
  "dec n = (if n < 10 then [digit_char n] else dec (n div 10) @ [digit_char (n mod 10)])"

declare dec.simps [simp del]

fun dec_acc :: "nat \<Rightarrow> string \<Rightarrow> nat" where
  "dec_acc acc [] = acc"
| "dec_acc acc (c # cs) = (if is_digit c then dec_acc (10 * acc + digit_val c) cs else acc)"

definition is_space :: "char \<Rightarrow> bool" where
  "is_space c \<longleftrightarrow> (of_char c :: nat) = 32 \<or> 9 \<le> (of_char c :: nat) \<and> (of_char c :: nat) \<le> 13"

definition atoi :: "string \<Rightarrow> int" where
  "atoi s = (case dropWhile is_space s of
     [] \<Rightarrow> 0
   | c # cs \<Rightarrow> if c = CHR ''-'' then - int (dec_acc 0 cs)
               else if c = CHR ''+'' then int (dec_acc 0 cs)
               else int (dec_acc 0 (c # cs)))"

text \<open>
  The library computes \<open>atoi\<close> with \<open>strtol\<close>, which saturates at the bounds of a \<open>long\<close>, before the
  result is cut to an \<open>int\<close>.
\<close>

definition atoi_long :: "string \<Rightarrow> int" where
  "atoi_long s = max (- 9223372036854775808) (min 9223372036854775807 (atoi s))"

lemma digit_char_digit [simp]:
  assumes "d < 10"
  shows "is_digit (digit_char d)" "digit_val (digit_char d) = d" "of_char (digit_char d) = 48 + d"
proof -
  have d: "(48 + d) mod 256 = 48 + d" using assms by simp
  then show v: "of_char (digit_char d) = 48 + d" by (simp only: digit_char_def of_char_of)
  then show "is_digit (digit_char d)" "digit_val (digit_char d) = d"
    using assms by (simp_all add: is_digit_def digit_val_def)
qed

lemma is_digit_of_digit_list: "list_all is_digit (dec n)"
proof (induction n rule: dec.induct)
  case (1 n)
  then show ?case by (subst dec.simps) simp
qed

lemma dec_digits: "c \<in> set (dec n) \<Longrightarrow> is_digit c"
  using is_digit_of_digit_list by (auto simp: list_all_iff)

lemma dec_not_Nil [simp]: "dec n \<noteq> []"
  by (subst dec.simps) simp

lemma dec_acc_append:
  "list_all is_digit ds \<Longrightarrow> dec_acc acc (ds @ cs) = dec_acc (dec_acc acc ds) cs"
  by (induction ds arbitrary: acc) auto

lemma dec_acc_stop [simp]: "cs = [] \<or> \<not> is_digit (hd cs) \<Longrightarrow> dec_acc acc cs = acc"
  by (cases cs) auto

lemma dec_acc_dec [simp]: "dec_acc 0 (dec n) = n"
proof (induction n rule: dec.induct)
  case (1 n)
  show ?case
  proof (cases "n < 10")
    case False
    then have "dec_acc 0 (dec n) = dec_acc (n div 10) [digit_char (n mod 10)]"
      using 1 by (subst dec.simps) (simp add: dec_acc_append is_digit_of_digit_list)
    then show ?thesis by simp
  qed (subst dec.simps, simp)
qed

lemma dec_inj [simp]: "dec m = dec n \<longleftrightarrow> m = n"
  using dec_acc_dec by metis

text \<open>Reading back a printed number, whatever follows it.\<close>

lemma is_digit_not_space: "is_digit c \<Longrightarrow> \<not> is_space c \<and> c \<noteq> CHR ''-'' \<and> c \<noteq> CHR ''+''"
  by (auto simp: is_digit_def is_space_def)

lemma atoi_dec [simp]:
  assumes "cs = [] \<or> \<not> is_digit (hd cs)"
  shows "atoi (dec n @ cs) = int n"
proof -
  obtain d ds where d: "dec n = d # ds" by (cases "dec n") auto
  then have "is_digit d" using dec_digits [of d n] by simp
  moreover have "dec_acc 0 ((d # ds) @ cs) = n"
    unfolding d [symmetric] using assms by (simp add: dec_acc_append is_digit_of_digit_list)
  ultimately show ?thesis
    by (simp add: atoi_def d is_digit_not_space)
qed

end
