(* ===== verification/IPv4_Addr.thy ===== *)
theory IPv4_Addr
  imports Xorp_Prelude Decimal Bit_Count
begin

text \<open>
  The IPv4 address class of \<open>libxorp/ipv4.hh\<close> and \<open>libxorp/ipv4.cc\<close>. An address is its 32-bit
  word in network byte order; the numeric operations convert to host order and back, as the code does.
\<close>

subsection \<open>The class and its constructors\<close>

datatype ipv4 = IPv4 (addr: u32)

definition set_addr :: "ipv4 \<Rightarrow> u32 \<Rightarrow> ipv4" where
  "set_addr a v = IPv4 v"

definition AF_INET :: u16 where "AF_INET = 2"

record sockaddr_in =
  sin_family :: u16
  sin_port :: u16
  sin_addr :: u32
  sin_zero :: "u8 list"

definition ipv4_of_sockaddr_in :: "sockaddr_in \<Rightarrow> ipv4 res" where
  "ipv4_of_sockaddr_in sin =
     (if sin_family sin \<noteq> AF_INET then Inl (InvalidFamily (unat (sin_family sin)))
      else Inr (IPv4 (sin_addr sin)))"

text \<open>
  \<open>inet_pton4\<close> of \<open>libxorp/inet_pton.c\<close>, to which \<open>inet_pton\<close> goes for \<open>AF_INET\<close> (the file is compiled
  where the host brings no \<open>inet_pton\<close> of its own; some hosts also refuse leading zeros). The arguments of the loop are the rest of \<open>src\<close> up to its
  terminating NUL, the flag \<open>saw_digit\<close>, the number of octets begun, the finished octets of \<open>tmp\<close> and
  the current one; the result is \<open>tmp\<close>, or nothing where the code returns 0. \<open>inet_pton4\<close> gives the
  return value and \<open>dst\<close>.
\<close>

fun inet_pton4_loop :: "string \<Rightarrow> bool \<Rightarrow> nat \<Rightarrow> nat list \<Rightarrow> nat \<Rightarrow> nat list option" where
  "inet_pton4_loop [] saw_digit octets tp cur = (if octets < 4 then None else Some (tp @ [cur]))"
| "inet_pton4_loop (ch # cs) saw_digit octets tp cur =
     (if is_digit ch then
        (let new = cur * 10 + digit_val ch in
         if new > 255 then None
         else if \<not> saw_digit then
           (if Suc octets > 4 then None else inet_pton4_loop cs True (Suc octets) tp new)
         else inet_pton4_loop cs True octets tp new)
      else if ch = CHR ''.'' \<and> saw_digit then
        (if octets = 4 then None else inet_pton4_loop cs False octets (tp @ [cur]) 0)
      else None)"

definition inet_pton4 :: "string \<Rightarrow> u32 \<Rightarrow> int \<times> u32" where
  "inet_pton4 src dst = (case inet_pton4_loop src False 0 [] 0 of
     Some [a, b, c, d] \<Rightarrow> (1, of_le_bytes (of_nat a) (of_nat b) (of_nat c) (of_nat d))
   | _ \<Rightarrow> (0, dst))"

text \<open>The constructor from a string; \<open>_addr\<close> is 0 before \<open>inet_pton\<close> writes it.\<close>

definition ipv4_of_cstring :: "string option \<Rightarrow> ipv4 res" where
  "ipv4_of_cstring from_cstring = (case from_cstring of
     None \<Rightarrow> Inl (InvalidString ''Null value'')
   | Some s \<Rightarrow> (let (result, a) = inet_pton4 s 0 in
        if result \<le> 0 then Inl (InvalidString (''Bad IPv4 '' @ [CHR 0x22] @ s @ [CHR 0x22]))
        else Inr (IPv4 a)))"

subsection \<open>Copying to and from raw memory\<close>

definition addr_bytelen :: nat where "addr_bytelen = 4"
definition addr_bitlen :: nat where "addr_bitlen = 8 * addr_bytelen"

definition copy_out :: "ipv4 \<Rightarrow> u8 list" where
  "copy_out a = le_bytes (addr a)"

definition copy_out_sockaddr_in :: "ipv4 \<Rightarrow> sockaddr_in \<times> nat" where
  "copy_out_sockaddr_in a =
     (\<lparr> sin_family = AF_INET, sin_port = 0, sin_addr = addr a, sin_zero = replicate 8 0 \<rparr>, addr_bytelen)"

fun copy_in :: "u8 list \<Rightarrow> ipv4 res" where
  "copy_in (a # b # c # d # _) = Inr (IPv4 (of_le_bytes a b c d))"
| "copy_in _ = Inl OutOfBounds"

definition copy_in_sockaddr_in :: "sockaddr_in \<Rightarrow> ipv4 res" where
  "copy_in_sockaddr_in sin =
     (if sin_family sin \<noteq> AF_INET then Inl (InvalidFamily (unat (sin_family sin)))
      else copy_in (le_bytes (sin_addr sin)))"

subsection \<open>Bitwise operators, shifts and order\<close>

definition ipv4_ZERO :: ipv4 where "ipv4_ZERO = IPv4 0"
definition ipv4_ANY :: ipv4 where "ipv4_ANY = ipv4_ZERO"
definition ipv4_ALL_ONES :: ipv4 where "ipv4_ALL_ONES = IPv4 0xffffffff"

definition ipv4_not :: "ipv4 \<Rightarrow> ipv4" where "ipv4_not a = IPv4 (NOT (addr a))"
definition ipv4_or :: "ipv4 \<Rightarrow> ipv4 \<Rightarrow> ipv4" where "ipv4_or a b = IPv4 (addr a OR addr b)"
definition ipv4_and :: "ipv4 \<Rightarrow> ipv4 \<Rightarrow> ipv4" where "ipv4_and a b = IPv4 (addr a AND addr b)"
definition ipv4_xor :: "ipv4 \<Rightarrow> ipv4 \<Rightarrow> ipv4" where "ipv4_xor a b = IPv4 (addr a XOR addr b)"

definition ipv4_shiftl :: "ipv4 \<Rightarrow> u32 \<Rightarrow> ipv4" where
  "ipv4_shiftl a left_shift =
     (if left_shift \<ge> 32 then ipv4_ZERO else IPv4 (htonl (push_bit (unat left_shift) (ntohl (addr a)))))"

definition ipv4_shiftr :: "ipv4 \<Rightarrow> u32 \<Rightarrow> ipv4" where
  "ipv4_shiftr a right_shift =
     (if right_shift \<ge> 32 then ipv4_ZERO else IPv4 (htonl (drop_bit (unat right_shift) (ntohl (addr a)))))"

definition ipv4_dec :: "ipv4 \<Rightarrow> ipv4" where "ipv4_dec a = IPv4 (htonl (ntohl (addr a) - 1))"
definition ipv4_inc :: "ipv4 \<Rightarrow> ipv4" where "ipv4_inc a = IPv4 (htonl (ntohl (addr a) + 1))"

definition ipv4_less :: "ipv4 \<Rightarrow> ipv4 \<Rightarrow> bool" where
  "ipv4_less a b \<longleftrightarrow> ntohl (addr a) < ntohl (addr b)"

instantiation ipv4 :: linorder
begin

definition less_ipv4 :: "ipv4 \<Rightarrow> ipv4 \<Rightarrow> bool" where
  "less_ipv4 a b \<longleftrightarrow> ipv4_less a b"

definition less_eq_ipv4 :: "ipv4 \<Rightarrow> ipv4 \<Rightarrow> bool" where
  "less_eq_ipv4 a b \<longleftrightarrow> ntohl (addr a) \<le> ntohl (addr b)"

instance
  by standard (auto simp: less_ipv4_def ipv4_less_def less_eq_ipv4_def less_le_not_le intro!: ipv4.expand dest: antisym)

end

text \<open>The comparisons of an address with a range of addresses (\<open>IPv4Range\<close>).\<close>

record ipv4_range =
  low_addr :: ipv4
  high_addr :: ipv4

definition ipv4_eq_range :: "ipv4 \<Rightarrow> ipv4_range \<Rightarrow> bool" where
  "ipv4_eq_range a rhs \<longleftrightarrow> addr a \<ge> addr (low_addr rhs) \<and> addr a \<le> addr (high_addr rhs)"

definition ipv4_neq_range :: "ipv4 \<Rightarrow> ipv4_range \<Rightarrow> bool" where
  "ipv4_neq_range a rhs \<longleftrightarrow> addr a < addr (low_addr rhs) \<or> addr a > addr (high_addr rhs)"

definition ipv4_less_range :: "ipv4 \<Rightarrow> ipv4_range \<Rightarrow> bool" where
  "ipv4_less_range a rhs \<longleftrightarrow> addr a < addr (low_addr rhs)"

definition ipv4_le_range :: "ipv4 \<Rightarrow> ipv4_range \<Rightarrow> bool" where
  "ipv4_le_range a rhs \<longleftrightarrow> addr a \<le> addr (high_addr rhs)"

definition ipv4_greater_range :: "ipv4 \<Rightarrow> ipv4_range \<Rightarrow> bool" where
  "ipv4_greater_range a rhs \<longleftrightarrow> addr a > addr (high_addr rhs)"

definition ipv4_ge_range :: "ipv4 \<Rightarrow> ipv4_range \<Rightarrow> bool" where
  "ipv4_ge_range a rhs \<longleftrightarrow> addr a \<ge> addr (low_addr rhs)"

subsection \<open>Masks\<close>

definition make_prefix_uint :: "u32 \<Rightarrow> u32 res" where
  "make_prefix_uint mask_len =
     (if mask_len > 32 then Inl (InvalidNetmaskLength (unat mask_len))
      else let m = (if mask_len = 0 then 0 else push_bit (unat (32 - mask_len)) (NOT 0)) in Inr (htonl m))"

definition make_prefix :: "u32 \<Rightarrow> ipv4 res" where
  "make_prefix mask_len =
     (if mask_len > 32 then Inl (InvalidNetmaskLength (unat mask_len))
      else let m = (if mask_len = 0 then 0 else push_bit (unat (32 - mask_len)) (NOT 0)) in Inr (IPv4 (htonl m)))"

definition mask_by_prefix_len :: "ipv4 \<Rightarrow> u32 \<Rightarrow> ipv4 res" where
  "mask_by_prefix_len a mask_len = res_bind (make_prefix mask_len) (\<lambda>p. Inr (ipv4_and a p))"

definition mask_by_prefix_len_uint :: "ipv4 \<Rightarrow> u32 \<Rightarrow> u32 res" where
  "mask_by_prefix_len_uint a mask_len = res_bind (make_prefix_uint mask_len) (\<lambda>p. Inr (addr a AND p))"

fun mask_len_loop :: "nat \<Rightarrow> u32 \<Rightarrow> u32 \<Rightarrow> u32" where
  "mask_len_loop 0 ctr shift = ctr"
| "mask_len_loop (Suc i) ctr shift =
     (if (shift AND 0x80000000) \<noteq> 0 then mask_len_loop i (ctr + 1) (push_bit 1 shift) else ctr)"

definition mask_len :: "ipv4 \<Rightarrow> u32" where
  "mask_len a = mask_len_loop 32 0 (ntohl (addr a))"

text \<open>A shift by 32 bits or more is undefined in C++: the model returns \<open>None\<close> for it.\<close>

definition ipv4_bits :: "ipv4 \<Rightarrow> u32 \<Rightarrow> u32 \<Rightarrow> u32 option" where
  "ipv4_bits a lsb len =
     (if lsb \<ge> 32 then None
      else let m = (if len \<ge> 32 then 0xffffffff else NOT (push_bit (unat len) 0xffffffff))
           in Some (drop_bit (unat lsb) (ntohl (addr a)) AND m))"

definition ipv4_bit_count :: "ipv4 \<Rightarrow> u32" where
  "ipv4_bit_count a = xorp_bit_count_uint32 (addr a)"

definition ipv4_leading_zero_count :: "ipv4 \<Rightarrow> u32" where
  "ipv4_leading_zero_count a = xorp_leading_zero_count_uint32 (ntohl (addr a))"

subsection \<open>Printing\<close>

definition inet_ntoa :: "u32 \<Rightarrow> string" where
  "inet_ntoa w = (case le_bytes w of [a, b, c, d] \<Rightarrow>
     dec (unat a) @ ''.'' @ dec (unat b) @ ''.'' @ dec (unat c) @ ''.'' @ dec (unat d) | _ \<Rightarrow> '''')"

definition ipv4_str :: "ipv4 \<Rightarrow> string" where
  "ipv4_str a = inet_ntoa (addr a)"

subsection \<open>Address classes\<close>

text \<open>The class macros of \<open>netinet/in.h\<close>, on host order words.\<close>

definition IN_CLASSA :: "u32 \<Rightarrow> bool" where "IN_CLASSA a \<longleftrightarrow> a AND 0x80000000 = 0"
definition IN_CLASSB :: "u32 \<Rightarrow> bool" where "IN_CLASSB a \<longleftrightarrow> a AND 0xc0000000 = 0x80000000"
definition IN_CLASSC :: "u32 \<Rightarrow> bool" where "IN_CLASSC a \<longleftrightarrow> a AND 0xe0000000 = 0xc0000000"
definition IN_MULTICAST :: "u32 \<Rightarrow> bool" where "IN_MULTICAST a \<longleftrightarrow> a AND 0xf0000000 = 0xe0000000"
definition IN_BADCLASS :: "u32 \<Rightarrow> bool" where "IN_BADCLASS a \<longleftrightarrow> a AND 0xf0000000 = 0xf0000000"

definition is_zero :: "ipv4 \<Rightarrow> bool" where "is_zero a \<longleftrightarrow> addr a = 0"

definition is_unicast :: "ipv4 \<Rightarrow> bool" where
  "is_unicast a \<longleftrightarrow> (let addr4 = ntohl (addr a) in \<not> (IN_MULTICAST addr4 \<or> IN_BADCLASS addr4 \<or> addr4 = 0))"

definition is_multicast :: "ipv4 \<Rightarrow> bool" where "is_multicast a \<longleftrightarrow> IN_MULTICAST (ntohl (addr a))"
definition is_class_a :: "ipv4 \<Rightarrow> bool" where "is_class_a a \<longleftrightarrow> IN_CLASSA (ntohl (addr a))"
definition is_class_b :: "ipv4 \<Rightarrow> bool" where "is_class_b a \<longleftrightarrow> IN_CLASSB (ntohl (addr a))"
definition is_class_c :: "ipv4 \<Rightarrow> bool" where "is_class_c a \<longleftrightarrow> IN_CLASSC (ntohl (addr a))"
definition is_experimental :: "ipv4 \<Rightarrow> bool" where "is_experimental a \<longleftrightarrow> IN_BADCLASS (ntohl (addr a))"
definition is_linklocal_unicast :: "ipv4 \<Rightarrow> bool" where "is_linklocal_unicast a \<longleftrightarrow> False"
definition is_interfacelocal_multicast :: "ipv4 \<Rightarrow> bool" where "is_interfacelocal_multicast a \<longleftrightarrow> False"

definition INADDR_MAX_LOCAL_GROUP :: u32 where "INADDR_MAX_LOCAL_GROUP = 0xe00000ff"

definition is_linklocal_multicast :: "ipv4 \<Rightarrow> bool" where
  "is_linklocal_multicast a \<longleftrightarrow>
     IN_MULTICAST (ntohl (addr a)) \<and> ntohl (addr a) \<le> INADDR_MAX_LOCAL_GROUP"

definition is_loopback :: "ipv4 \<Rightarrow> bool" where
  "is_loopback a \<longleftrightarrow> (let loopnet = push_bit 24 (127 :: u32) in ntohl (addr a) AND 0xff000000 = loopnet)"

definition LOOPBACK :: ipv4 where "LOOPBACK = IPv4 (htonl 0x7f000001)"
definition MULTICAST_BASE :: ipv4 where "MULTICAST_BASE = IPv4 (htonl 0xe0000000)"
definition CLASS_A_BASE :: ipv4 where "CLASS_A_BASE = IPv4 (htonl 0x00000000)"
definition CLASS_B_BASE :: ipv4 where "CLASS_B_BASE = IPv4 (htonl 0x80000000)"
definition CLASS_C_BASE :: ipv4 where "CLASS_C_BASE = IPv4 (htonl 0xc0000000)"
definition EXPERIMENTAL_BASE :: ipv4 where "EXPERIMENTAL_BASE = IPv4 (htonl 0xf0000000)"

subsection \<open>The numeric value of an address\<close>

definition hval :: "ipv4 \<Rightarrow> nat" where
  "hval a = unat (ntohl (addr a))"

definition of_hval :: "nat \<Rightarrow> ipv4" where
  "of_hval n = IPv4 (htonl (of_nat n))"

lemma hval_less [simp]: "hval a < 4294967296"
  using unsigned_less [of "ntohl (addr a)", where 'a = nat] by (simp add: hval_def)

lemma hval_le [simp]: "hval a \<le> 4294967295"
  using hval_less [of a] by linarith

lemma hval_of_hval: "hval (of_hval n) = n mod 4294967296"
  by (simp add: hval_def of_hval_def unsigned_of_nat take_bit_eq_mod)

lemma hval_of_hval_less [simp]: "n < 4294967296 \<Longrightarrow> hval (of_hval n) = n"
  by (simp add: hval_of_hval)

lemma of_hval_hval [simp]: "of_hval (hval a) = a"
  by (simp add: hval_def of_hval_def)

lemma hval_eq_iff: "hval a = hval b \<longleftrightarrow> a = b"
  by (metis of_hval_hval)

lemma less_ipv4_iff: "a < b \<longleftrightarrow> hval a < hval b"
  by (simp add: less_ipv4_def ipv4_less_def hval_def word_less_nat_alt)

lemma less_eq_ipv4_iff: "a \<le> b \<longleftrightarrow> hval a \<le> hval b"
  by (simp add: less_eq_ipv4_def hval_def word_le_nat_alt)

lemma hval_IPv4 [simp]: "hval (IPv4 (htonl w)) = unat w"
  by (simp add: hval_def)

lemma hval_constants [simp]: "hval ipv4_ZERO = 0" "hval ipv4_ANY = 0" "hval ipv4_ALL_ONES = 4294967295"
  by (simp_all add: hval_def ipv4_ZERO_def ipv4_ANY_def ipv4_ALL_ONES_def bswap32_def)

lemma hval_inc: "hval (ipv4_inc a) = (hval a + 1) mod 4294967296"
  by (simp add: ipv4_inc_def hval_def unat_word_ariths)

lemma hval_dec: "hval (ipv4_dec a) = (if hval a = 0 then 4294967295 else hval a - 1)"
  by (simp add: ipv4_dec_def hval_def unat_eq_zero unat_minus_one unsigned_minus_1_eq_mask mask_eq_exp_minus_1)

lemma ipv4_dec_inc [simp]: "ipv4_dec (ipv4_inc a) = a" "ipv4_inc (ipv4_dec a) = a"
  by (simp_all add: ipv4_dec_def ipv4_inc_def)

lemma hval_shiftl:
  "s < 32 \<Longrightarrow> hval (ipv4_shiftl a s) = hval a * 2 ^ unat s mod 4294967296"
  by (simp add: ipv4_shiftl_def hval_def unsigned_push_bit_eq not_le [symmetric])
    (simp add: push_bit_eq_mult take_bit_eq_mod)

lemma hval_shiftr:
  "s < 32 \<Longrightarrow> hval (ipv4_shiftr a s) = hval a div 2 ^ unat s"
  by (simp add: ipv4_shiftr_def hval_def unat_drop_bit_eq not_le [symmetric])
    (simp add: drop_bit_eq_div)

subsection \<open>Masking\<close>

lemma make_prefix_ok [res_simps]:
  "unat m \<le> 32 \<Longrightarrow> make_prefix m = Inr (IPv4 (htonl (hi_mask (unat m))))"
  by (cases "m = 0") (auto simp: make_prefix_def hi_mask_def word_less_nat_alt Let_def unat_sub word_le_nat_alt unat_eq_zero)

lemma make_prefix_error: "unat m > 32 \<Longrightarrow> make_prefix m = Inl (InvalidNetmaskLength (unat m))"
  by (simp add: make_prefix_def word_less_nat_alt)

lemma make_prefix_uint_eq: "make_prefix_uint m = res_map addr (make_prefix m)"
  by (simp add: make_prefix_uint_def make_prefix_def Let_def)

lemma mask_by_prefix_len_uint_eq: "mask_by_prefix_len_uint a m = res_map addr (mask_by_prefix_len a m)"
  by (simp add: mask_by_prefix_len_uint_def mask_by_prefix_len_def make_prefix_uint_eq
      make_prefix_def Let_def ipv4_and_def)

definition mask_addr :: "ipv4 \<Rightarrow> nat \<Rightarrow> ipv4" where
  "mask_addr a n = IPv4 (addr a AND htonl (hi_mask n))"

lemma mask_by_prefix_len_ok [res_simps]:
  "unat m \<le> 32 \<Longrightarrow> mask_by_prefix_len a m = Inr (mask_addr a (unat m))"
  by (simp add: mask_by_prefix_len_def make_prefix_ok mask_addr_def ipv4_and_def)

lemma mask_by_prefix_len_error:
  "unat m > 32 \<Longrightarrow> mask_by_prefix_len a m = Inl (InvalidNetmaskLength (unat m))"
  by (simp add: mask_by_prefix_len_def make_prefix_error)

lemma hval_mask_addr: "n \<le> 32 \<Longrightarrow> hval (mask_addr a n) = hval a div 2 ^ (32 - n) * 2 ^ (32 - n)"
  by (simp add: hval_def mask_addr_def unat_and_hi_mask)

lemma mask_addr_idem [simp]: "mask_addr (mask_addr a n) n = mask_addr a n"
  by (simp add: mask_addr_def and.assoc)

text \<open>\<open>mask_len\<close> counts the leading one bits.\<close>

definition leading_ones :: "nat \<Rightarrow> u32 \<Rightarrow> nat" where
  "leading_ones k w = length (takeWhile (\<lambda>i. bit w (31 - i)) [0..<k])"

lemma msb32_iff: "(w AND 0x80000000 \<noteq> 0) \<longleftrightarrow> bit (w :: u32) 31"
  using and_exp_eq_0_iff_not_bit [of w 31] by simp

lemma bit_shift_one: "i < 31 \<Longrightarrow> bit (push_bit 1 w :: u32) (31 - i) = bit w (31 - Suc i)"
  using bit_push_bit_iff [of 1 w "31 - i"] by (simp only:) auto

lemma mask_len_loop_eq:
  "k \<le> 32 \<Longrightarrow> unat ctr + k \<le> 32 \<Longrightarrow> unat (mask_len_loop k ctr w) = unat ctr + leading_ones k w"
proof (induction k arbitrary: ctr w)
  case 0
  then show ?case by (simp add: leading_ones_def)
next
  case (Suc k)
  have "[0..<Suc k] = 0 # map Suc [0..<k]" by (simp add: upt_conv_Cons map_Suc_upt)
  then have "leading_ones (Suc k) w = (if bit w 31 then Suc (length (takeWhile (\<lambda>i. bit w (31 - Suc i)) [0..<k])) else 0)"
    by (simp add: leading_ones_def takeWhile_map o_def)
  moreover have "takeWhile (\<lambda>i. bit w (31 - Suc i)) [0..<k] = takeWhile (\<lambda>i. bit (push_bit 1 w) (31 - i)) [0..<k]"
    using Suc.prems by (intro takeWhile_cong refl bit_shift_one [symmetric]) simp
  ultimately have "leading_ones (Suc k) w = (if bit w 31 then Suc (leading_ones k (push_bit 1 w)) else 0)"
    by (simp add: leading_ones_def)
  moreover have "unat (ctr + 1) = unat ctr + 1"
    using Suc.prems by (simp add: unat_word_ariths)
  ultimately show ?case
    using Suc.prems Suc.IH [of "ctr + 1" "push_bit 1 w"] by (simp add: msb32_iff)
qed

lemma mask_len_eq: "unat (mask_len a) = leading_ones 32 (ntohl (addr a))"
  using mask_len_loop_eq [of 32 0 "ntohl (addr a)"] by (simp add: mask_len_def del: mask_len_loop.simps)

lemma leading_ones_hi_mask: "n \<le> 32 \<Longrightarrow> leading_ones 32 (hi_mask n) = n"
proof -
  assume n: "n \<le> 32"
  then have "[0..<32] = [0..<n] @ [n..<32]" using upt_add_eq_append [of 0 n "32 - n"] by simp
  moreover have "takeWhile (\<lambda>i. bit (hi_mask n) (31 - i)) [n..<32] = []"
    using n by (cases "n = 32") (simp_all add: upt_conv_Cons bit_hi_mask)
  moreover have "bit (hi_mask n) (31 - i)" if "i < n" for i
    using n that by (auto simp: bit_hi_mask)
  then have "takeWhile (\<lambda>i. bit (hi_mask n) (31 - i)) ([0..<n] @ [n..<32]) =
      [0..<n] @ takeWhile (\<lambda>i. bit (hi_mask n) (31 - i)) [n..<32]"
    by (intro takeWhile_append2) simp
  ultimately show ?thesis
    by (simp add: leading_ones_def del: upt_rec_numeral)
qed

subsection \<open>Raw copies and strings\<close>

lemma copy_in_copy_out: "copy_in (copy_out a @ rest) = Inr a"
  by (simp add: copy_out_def le_bytes_def)

lemma copy_out_copy_in: "copy_in bs = Inr a \<Longrightarrow> copy_out a = take 4 bs"
  by (induction bs rule: copy_in.induct) (auto simp: copy_out_def)

text \<open>A dotted quad: what \<open>inet_pton4\<close> is meant to accept, leading zeros included.\<close>

definition octet :: "string \<Rightarrow> bool" where
  "octet g \<longleftrightarrow> g \<noteq> [] \<and> list_all is_digit g \<and> dec_acc 0 g \<le> 255"

definition dotted_quad :: "string \<Rightarrow> string \<Rightarrow> string \<Rightarrow> string \<Rightarrow> string" where
  "dotted_quad a b c d = a @ ''.'' @ b @ ''.'' @ c @ ''.'' @ d"

definition quad_addr :: "string \<Rightarrow> string \<Rightarrow> string \<Rightarrow> string \<Rightarrow> ipv4" where
  "quad_addr a b c d = IPv4 (of_le_bytes (of_nat (dec_acc 0 a)) (of_nat (dec_acc 0 b)) (of_nat (dec_acc 0 c)) (of_nat (dec_acc 0 d)))"

lemma dec_acc_mono: "acc \<le> dec_acc acc g"
proof (induction g arbitrary: acc)
  case (Cons c g)
  show ?case using Cons [of "10 * acc + digit_val c"] by simp
qed simp

lemma digits_step:
  "list_all is_digit g \<Longrightarrow> inet_pton4_loop (g @ cs) True octets tp cur =
     (if dec_acc cur g \<le> 255 \<or> g = [] then inet_pton4_loop cs True octets tp (dec_acc cur g) else None)"
proof (induction g arbitrary: cur)
  case (Cons c g)
  show ?case
  proof (cases "cur * 10 + digit_val c > 255")
    case True
    with dec_acc_mono [of "10 * cur + digit_val c" g] Cons.prems show ?thesis by (simp add: Let_def mult.commute)
  next
    case False
    with Cons show ?thesis by (auto simp: Let_def mult.commute)
  qed
qed simp

lemma octet_step:
  assumes "list_all is_digit g" "g \<noteq> []" "n < 4"
  shows "inet_pton4_loop (g @ cs) False n tp 0 =
    (if octet g then inet_pton4_loop cs True (Suc n) tp (dec_acc 0 g) else None)"
proof -
  obtain c g' where g: "g = c # g'" using assms(2) by (cases g) auto
  have "digit_val c \<le> 255" using assms(1) g by (auto simp: digit_val_def is_digit_def)
  with assms digits_step [of g' cs "Suc n" tp "digit_val c"] g show ?thesis
    by (auto simp: Let_def octet_def)
qed

lemma dot_step:
  "n \<noteq> 4 \<Longrightarrow> inet_pton4_loop (CHR ''.'' # cs) True n tp k = inet_pton4_loop cs False n (tp @ [k]) 0"
  by (simp add: is_digit_def)

lemma octet_cases:
  assumes "inet_pton4_loop s False n tp 0 = Some xs" "n < 4"
  obtains (last) "octet s" "n = 3" "xs = tp @ [dec_acc 0 s]"
  | (dot) g r where "s = g @ ''.'' @ r" "octet g" "n < 3" "inet_pton4_loop r False (Suc n) (tp @ [dec_acc 0 g]) 0 = Some xs"
proof -
  define g r where "g = takeWhile is_digit s" and "r = dropWhile is_digit s"
  have s: "s = g @ r" and d: "list_all is_digit g" by (simp_all add: g_def r_def list_all_iff) (blast dest: set_takeWhileD)
  have r: "r = [] \<or> \<not> is_digit (hd r)" unfolding r_def by (metis hd_dropWhile)
  have "g \<noteq> []"
  proof
    assume "g = []"
    with assms s r show False by (cases r) auto
  qed
  from octet_step [OF d this assms(2), of r tp] assms(1) s
  have g: "octet g" and l: "inet_pton4_loop r True (Suc n) tp (dec_acc 0 g) = Some xs" by (simp_all split: if_splits)
  show thesis
  proof (cases r)
    case Nil
    with s g l assms(2) show ?thesis by (intro last) (auto split: if_splits)
  next
    case (Cons c r')
    with r l have "c = CHR ''.''" "Suc n \<noteq> 4" by (auto split: if_splits)
    with s g l Cons assms(2) show ?thesis by (intro dot [of g r']) (auto simp: is_digit_def)
  qed
qed

lemma inet_pton4_loop_iff:
  "inet_pton4_loop s False 0 [] 0 = Some xs \<longleftrightarrow>
    (\<exists>a b c d. s = dotted_quad a b c d \<and> list_all octet [a, b, c, d] \<and> xs = map (dec_acc 0) [a, b, c, d])"
proof
  assume "inet_pton4_loop s False 0 [] 0 = Some xs"
  then obtain a r where a: "s = a @ ''.'' @ r" "octet a" and r: "inet_pton4_loop r False 1 [dec_acc 0 a] 0 = Some xs"
    by (rule octet_cases) auto
  from r obtain b r' where b: "r = b @ ''.'' @ r'" "octet b" and r': "inet_pton4_loop r' False 2 [dec_acc 0 a, dec_acc 0 b] 0 = Some xs"
    by (rule octet_cases) (auto simp: numeral_2_eq_2)
  from r' obtain c d where c: "r' = c @ ''.'' @ d" "octet c"
    and d: "inet_pton4_loop d False 3 [dec_acc 0 a, dec_acc 0 b, dec_acc 0 c] 0 = Some xs"
    by (rule octet_cases) (auto simp: numeral_3_eq_3 numeral_2_eq_2)
  from d have "octet d" "xs = map (dec_acc 0) [a, b, c, d]" by (rule octet_cases; simp)+
  with a b c show "\<exists>a b c d. s = dotted_quad a b c d \<and> list_all octet [a, b, c, d] \<and> xs = map (dec_acc 0) [a, b, c, d]"
    by (intro exI [of _ a] exI [of _ b] exI [of _ c] exI [of _ d]) (simp add: dotted_quad_def)
next
  assume "\<exists>a b c d. s = dotted_quad a b c d \<and> list_all octet [a, b, c, d] \<and> xs = map (dec_acc 0) [a, b, c, d]"
  then obtain a b c d where s: "s = dotted_quad a b c d" "xs = map (dec_acc 0) [a, b, c, d]"
    and o: "octet a" "octet b" "octet c" "octet d" by auto
  have step: "inet_pton4_loop (g @ cs) False n tp 0 = inet_pton4_loop cs True (Suc n) tp (dec_acc 0 g)"
    if "octet g" "n < 4" for g cs n tp
    using octet_step [of g n cs tp] that by (simp add: octet_def)
  show "inet_pton4_loop s False 0 [] 0 = Some xs"
    using o s step [of d "Suc (Suc (Suc 0))" "[]"] by (simp add: dotted_quad_def step dot_step del: inet_pton4_loop.simps(2))
qed

lemma ipv4_of_cstring_Inr:
  "ipv4_of_cstring (Some s) = Inr x \<longleftrightarrow>
    (\<exists>a b c d. s = dotted_quad a b c d \<and> list_all octet [a, b, c, d] \<and> x = quad_addr a b c d)"
proof -
  have "ipv4_of_cstring (Some s) = Inr x \<longleftrightarrow> (\<exists>k l m n. inet_pton4_loop s False 0 [] 0 = Some [k, l, m, n]
      \<and> x = IPv4 (of_le_bytes (of_nat k) (of_nat l) (of_nat m) (of_nat n)))"
    by (auto simp: ipv4_of_cstring_def inet_pton4_def split: option.splits list.splits)
  then show ?thesis unfolding inet_pton4_loop_iff quad_addr_def by (simp only: list.map list.inject) blast
qed

lemma octet_dec: "n \<le> 255 \<Longrightarrow> octet (dec n)"
  by (simp add: octet_def is_digit_of_digit_list)

lemma ipv4_of_cstring_str: "ipv4_of_cstring (Some (ipv4_str a)) = Inr a"
proof -
  have b: "unat b \<le> 255" for b :: u8 using unsigned_less [of b, where 'a = nat] by simp
  obtain k l m n where w: "le_bytes (addr a) = [k, l, m, n]" by (simp add: le_bytes_def)
  then have "ipv4_str a = dotted_quad (dec (unat k)) (dec (unat l)) (dec (unat m)) (dec (unat n))"
    by (simp add: ipv4_str_def inet_ntoa_def dotted_quad_def)
  moreover have "a = quad_addr (dec (unat k)) (dec (unat l)) (dec (unat m)) (dec (unat n))"
    using w by (auto simp: quad_addr_def le_bytes_def)
  ultimately show ?thesis unfolding ipv4_of_cstring_Inr using b octet_dec by fastforce
qed

subsection \<open>Address classes as intervals\<close>

lemma hi_mask_numerals:
  "(0x80000000 :: u32) = hi_mask 1" "(0xc0000000 :: u32) = hi_mask 2" "(0xe0000000 :: u32) = hi_mask 3"
  "(0xf0000000 :: u32) = hi_mask 4" "(0xff000000 :: u32) = hi_mask 8"
  by (simp_all add: hi_mask_def mask_eq_exp_minus_1)

lemma and_hi_mask_eq_iff:
  "n \<le> 32 \<Longrightarrow> w AND hi_mask n = v \<longleftrightarrow> unat w div 2 ^ (32 - n) * 2 ^ (32 - n) = unat v"
  by (simp add: word_unat_eq_iff unat_and_hi_mask)

lemma class_macros:
  "IN_CLASSA w \<longleftrightarrow> unat w < 2 ^ 31"
  "IN_CLASSB w \<longleftrightarrow> 2 ^ 31 \<le> unat w \<and> unat w < 3 * 2 ^ 30"
  "IN_CLASSC w \<longleftrightarrow> 3 * 2 ^ 30 \<le> unat w \<and> unat w < 7 * 2 ^ 29"
  "IN_MULTICAST w \<longleftrightarrow> 7 * 2 ^ 29 \<le> unat w \<and> unat w < 15 * 2 ^ 28"
  "IN_BADCLASS w \<longleftrightarrow> 15 * 2 ^ 28 \<le> unat w"
proof -
  have lt: "unat w < 4294967296" using unsigned_less [of w, where 'a = nat] by simp
  have "w AND hi_mask 1 = 0 \<longleftrightarrow> unat w div 2147483648 * 2147483648 = 0"
    by (simp add: and_hi_mask_eq_iff)
  with lt show "IN_CLASSA w \<longleftrightarrow> unat w < 2 ^ 31"
    unfolding IN_CLASSA_def hi_mask_numerals(1) by simp linarith
  have "w AND hi_mask 2 = 0x80000000 \<longleftrightarrow> unat w div 1073741824 * 1073741824 = 2147483648"
    by (simp add: and_hi_mask_eq_iff)
  with lt show "IN_CLASSB w \<longleftrightarrow> 2 ^ 31 \<le> unat w \<and> unat w < 3 * 2 ^ 30"
    unfolding IN_CLASSB_def hi_mask_numerals(2) by simp linarith
  have "w AND hi_mask 3 = 0xc0000000 \<longleftrightarrow> unat w div 536870912 * 536870912 = 3221225472"
    by (simp add: and_hi_mask_eq_iff)
  with lt show "IN_CLASSC w \<longleftrightarrow> 3 * 2 ^ 30 \<le> unat w \<and> unat w < 7 * 2 ^ 29"
    unfolding IN_CLASSC_def hi_mask_numerals(3) by simp linarith
  have "w AND hi_mask 4 = c \<longleftrightarrow> unat w div 268435456 * 268435456 = unat c" for c
    by (simp add: and_hi_mask_eq_iff)
  moreover have "unat (hi_mask 4) = 4026531840" unfolding hi_mask_numerals(4) [symmetric] by simp
  ultimately show "IN_MULTICAST w \<longleftrightarrow> 7 * 2 ^ 29 \<le> unat w \<and> unat w < 15 * 2 ^ 28"
    "IN_BADCLASS w \<longleftrightarrow> 15 * 2 ^ 28 \<le> unat w"
    using lt unfolding IN_MULTICAST_def IN_BADCLASS_def hi_mask_numerals(4) by (simp, linarith)+
qed

lemmas address_classes =
  is_class_a_def is_class_b_def is_class_c_def is_multicast_def is_experimental_def is_unicast_def
  is_linklocal_multicast_def class_macros hval_def [symmetric] Let_def

lemma addr_eq_0_iff: "addr a = 0 \<longleftrightarrow> hval a = 0"
  by (simp add: hval_def unat_eq_zero)

subsection \<open>Properties\<close>

text \<open>
  C27: The constructor from a string accepts exactly the dotted quads, four non-empty groups of
  decimal digits with values up to 255 that are separated by single dots, and builds the address
  whose bytes in memory are these values; every other string raises \<open>InvalidString\<close> with the
  string in its message. The printed form of an address is such a quad and gives the address back.
\<close>

theorem ipv4_string_roundtrip:
  "(ipv4_of_cstring (Some s) = Inr x \<longleftrightarrow>
      (\<exists>a b c d. s = dotted_quad a b c d \<and> list_all octet [a, b, c, d] \<and> x = quad_addr a b c d))
   \<and> (ipv4_of_cstring (Some s) = Inl e \<longleftrightarrow>
      \<not> (\<exists>a b c d. s = dotted_quad a b c d \<and> list_all octet [a, b, c, d])
      \<and> e = InvalidString (''Bad IPv4 '' @ [CHR 0x22] @ s @ [CHR 0x22]))
   \<and> ipv4_of_cstring (Some (ipv4_str x)) = Inr x"
proof (intro conjI ipv4_of_cstring_Inr ipv4_of_cstring_str)
  have "ipv4_of_cstring (Some s) = Inl (InvalidString (''Bad IPv4 '' @ [CHR 0x22] @ s @ [CHR 0x22]))"
    if "\<forall>y. ipv4_of_cstring (Some s) \<noteq> Inr y"
    using that by (auto simp: ipv4_of_cstring_def split: prod.splits if_splits)
  then show "ipv4_of_cstring (Some s) = Inl e \<longleftrightarrow> \<not> (\<exists>a b c d. s = dotted_quad a b c d \<and> list_all octet [a, b, c, d])
      \<and> e = InvalidString (''Bad IPv4 '' @ [CHR 0x22] @ s @ [CHR 0x22])"
    using ipv4_of_cstring_Inr [of s] by (metis Inl_Inr_False sum.inject(1))
qed

text \<open>
  masking by a prefix length clears the bits below the prefix (in host order, the value is rounded
  down to a multiple of \<open>2 ^ (32 - m)\<close>), and a length above 32 raises \<open>InvalidNetmaskLength\<close>.
\<close>

theorem mask_by_prefix_len_correct:
  "mask_by_prefix_len a m =
     (if unat m \<le> 32 then Inr (of_hval (hval a div 2 ^ (32 - unat m) * 2 ^ (32 - unat m)))
      else Inl (InvalidNetmaskLength (unat m)))"
proof (cases "unat m \<le> 32")
  case True
  then have "of_hval (hval a div 2 ^ (32 - unat m) * 2 ^ (32 - unat m)) = mask_addr a (unat m)"
    by (simp flip: hval_mask_addr)
  with True show ?thesis by (simp add: mask_by_prefix_len_ok)
qed (simp add: mask_by_prefix_len_error)

text \<open>
  the length that \<open>mask_len\<close> reads off a netmask is the length the netmask was made from.
\<close>

theorem mask_len_make_prefix: "make_prefix m = Inr p \<Longrightarrow> mask_len p = m"
proof -
  assume p: "make_prefix m = Inr p"
  then have m: "unat m \<le> 32" by (auto simp: make_prefix_def word_less_nat_alt split: if_splits)
  with p have "unat (mask_len p) = unat m" by (auto simp: make_prefix_ok mask_len_eq leading_ones_hi_mask)
  then show ?thesis by (simp add: word_unat_eq_iff)
qed

theorem mask_len_make_prefix_witness: "mask_len (IPv4 (htonl 0xffffff00)) = 24"
  by (rule mask_len_make_prefix) (simp add: make_prefix_def mask_eq_exp_minus_1)

text \<open>
  the class predicates split the address space at the classful boundaries: every address is in
  exactly one of the classes A, B, C, multicast (D) and experimental (E), and the unicast addresses are
  the nonzero ones of the first three.
\<close>

theorem address_class_partition:
  "length (filter (\<lambda>p. p a) [is_class_a, is_class_b, is_class_c, is_multicast, is_experimental]) = 1 \<and>
   (is_unicast a \<longleftrightarrow> (is_class_a a \<or> is_class_b a \<or> is_class_c a) \<and> \<not> is_zero a)"
  by (auto simp: address_classes is_zero_def addr_eq_0_iff)

text \<open>
  the comparison of an address with a range is made on the words in network byte order, so on a
  little-endian host an address that lies numerically inside a range can compare as outside it, and one
  that lies outside as inside.
\<close>

theorem ipv4_range_byte_order:
  "(\<exists>a r. low_addr r \<le> a \<and> a \<le> high_addr r \<and> \<not> ipv4_eq_range a r) \<and>
   (\<exists>a r. \<not> (low_addr r \<le> a \<and> a \<le> high_addr r) \<and> ipv4_eq_range a r)"
proof (intro conjI)
  let ?r = "\<lparr> low_addr = IPv4 (htonl 0x0a000002), high_addr = IPv4 (htonl 0x0a010001) \<rparr>"
  have "low_addr ?r \<le> IPv4 (htonl 0x0a000003) \<and> IPv4 (htonl 0x0a000003) \<le> high_addr ?r
      \<and> \<not> ipv4_eq_range (IPv4 (htonl 0x0a000003)) ?r"
    by (simp add: less_eq_ipv4_def ipv4_eq_range_def bswap32_def)
  then show "\<exists>a r. low_addr r \<le> a \<and> a \<le> high_addr r \<and> \<not> ipv4_eq_range a r" by blast
  let ?s = "\<lparr> low_addr = IPv4 (htonl 0x0a000001), high_addr = IPv4 (htonl 0x0a000003) \<rparr>"
  have "\<not> (low_addr ?s \<le> IPv4 (htonl 0x0b000002) \<and> IPv4 (htonl 0x0b000002) \<le> high_addr ?s)
      \<and> ipv4_eq_range (IPv4 (htonl 0x0b000002)) ?s"
    by (simp add: less_eq_ipv4_def ipv4_eq_range_def bswap32_def)
  then show "\<exists>a r. \<not> (low_addr r \<le> a \<and> a \<le> high_addr r) \<and> ipv4_eq_range a r" by blast
qed

end
