(* ===== verification/IPNet.thy ===== *)
theory IPNet
  imports IPv4_Addr
begin

text \<open>
  Address prefixes: the class \<open>IPNet<IPv4>\<close> of \<open>libxorp/ipnet.hh\<close> and \<open>libxorp/ipnet.cc\<close>. A
  prefix denotes an aligned block of host order values; containment, overlap, order and the common
  subnet are characterised by these blocks.
\<close>

subsection \<open>The class\<close>

record ipnet =
  masked_addr :: ipv4
  prefix_len :: u8

definition ipnet_default :: ipnet where
  "ipnet_default = \<lparr> masked_addr = ipv4_ZERO, prefix_len = 0 \<rparr>"

definition mk_ipnet :: "ipv4 \<Rightarrow> u8 \<Rightarrow> ipnet res" where
  "mk_ipnet a plen =
     (if unat plen > addr_bitlen then Inl (InvalidNetmaskLength (unat plen))
      else res_map (\<lambda>m. \<lparr> masked_addr = m, prefix_len = plen \<rparr>) (mask_by_prefix_len a (ucast plen)))"

fun strrchr :: "char \<Rightarrow> string \<Rightarrow> (string \<times> string) option" where
  "strrchr c [] = None"
| "strrchr c (x # xs) = (case strrchr c xs of
     Some (before, after) \<Rightarrow> Some (x # before, after)
   | None \<Rightarrow> if x = c then Some ([], xs) else None)"

definition ipnet_of_string :: "string \<Rightarrow> ipnet res" where
  "ipnet_of_string cp = (case strrchr (CHR ''/'') cp of
     None \<Rightarrow> Inl (InvalidString ''Missing slash'')
   | Some (before, after) \<Rightarrow>
       if after = [] then Inl (InvalidString ''Missing prefix length'')
       else if \<not> list_all is_digit after then Inl (InvalidString ''Bad prefix length'')
       else let plen = word_of_int (atoi_long after) :: u8 in
         res_bind (ipv4_of_cstring (Some before)) (\<lambda>a.
         res_map (\<lambda>m. \<lparr> masked_addr = m, prefix_len = plen \<rparr>) (mask_by_prefix_len a (ucast plen))))"

definition ipnet_str :: "ipnet \<Rightarrow> string" where
  "ipnet_str n = ipv4_str (masked_addr n) @ ''/'' @ dec (unat (prefix_len n))"

subsection \<open>Containment, overlap and order\<close>

definition ipnet_contains_addr :: "ipnet \<Rightarrow> ipv4 \<Rightarrow> bool res" where
  "ipnet_contains_addr n a =
     res_map (\<lambda>w. w = addr (masked_addr n)) (mask_by_prefix_len_uint a (ucast (prefix_len n)))"

definition ipnet_contains :: "ipnet \<Rightarrow> ipnet \<Rightarrow> bool res" where
  "ipnet_contains n other =
     (if prefix_len n > prefix_len other then Inr False
      else if prefix_len n = prefix_len other then Inr (masked_addr other = masked_addr n)
      else ipnet_contains_addr n (masked_addr other))"

definition ipnet_less :: "ipnet \<Rightarrow> ipnet \<Rightarrow> bool res" where
  "ipnet_less n other =
     res_bind (ipnet_contains n other) (\<lambda>c1.
       if c1 then Inr False
       else res_bind (ipnet_contains other n) (\<lambda>c2.
         if c2 then Inr True else Inr (masked_addr n < masked_addr other)))"

definition ipnet_is_overlap :: "ipnet \<Rightarrow> ipnet \<Rightarrow> bool res" where
  "ipnet_is_overlap n other =
     (if prefix_len n > prefix_len other then
        res_map (\<lambda>m. masked_addr m = masked_addr other) (mk_ipnet (masked_addr n) (prefix_len other))
      else if prefix_len n < prefix_len other then
        res_map (\<lambda>m. masked_addr m = masked_addr n) (mk_ipnet (masked_addr other) (prefix_len n))
      else Inr (masked_addr other = masked_addr n))"

definition ipnet_overlap :: "ipnet \<Rightarrow> ipnet \<Rightarrow> u32" where
  "ipnet_overlap n other =
     (let xor_addr = ipv4_xor (masked_addr n) (masked_addr other);
          done = ipv4_leading_zero_count xor_addr;
          p = (if prefix_len n < prefix_len other then ucast (prefix_len n) else ucast (prefix_len other))
      in if done > p then p else done)"

definition common_subnet :: "ipnet \<Rightarrow> ipnet \<Rightarrow> ipnet res" where
  "common_subnet x y = mk_ipnet (masked_addr x) (ucast (ipnet_overlap x y))"

subsection \<open>Masks, neighbours and classes\<close>

definition ipnet_is_valid :: "ipnet \<Rightarrow> bool" where "ipnet_is_valid n \<longleftrightarrow> prefix_len n \<noteq> 0"

definition netmask :: "ipnet \<Rightarrow> ipv4 res" where
  "netmask n = make_prefix (ucast (prefix_len n))"

text \<open>
  Two members give raw access: \<open>masked_addr_nc\<close> returns a reference to the base address, here with
  the write that is made through it, and \<open>set_prefix_len\<close> stores its argument. \<open>libxipc/xrl_atom.cc\<close>
  uses them to read a prefix from the five bytes of an XRL argument.
\<close>

definition masked_addr_nc :: "(ipv4 \<Rightarrow> ipv4) \<Rightarrow> ipnet \<Rightarrow> ipnet" where
  "masked_addr_nc write n = n\<lparr> masked_addr := write (masked_addr n) \<rparr>"

definition set_prefix_len :: "u8 \<Rightarrow> ipnet \<Rightarrow> ipnet" where
  "set_prefix_len v n = n\<lparr> prefix_len := v \<rparr>"

definition pack_ipv4net :: "ipnet \<Rightarrow> u8 list" where
  "pack_ipv4net n = le_bytes (addr (masked_addr n)) @ [prefix_len n]"

fun unpack_ipv4net :: "u8 list \<Rightarrow> ipnet \<Rightarrow> ipnet res" where
  "unpack_ipv4net (b0 # b1 # b2 # b3 # b4 # bs) n =
     Inr (set_prefix_len b4 (masked_addr_nc (\<lambda>x. set_addr x (of_le_bytes b0 b1 b2 b3)) n))"
| "unpack_ipv4net _ n = Inl OutOfBounds"

definition top_addr :: "ipnet \<Rightarrow> ipv4 res" where
  "top_addr n = res_map (\<lambda>m. ipv4_or (masked_addr n) (ipv4_not m)) (netmask n)"

definition ipnet_dec :: "ipnet \<Rightarrow> ipnet" where
  "ipnet_dec n =
     (let s = 32 - ucast (prefix_len n)
      in n \<lparr> masked_addr := ipv4_shiftl (ipv4_dec (ipv4_shiftr (masked_addr n) s)) s \<rparr>)"

definition ipnet_inc :: "ipnet \<Rightarrow> ipnet" where
  "ipnet_inc n =
     (let s = 32 - ucast (prefix_len n)
      in n \<lparr> masked_addr := ipv4_shiftl (ipv4_inc (ipv4_shiftr (masked_addr n) s)) s \<rparr>)"

definition ip_multicast_base_prefix :: "ipnet res" where "ip_multicast_base_prefix = mk_ipnet MULTICAST_BASE 4"
definition ip_class_a_base_prefix :: "ipnet res" where "ip_class_a_base_prefix = mk_ipnet CLASS_A_BASE 1"
definition ip_class_b_base_prefix :: "ipnet res" where "ip_class_b_base_prefix = mk_ipnet CLASS_B_BASE 2"
definition ip_class_c_base_prefix :: "ipnet res" where "ip_class_c_base_prefix = mk_ipnet CLASS_C_BASE 3"
definition ip_experimental_base_prefix :: "ipnet res" where
  "ip_experimental_base_prefix = mk_ipnet EXPERIMENTAL_BASE 4"

definition net_is_multicast :: "ipnet \<Rightarrow> bool res" where
  "net_is_multicast n = res_bind ip_multicast_base_prefix (\<lambda>b. ipnet_contains b n)"

definition net_is_class_a :: "ipnet \<Rightarrow> bool res" where
  "net_is_class_a n = res_bind ip_class_a_base_prefix (\<lambda>b. ipnet_contains b n)"

definition net_is_class_b :: "ipnet \<Rightarrow> bool res" where
  "net_is_class_b n = res_bind ip_class_b_base_prefix (\<lambda>b. ipnet_contains b n)"

definition net_is_class_c :: "ipnet \<Rightarrow> bool res" where
  "net_is_class_c n = res_bind ip_class_c_base_prefix (\<lambda>b. ipnet_contains b n)"

definition net_is_experimental :: "ipnet \<Rightarrow> bool res" where
  "net_is_experimental n = res_bind ip_experimental_base_prefix (\<lambda>b. ipnet_contains b n)"

definition net_is_unicast :: "ipnet \<Rightarrow> bool res" where
  "net_is_unicast n =
     (if prefix_len n = 0 then Inr True
      else res_bind (net_is_class_a n) (\<lambda>a. if a then Inr True else
           res_bind (net_is_class_b n) (\<lambda>b. if b then Inr True else
           res_bind (net_is_class_c n) (\<lambda>c. if c then Inr True else Inr False))))"

subsection \<open>Well-formed prefixes and their blocks\<close>

definition plen :: "ipnet \<Rightarrow> nat" where "plen n = unat (prefix_len n)"

definition wf_net :: "ipnet \<Rightarrow> bool" where
  "wf_net n \<longleftrightarrow> plen n \<le> 32 \<and> mask_addr (masked_addr n) (plen n) = masked_addr n"

definition net_lo :: "ipnet \<Rightarrow> nat" where "net_lo n = hval (masked_addr n)"
definition net_width :: "ipnet \<Rightarrow> nat" where "net_width n = 2 ^ (32 - plen n)"
definition net_hi :: "ipnet \<Rightarrow> nat" where "net_hi n = net_lo n + net_width n - 1"

definition net_block :: "ipnet \<Rightarrow> nat set" where
  "net_block n = {net_lo n ..< net_lo n + net_width n}"

lemma net_width_pos [simp]: "0 < net_width n" "net_width n \<noteq> 0"
  by (simp_all add: net_width_def)

lemma net_lo_in_block [simp]: "net_lo n \<in> net_block n"
  by (simp add: net_block_def)

lemma net_block_not_empty [simp]: "net_block n \<noteq> {}" "{} \<noteq> net_block n"
  using net_lo_in_block by blast+

lemma net_lo_less [simp]: "net_lo n < 4294967296"
  by (simp add: net_lo_def)

lemma wf_net_plen [simp]: "wf_net n \<Longrightarrow> plen n \<le> 32"
  by (simp add: wf_net_def)

lemma wf_net_iff: "wf_net n \<longleftrightarrow> plen n \<le> 32 \<and> net_width n dvd net_lo n"
proof -
  have "mask_addr (masked_addr n) (plen n) = masked_addr n \<longleftrightarrow> net_width n dvd net_lo n" if "plen n \<le> 32"
    using that by (auto simp: hval_eq_iff [symmetric] hval_mask_addr net_width_def net_lo_def)
      (metis dvd_triv_right)
  then show ?thesis unfolding wf_net_def by blast
qed

lemma wf_net_dvd: "wf_net n \<Longrightarrow> net_width n dvd net_lo n"
  by (simp add: wf_net_iff)

lemma ipnet_eqI: "net_lo x = net_lo y \<Longrightarrow> plen x = plen y \<Longrightarrow> x = (y :: ipnet)"
  by (cases x; cases y) (simp add: net_lo_def plen_def hval_eq_iff word_unat_eq_iff)

lemma plen_less_iff: "prefix_len x < prefix_len y \<longleftrightarrow> plen x < plen y"
  "prefix_len x \<le> prefix_len y \<longleftrightarrow> plen x \<le> plen y" "prefix_len x = prefix_len y \<longleftrightarrow> plen x = plen y"
  by (simp_all add: plen_def word_less_nat_alt word_le_nat_alt word_unat_eq_iff)

lemma unat_ucast_plen [simp]: "unat (ucast (prefix_len n) :: u32) = plen n"
  by (simp add: plen_def unsigned_ucast_eq take_bit_nat_eq_self unsigned_less [THEN less_trans])

lemma net_block_top: "wf_net n \<Longrightarrow> net_lo n + net_width n \<le> 4294967296"
proof -
  assume n: "wf_net n"
  then obtain q where q: "net_lo n = net_width n * q" by (auto dest: wf_net_dvd)
  have w: "net_width n * 2 ^ plen n = 4294967296"
    using wf_net_plen [OF n] by (simp add: net_width_def flip: power_add)
  have "net_width n * q < net_width n * 2 ^ plen n"
    unfolding w q [symmetric] by (simp add: net_lo_def)
  then have "Suc q \<le> 2 ^ plen n" by simp
  then have "net_width n * Suc q \<le> net_width n * 2 ^ plen n" by (rule mult_le_mono2)
  then show ?thesis unfolding w q by simp
qed

lemma mk_ipnet_ok [res_simps]:
  "unat p \<le> 32 \<Longrightarrow> mk_ipnet a p = Inr \<lparr> masked_addr = mask_addr a (unat p), prefix_len = p \<rparr>"
  by (simp add: mk_ipnet_def addr_bitlen_def addr_bytelen_def mask_by_prefix_len_ok unsigned_ucast_eq
      take_bit_nat_eq_self)

lemma mk_ipnet_error: "unat p > 32 \<Longrightarrow> mk_ipnet a p = Inl (InvalidNetmaskLength (unat p))"
  by (simp add: mk_ipnet_def addr_bitlen_def addr_bytelen_def)

definition net_of :: "nat \<Rightarrow> nat \<Rightarrow> ipnet" where
  "net_of v n = \<lparr> masked_addr = of_hval (v div 2 ^ (32 - n) * 2 ^ (32 - n)), prefix_len = of_nat n \<rparr>"

lemma plen_net_of [simp]: "n \<le> 32 \<Longrightarrow> plen (net_of v n) = n"
  by (simp add: net_of_def plen_def unsigned_of_nat take_bit_nat_eq_self)

lemma net_width_net_of [simp]: "n \<le> 32 \<Longrightarrow> net_width (net_of v n) = 2 ^ (32 - n)"
  by (simp add: net_width_def)

lemma net_lo_net_of [simp]: "v < 4294967296 \<Longrightarrow> net_lo (net_of v n) = v div 2 ^ (32 - n) * 2 ^ (32 - n)"
proof -
  assume "v < 4294967296"
  then have "v div 2 ^ (32 - n) * 2 ^ (32 - n) < 4294967296"
    using block_round(1) [of v "32 - n"] by linarith
  then show ?thesis by (simp add: net_of_def net_lo_def)
qed

lemma wf_net_of [simp]: "v < 4294967296 \<Longrightarrow> n \<le> 32 \<Longrightarrow> wf_net (net_of v n)"
  by (simp add: wf_net_iff)

lemma mk_ipnet_eq: "unat p \<le> 32 \<Longrightarrow> mk_ipnet a p = Inr (net_of (hval a) (unat p))"
  by (simp add: mk_ipnet_ok net_of_def flip: hval_mask_addr)

lemma net_of_net: "wf_net n \<Longrightarrow> net_of (net_lo n) (plen n) = n"
  using wf_net_dvd [of n] by (intro ipnet_eqI) (simp_all add: net_lo_less net_width_def)

lemma mem_net_block_iff: "wf_net n \<Longrightarrow> v \<in> net_block n \<longleftrightarrow> v div net_width n * net_width n = net_lo n"
  using block_mem_iff [of "32 - plen n" "net_lo n" v] by (auto simp: net_block_def net_width_def wf_net_iff)

lemma mem_net_of_iff: "v < 4294967296 \<Longrightarrow> n \<le> 32 \<Longrightarrow> v \<in> net_block (net_of v n)"
  by (simp add: mem_net_block_iff)

subsection \<open>Containment and overlap of blocks\<close>

lemma net_nested_or_disjoint:
  assumes "wf_net x" "wf_net y" "plen x \<le> plen y"
  shows "net_block y \<subseteq> net_block x \<or> net_block x \<inter> net_block y = {}"
  using block_nested_or_disjoint [of "32 - plen y" "net_lo y" "32 - plen x" "net_lo x"] assms
  by (auto simp: net_block_def net_width_def wf_net_iff)

lemma net_subset_iff:
  assumes "wf_net x" "wf_net y"
  shows "net_block y \<subseteq> net_block x \<longleftrightarrow> plen x \<le> plen y \<and> net_lo y \<in> net_block x"
proof
  assume sub: "net_block y \<subseteq> net_block x"
  then have "card (net_block y) \<le> card (net_block x)" by (intro card_mono) (simp_all add: net_block_def)
  then have "net_width y \<le> net_width x" by (simp add: net_block_def)
  with assms have "plen x \<le> plen y" by (simp add: net_width_def) (metis diff_le_mono2 diff_diff_cancel wf_net_plen)
  with sub show "plen x \<le> plen y \<and> net_lo y \<in> net_block x" using net_lo_in_block by blast
qed (use net_nested_or_disjoint [OF assms] net_lo_in_block in blast)

lemma net_subset_bounds:
  "net_block y \<subseteq> net_block x \<longleftrightarrow> net_lo x \<le> net_lo y \<and> net_lo y + net_width y \<le> net_lo x + net_width x"
  by (simp add: net_block_def)

lemma net_block_eq_iff: "wf_net x \<Longrightarrow> wf_net y \<Longrightarrow> net_block x = net_block y \<longleftrightarrow> x = y"
proof
  assume wf: "wf_net x" "wf_net y" and "net_block x = net_block y"
  then have sub: "net_block x \<subseteq> net_block y" "net_block y \<subseteq> net_block x" by blast+
  then have "plen x = plen y" using wf by (simp add: net_subset_iff)
  moreover have "net_lo x = net_lo y" using sub by (simp add: net_subset_bounds)
  ultimately show "x = y" by (intro ipnet_eqI)
qed simp

lemma ipnet_contains_addr_ok [res_simps]:
  "wf_net n \<Longrightarrow> ipnet_contains_addr n a = Inr (hval a \<in> net_block n)"
proof -
  assume n: "wf_net n"
  have "addr (mask_addr a (plen n)) = addr (masked_addr n) \<longleftrightarrow> hval (mask_addr a (plen n)) = net_lo n"
    by (simp only: net_lo_def hval_eq_iff) (metis ipv4.expand)
  with n show ?thesis
    by (simp add: ipnet_contains_addr_def mask_by_prefix_len_uint_eq mask_by_prefix_len_ok
        hval_mask_addr mem_net_block_iff net_width_def)
qed

lemma ipnet_contains_ok [res_simps]:
  assumes "wf_net x" "wf_net y"
  shows "ipnet_contains x y = Inr (net_block y \<subseteq> net_block x)"
proof -
  have "masked_addr y = masked_addr x \<longleftrightarrow> net_lo y \<in> net_block x" if "plen x = plen y"
    using that assms mem_net_block_iff [of x "net_lo y"] wf_net_dvd [of y]
    by (simp add: net_lo_def hval_eq_iff net_width_def)
  then show ?thesis
    using assms by (auto simp: ipnet_contains_def plen_less_iff net_subset_iff ipnet_contains_addr_ok net_lo_def)
qed

lemma ipnet_is_overlap_ok [res_simps]:
  assumes "wf_net x" "wf_net y"
  shows "ipnet_is_overlap x y = Inr (net_block x \<inter> net_block y \<noteq> {})"
proof -
  have meet: "net_block x \<inter> net_block y \<noteq> {} \<longleftrightarrow> net_lo y \<in> net_block x" if "plen x \<le> plen y" "wf_net x" "wf_net y" for x y
    using net_nested_or_disjoint [of x y] that net_lo_in_block by blast
  have rnd: "mask_addr (masked_addr y) (plen x) = masked_addr x \<longleftrightarrow> net_lo y \<in> net_block x" if "wf_net x" for x y
    using that by (simp add: hval_eq_iff [symmetric] hval_mask_addr mem_net_block_iff net_width_def net_lo_def)
  have "ipnet_contains x y = Inr (masked_addr y = masked_addr x)" if "plen x = plen y"
    using that by (simp add: ipnet_contains_def plen_less_iff)
  then have eq: "masked_addr y = masked_addr x \<longleftrightarrow> net_lo y \<in> net_block x" if "plen x = plen y"
    using that assms by (simp add: ipnet_contains_ok net_subset_iff)
  show ?thesis
    using assms meet [of x y] meet [of y x] rnd [of x y] rnd [of y x] eq
    by (auto simp: ipnet_is_overlap_def plen_less_iff mk_ipnet_ok plen_def [symmetric] Int_commute)
qed

subsection \<open>The order\<close>

lemma ipnet_less_ok [res_simps]:
  assumes "wf_net x" "wf_net y"
  shows "ipnet_less x y = Inr (net_hi x < net_hi y \<or> net_hi x = net_hi y \<and> plen y < plen x)"
proof -
  have w: "plen x < plen y \<longleftrightarrow> net_width y < net_width x" "plen y < plen x \<longleftrightarrow> net_width x < net_width y"
    using assms by (auto simp: net_width_def wf_net_def)
  consider "net_block y \<subseteq> net_block x" | "\<not> net_block y \<subseteq> net_block x" "net_block x \<subseteq> net_block y"
    | "net_block x \<inter> net_block y = {}"
    using net_nested_or_disjoint [of x y] net_nested_or_disjoint [of y x] assms by (metis Int_commute linear)
  then show ?thesis
  proof cases
    case 1
    then show ?thesis using assms w net_width_pos [of x] net_width_pos [of y]
      by (simp add: ipnet_less_def ipnet_contains_ok) (auto simp: net_subset_bounds net_hi_def)
  next
    case 2
    then have "net_hi x < net_hi y \<or> net_hi x = net_hi y \<and> net_width x < net_width y"
      unfolding net_subset_bounds net_hi_def using net_width_pos [of x] net_width_pos [of y] by linarith
    with 2 show ?thesis using assms w by (simp add: ipnet_less_def ipnet_contains_ok)
  next
    case 3
    then have "net_lo x + net_width x \<le> net_lo y \<or> net_lo y + net_width y \<le> net_lo x"
      by (auto simp: net_block_def)
    then have *: "net_lo x < net_lo y \<longleftrightarrow> net_hi x < net_hi y \<or> net_hi x = net_hi y \<and> net_width x < net_width y"
      unfolding net_hi_def using net_width_pos [of x] net_width_pos [of y] by arith
    from 3 have "\<not> net_block y \<subseteq> net_block x" "\<not> net_block x \<subseteq> net_block y"
      using net_lo_in_block by blast+
    then show ?thesis using assms w * by (simp add: ipnet_less_def ipnet_contains_ok less_ipv4_iff net_lo_def [symmetric])
  qed
qed

subsection \<open>Common prefixes\<close>

lemma le_length_takeWhile_upt: "k \<le> length (takeWhile P [0..<m]) \<longleftrightarrow> k \<le> m \<and> (\<forall>i < k. P i)"
proof
  assume k: "k \<le> length (takeWhile P [0..<m])"
  have "P i" if "i < k" for i
  proof -
    from that k have i: "i < length (takeWhile P [0..<m])" by simp
    then have "P (takeWhile P [0..<m] ! i)" using nth_mem [OF i] by (blast dest: set_takeWhileD)
    moreover have "i < m" using i length_takeWhile_le [of P "[0..<m]"] by simp
    ultimately show ?thesis using takeWhile_nth [OF i] by simp
  qed
  moreover have "k \<le> m" using k length_takeWhile_le [of P "[0..<m]"] by simp
  ultimately show "k \<le> m \<and> (\<forall>i < k. P i)" by blast
next
  assume k: "k \<le> m \<and> (\<forall>i < k. P i)"
  then have "takeWhile P ([0..<k] @ [k..<m]) = [0..<k] @ takeWhile P [k..<m]"
    by (intro takeWhile_append2) simp
  moreover have "[0..<m] = [0..<k] @ [k..<m]" using k upt_add_eq_append [of 0 k "m - k"] by simp
  ultimately show "k \<le> length (takeWhile P [0..<m])" by simp
qed

lemma le_leading_zeros_iff:
  assumes "k \<le> 32"
  shows "k \<le> leading_zeros (v XOR w :: u32) \<longleftrightarrow> unat v div 2 ^ (32 - k) = unat w div 2 ^ (32 - k)"
proof -
  have "k \<le> leading_zeros (v XOR w) \<longleftrightarrow> (\<forall>i < k. bit v (31 - i) = bit w (31 - i))"
    using assms by (simp add: leading_zeros_def le_length_takeWhile_upt bit_xor_iff del: upt_rec_numeral)
  also have "\<dots> \<longleftrightarrow> (\<forall>n. bit (drop_bit (32 - k) v) n = bit (drop_bit (32 - k) w) n)"
  proof (rule iffI; intro allI impI)
    fix n assume *: "\<forall>i < k. bit v (31 - i) = bit w (31 - i)"
    show "bit (drop_bit (32 - k) v) n = bit (drop_bit (32 - k) w) n"
    proof (cases "n < k")
      case True
      then have "31 - (k - Suc n) = 32 - k + n" using assms by simp
      with * True show ?thesis using * [rule_format, of "k - Suc n"] by (simp add: bit_drop_bit_eq)
    next
      case False
      then show ?thesis using assms by (auto simp: bit_drop_bit_eq dest: bit_imp_le_length)
    qed
  next
    fix i
    assume *: "\<forall>n. bit (drop_bit (32 - k) v) n = bit (drop_bit (32 - k) w) n" and "i < k"
    moreover from this have "32 - k + (k - Suc i) = 31 - i" using assms by simp
    ultimately show "bit v (31 - i) = bit w (31 - i)"
      using * [rule_format, of "k - Suc i"] by (simp add: bit_drop_bit_eq)
  qed
  also have "\<dots> \<longleftrightarrow> drop_bit (32 - k) v = drop_bit (32 - k) w"
    by (auto intro: bit_word_eqI)
  also have "\<dots> \<longleftrightarrow> unat v div 2 ^ (32 - k) = unat w div 2 ^ (32 - k)"
    by (simp only: word_unat_eq_iff unat_drop_bit_eq) (simp only: drop_bit_eq_div)
  finally show ?thesis .
qed

lemma le_ipnet_overlap_iff:
  assumes "k \<le> plen x" "k \<le> plen y" "wf_net x" "wf_net y"
  shows "k \<le> unat (ipnet_overlap x y) \<longleftrightarrow> net_lo x div 2 ^ (32 - k) = net_lo y div 2 ^ (32 - k)"
proof -
  have "k \<le> 32" using assms(1,3) by (simp add: wf_net_def)
  from le_leading_zeros_iff [OF this, of "ntohl (addr (masked_addr x))" "ntohl (addr (masked_addr y))"]
  show ?thesis
    using assms(1,2)
    by (auto simp: ipnet_overlap_def Let_def ipv4_leading_zero_count_def leading_zero_count_eq ipv4_xor_def
        word_less_nat_alt net_lo_def hval_def plen_less_iff)
qed

lemma ipnet_overlap_le: "unat (ipnet_overlap x y) \<le> plen x" "unat (ipnet_overlap x y) \<le> plen y"
  by (auto simp: ipnet_overlap_def Let_def word_less_nat_alt plen_def [symmetric])

lemma mem_net_of_block: "n \<le> 32 \<Longrightarrow> v < 4294967296 \<Longrightarrow>
    u \<in> net_block (net_of v n) \<longleftrightarrow> u div 2 ^ (32 - n) = v div 2 ^ (32 - n)"
  by (simp add: mem_net_block_iff)

lemma common_subnet_ok:
  assumes "wf_net x" "wf_net y"
  shows "common_subnet x y = Inr (net_of (net_lo x) (unat (ipnet_overlap x y)))"
proof -
  have "unat (ipnet_overlap x y) \<le> 32"
    using ipnet_overlap_le(1) [of x y] assms(1) by (auto simp: wf_net_def)
  then show ?thesis
    by (simp add: common_subnet_def mk_ipnet_eq net_lo_def unsigned_ucast_eq take_bit_nat_eq_self)
qed

lemma common_subnet_bound:
  assumes "wf_net x" "wf_net y"
  defines "z \<equiv> net_of (net_lo x) (unat (ipnet_overlap x y))"
  shows "wf_net z" "net_block x \<subseteq> net_block z" "net_block y \<subseteq> net_block z"
    and "wf_net w \<Longrightarrow> net_block x \<subseteq> net_block w \<Longrightarrow> net_block y \<subseteq> net_block w \<Longrightarrow> net_block z \<subseteq> net_block w"
proof -
  let ?k = "unat (ipnet_overlap x y)"
  have k: "?k \<le> 32" "?k \<le> plen x" "?k \<le> plen y"
    using ipnet_overlap_le [of x y] assms(1) by (auto simp: wf_net_def)
  then show z: "wf_net z" by (simp add: z_def)
  have "net_lo x div 2 ^ (32 - ?k) = net_lo y div 2 ^ (32 - ?k)"
    using le_ipnet_overlap_iff [OF k(2,3) assms(1,2)] by simp
  then show "net_block x \<subseteq> net_block z" "net_block y \<subseteq> net_block z"
    using k z assms by (simp_all add: net_subset_iff) (simp_all add: z_def mem_net_of_block)
  assume w: "wf_net w" "net_block x \<subseteq> net_block w" "net_block y \<subseteq> net_block w"
  then have p: "plen w \<le> plen x" "plen w \<le> plen y" "net_lo x \<in> net_block w" "net_lo y \<in> net_block w"
    using assms by (auto simp: net_subset_iff)
  then have "net_lo x div 2 ^ (32 - plen w) = net_lo y div 2 ^ (32 - plen w)"
    using w(1) by (simp add: mem_net_block_iff net_width_def) (metis nonzero_mult_div_cancel_right power_not_zero zero_neq_numeral)
  then have "plen w \<le> ?k" using p assms by (simp add: le_ipnet_overlap_iff)
  moreover have "net_lo z \<in> net_block z" "net_lo x \<in> net_block z"
    using \<open>net_block x \<subseteq> net_block z\<close> net_lo_in_block by blast+
  ultimately show "net_block z \<subseteq> net_block w"
    using net_nested_or_disjoint [OF w(1) z] p(3) k by (auto simp: z_def)
qed

subsection \<open>Neighbouring prefixes\<close>

lemma not_hi_mask: "n \<le> 32 \<Longrightarrow> NOT (hi_mask n) = mask (32 - n)"
  by (rule bit_word_eqI) (auto simp: bit_not_iff bit_hi_mask bit_mask_iff)

lemma unat_mask32: "k \<le> 32 \<Longrightarrow> unat (mask k :: u32) = 2 ^ k - 1"
  unfolding mask_eq_take_bit_minus_one
  by (simp only: unsigned_take_bit_eq unsigned_minus_1_eq_mask take_bit_of_mask) (simp add: mask_eq_exp_minus_1)

lemma or_mask_aligned:
  assumes "k \<le> 32" "2 ^ k dvd unat (v :: u32)" "unat v + 2 ^ k \<le> 4294967296"
  shows "unat (v OR mask k) = unat v + 2 ^ k - 1"
proof -
  have "\<not> bit v n" if "n < k" for n
  proof -
    have "take_bit k (unat v) = 0" using assms(2) by (simp add: take_bit_eq_mod)
    then have "\<not> bit (take_bit k (unat v)) n" by simp
    then show ?thesis using that by (simp add: bit_take_bit_iff bit_unsigned_iff)
  qed
  then have "v OR mask k = v + mask k"
    by (intro disjunctive_add [symmetric]) (auto simp: bit_mask_iff)
  moreover have "(0::nat) < 2 ^ k" by simp
  ultimately show ?thesis using assms(1,3) by (simp add: unat_word_ariths unat_mask32)
qed

lemma top_addr_ok: "wf_net n \<Longrightarrow> top_addr n = Inr (of_hval (net_hi n))"
proof -
  assume n: "wf_net n"
  let ?v = "ntohl (addr (masked_addr n))"
  have "unat (?v OR mask (32 - plen n)) = net_hi n"
    using n wf_net_dvd [OF n] net_block_top [OF n]
    by (subst or_mask_aligned) (simp_all add: net_lo_def hval_def net_width_def net_hi_def)
  then have "hval (ipv4_or (masked_addr n) (ipv4_not (IPv4 (htonl (hi_mask (plen n)))))) = net_hi n"
    using n by (simp add: hval_def ipv4_or_def ipv4_not_def not_hi_mask)
  then show ?thesis
    using n by (simp add: top_addr_def netmask_def make_prefix_ok) (metis of_hval_hval)
qed

lemma unat_shift [simp]: "plen n \<le> 32 \<Longrightarrow> unat (32 - ucast (prefix_len n) :: u32) = 32 - plen n"
  by (subst unat_sub) (simp_all add: word_le_nat_alt)

lemma hval_shiftr_plen:
  "wf_net n \<Longrightarrow> hval (ipv4_shiftr a (32 - ucast (prefix_len n))) = (if plen n = 0 then 0 else hval a div net_width n)"
  by (simp add: hval_shiftr net_width_def word_less_nat_alt) (simp add: ipv4_shiftr_def word_le_nat_alt)

lemma hval_shiftl_plen:
  "wf_net n \<Longrightarrow> hval (ipv4_shiftl a (32 - ucast (prefix_len n))) =
     (if plen n = 0 then 0 else hval a * net_width n mod 4294967296)"
  by (simp add: hval_shiftl net_width_def word_less_nat_alt) (simp add: ipv4_shiftl_def word_le_nat_alt)

lemma masked_addr_inc_dec [simp]: "prefix_len (ipnet_inc n) = prefix_len n" "prefix_len (ipnet_dec n) = prefix_len n"
  "plen (ipnet_inc n) = plen n" "plen (ipnet_dec n) = plen n"
  "net_width (ipnet_inc n) = net_width n" "net_width (ipnet_dec n) = net_width n"
  by (simp_all add: ipnet_inc_def ipnet_dec_def Let_def plen_def net_width_def)

lemma net_lo_inc: "wf_net n \<Longrightarrow> net_lo (ipnet_inc n) = (net_lo n + net_width n) mod 4294967296"
proof -
  assume n: "wf_net n"
  have w: "net_width n * 2 ^ plen n = 4294967296" using n by (simp add: net_width_def flip: power_add)
  have "net_lo (ipnet_inc n) = (if plen n = 0 then 0 else (net_lo n div net_width n + 1) mod 4294967296 * net_width n mod 4294967296)"
    using n by (simp add: ipnet_inc_def Let_def net_lo_def hval_shiftl_plen hval_inc hval_shiftr_plen)
  also have "\<dots> = (net_lo n + net_width n) mod 4294967296"
  proof (cases "plen n = 0")
    case True
    then have "net_width n = 4294967296" by (simp add: net_width_def)
    moreover from this have "net_lo n = 0" using net_block_top [OF n] by simp
    ultimately show ?thesis using True by simp
  next
    case False
    have "(net_lo n div net_width n + 1) * net_width n = net_lo n + net_width n"
      using wf_net_dvd [OF n] by (simp add: algebra_simps)
    with False show ?thesis by (simp add: mod_mult_left_eq add.commute)
  qed
  finally show ?thesis .
qed

lemma net_lo_dec: "wf_net n \<Longrightarrow> net_lo (ipnet_dec n) = (net_lo n + 4294967296 - net_width n) mod 4294967296"
proof -
  assume n: "wf_net n"
  have w: "net_width n \<le> 4294967296" using net_block_top [OF n] by simp
  have lo: "net_lo n div net_width n * net_width n = net_lo n" using wf_net_dvd [OF n] by simp
  have "net_lo (ipnet_dec n) = (if plen n = 0 then 0 else
      (if net_lo n div net_width n = 0 then 4294967295 else net_lo n div net_width n - 1) * net_width n mod 4294967296)"
    using n by (simp add: ipnet_dec_def Let_def net_lo_def hval_shiftl_plen hval_dec hval_shiftr_plen)
  also have "\<dots> = (net_lo n + 4294967296 - net_width n) mod 4294967296"
  proof (cases "plen n = 0")
    case True
    then have "net_width n = 4294967296" by (simp add: net_width_def)
    moreover from this have "net_lo n = 0" using net_block_top [OF n] by simp
    ultimately show ?thesis using True by simp
  next
    case False
    show ?thesis
    proof (cases "net_lo n div net_width n = 0")
      case True
      then have "net_lo n = 0" using lo by simp
      moreover have "4294967295 * net_width n = (4294967296 - net_width n) + 4294967296 * (net_width n - 1)"
        using w net_width_pos(1) [of n] by (cases "net_width n") auto
      then have "4294967295 * net_width n mod 4294967296 = (4294967296 - net_width n) mod 4294967296"
        by (simp only: mod_mult_self2)
      ultimately show ?thesis using False True by simp
    next
      case ne: False
      then have "(net_lo n div net_width n - 1) * net_width n = net_lo n - net_width n"
        by (simp add: diff_mult_distrib lo)
      moreover have "net_width n \<le> net_lo n" using ne by (simp add: div_eq_0_iff)
      moreover from this have "net_lo n + 4294967296 - net_width n = net_lo n - net_width n + 4294967296" by simp
      ultimately show ?thesis using False ne by (simp only: if_False mod_add_self2)
    qed
  qed
  finally show ?thesis .
qed

lemma wf_net_inc: "wf_net n \<Longrightarrow> wf_net (ipnet_inc n)"
proof -
  assume n: "wf_net n"
  have "net_width n dvd 4294967296" using n le_imp_power_dvd [of "32 - plen n" 32 "2::nat"] by (simp add: net_width_def)
  then show ?thesis using n by (simp add: wf_net_iff net_lo_inc dvd_mod_iff)
qed

lemma wf_net_dec: "wf_net n \<Longrightarrow> wf_net (ipnet_dec n)"
proof -
  assume n: "wf_net n"
  have "net_width n dvd 4294967296" using n le_imp_power_dvd [of "32 - plen n" 32 "2::nat"] by (simp add: net_width_def)
  then show ?thesis using n by (simp add: wf_net_iff net_lo_dec dvd_mod_iff dvd_diff_nat)
qed

lemma ipnet_dec_inc: "wf_net n \<Longrightarrow> ipnet_dec (ipnet_inc n) = n"
proof (rule ipnet_eqI)
  assume n: "wf_net n"
  have w: "net_width n \<le> 4294967296" using net_block_top [OF n] by simp
  have "net_lo n + net_width n \<le> 4294967296" by (rule net_block_top [OF n])
  then consider "net_lo n + net_width n < 4294967296" | "net_lo n + net_width n = 4294967296" by linarith
  then show "net_lo (ipnet_dec (ipnet_inc n)) = net_lo n"
  proof cases
    case 1
    then show ?thesis using n by (simp add: net_lo_dec wf_net_inc net_lo_inc)
  next
    case 2
    then have "net_lo n = 4294967296 - net_width n" by simp
    then show ?thesis using n 2 by (simp add: net_lo_dec wf_net_inc net_lo_inc)
  qed
qed simp

subsection \<open>Strings\<close>

lemma strrchr_append: "CHR ''/'' \<notin> set after \<Longrightarrow> strrchr (CHR ''/'') (before @ CHR ''/'' # after) = Some (before, after)"
proof (induction before)
  case Nil
  then have "strrchr (CHR ''/'') after = None" by (induction after) auto
  then show ?case by simp
qed simp

lemma slash_not_digit: "CHR ''/'' \<notin> set (dec n)"
  using dec_digits [of "CHR ''/''" n] by (auto simp: is_digit_def)

lemma ipnet_of_string_str: "wf_net n \<Longrightarrow> ipnet_of_string (ipnet_str n) = Inr n"
proof -
  assume n: "wf_net n"
  have "strrchr (CHR ''/'') (ipnet_str n) = Some (ipv4_str (masked_addr n), dec (unat (prefix_len n)))"
    by (simp add: ipnet_str_def strrchr_append slash_not_digit)
  moreover have "atoi_long (dec (unat (prefix_len n))) = int (unat (prefix_len n))"
  proof -
    have "atoi (dec k) = int k \<Longrightarrow> k < 2 ^ 8 \<Longrightarrow> atoi_long (dec k) = int k" for k
      by (simp add: atoi_long_def)
    from this [OF atoi_dec [of "[]", unfolded append_Nil2]] show ?thesis
      using unsigned_less [of "prefix_len n", where 'a = nat] by simp
  qed
  ultimately show ?thesis
    using n by (simp add: ipnet_of_string_def is_digit_of_digit_list ipv4_of_cstring_str Let_def
        mask_by_prefix_len_ok wf_net_def)
qed

subsection \<open>Properties\<close>

lemma mk_ipnet_wf: "mk_ipnet a p = Inr n \<Longrightarrow> wf_net n"
  by (cases "unat p \<le> 32") (auto simp: mk_ipnet_eq mk_ipnet_error)

lemma ipnet_of_string_wf: "ipnet_of_string s = Inr n \<Longrightarrow> wf_net n"
proof -
  assume s: "ipnet_of_string s = Inr n"
  then obtain a m and p :: u8 where m: "mask_by_prefix_len a (ucast p) = Inr m" and n: "n = \<lparr> masked_addr = m, prefix_len = p \<rparr>"
    by (auto simp: ipnet_of_string_def Let_def split: option.splits prod.splits if_splits)
  then have p: "unat p \<le> 32"
    by (cases "unat p \<le> 32") (simp_all add: mask_by_prefix_len_error unsigned_ucast_eq take_bit_nat_eq_self
        unsigned_less [THEN less_trans])
  then have "m = mask_addr a (unat p)"
    using m by (simp add: mask_by_prefix_len_ok unsigned_ucast_eq take_bit_nat_eq_self)
  with p show ?thesis by (simp add: n wf_net_def plen_def)
qed

lemma raw_access_wf:
  assumes "wf_net x"
  shows "wf_net (set_prefix_len v x) \<longleftrightarrow> unat v \<le> 32 \<and> 2 ^ (32 - unat v) dvd hval (masked_addr x)"
    and "wf_net (masked_addr_nc f x) \<longleftrightarrow> 2 ^ (32 - plen x) dvd hval (f (masked_addr x))"
  using assms
  by (simp_all add: wf_net_iff set_prefix_len_def masked_addr_nc_def plen_def net_width_def net_lo_def)

text \<open>
  C28: Every prefix that a constructor, the string constructor, \<open>operator++\<close>, \<open>operator--\<close> or
  \<open>common_subnet\<close> builds is well formed: its length is at most 32 and the bits of its address below
  the length are zero. The raw accessors do not ensure this. \<open>set_prefix_len\<close> keeps it exactly when
  the new length is at most 32 and leaves only zero bits below it, and a write through
  \<open>masked_addr_nc\<close> exactly when the new address has zero bits below the length.
\<close>

theorem ipnet_invariant:
  "wf_net ipnet_default \<and> (mk_ipnet a p = Inr n \<longrightarrow> wf_net n) \<and> (ipnet_of_string s = Inr n \<longrightarrow> wf_net n) \<and>
   (wf_net x \<longrightarrow> wf_net (ipnet_inc x) \<and> wf_net (ipnet_dec x)) \<and>
   (wf_net x \<and> wf_net y \<longrightarrow> (\<exists>z. common_subnet x y = Inr z \<and> wf_net z)) \<and>
   (wf_net x \<longrightarrow>
     (wf_net (set_prefix_len v x) \<longleftrightarrow> unat v \<le> 32 \<and> 2 ^ (32 - unat v) dvd hval (masked_addr x)) \<and>
     (wf_net (masked_addr_nc f x) \<longleftrightarrow> 2 ^ (32 - plen x) dvd hval (f (masked_addr x))))"
proof (intro conjI impI)
  show "wf_net ipnet_default" by (simp add: wf_net_def ipnet_default_def plen_def mask_addr_def hi_mask_def ipv4_ZERO_def)
qed (auto simp: mk_ipnet_wf ipnet_of_string_wf wf_net_inc wf_net_dec common_subnet_ok common_subnet_bound(1) raw_access_wf)

theorem ipnet_invariant_witness:
  "wf_net \<lparr> masked_addr = IPv4 (htonl 0x0a000000), prefix_len = 8 \<rparr>"
  using ipnet_invariant [of "IPv4 (htonl 0x0a010203)" 8 "\<lparr> masked_addr = IPv4 (htonl 0x0a000000), prefix_len = 8 \<rparr>"]
  by (simp add: mk_ipnet_ok mask_addr_def hi_mask_def mask_eq_exp_minus_1 flip: bswap32_and)

text \<open>
  C29: a prefix contains another one exactly when it contains every address of it; the test never raises
  on well-formed prefixes.
\<close>

theorem ipnet_contains_correct:
  assumes "wf_net x" "wf_net y"
  shows "ipnet_contains x y =
    Inr (\<forall>a. ipnet_contains_addr y a = Inr True \<longrightarrow> ipnet_contains_addr x a = Inr True)"
proof -
  have "net_block y \<subseteq> net_block x \<longleftrightarrow> (\<forall>a. hval a \<in> net_block y \<longrightarrow> hval a \<in> net_block x)"
  proof
    assume *: "\<forall>a. hval a \<in> net_block y \<longrightarrow> hval a \<in> net_block x"
    show "net_block y \<subseteq> net_block x"
    proof
      fix v assume v: "v \<in> net_block y"
      then have "v < 4294967296" using net_block_top [OF assms(2)] by (simp add: net_block_def)
      with v * show "v \<in> net_block x" by (metis hval_of_hval_less)
    qed
  qed blast
  with assms show ?thesis by (simp add: ipnet_contains_ok ipnet_contains_addr_ok)
qed

abbreviation example_net :: "u32 \<Rightarrow> u8 \<Rightarrow> ipnet" where
  "example_net a p \<equiv> \<lparr> masked_addr = IPv4 (htonl a), prefix_len = p \<rparr>"

theorem ipnet_contains_correct_witness:
  "ipnet_contains (example_net 0x0a000000 8) (example_net 0x0a010000 16) =
    Inr (\<forall>a. ipnet_contains_addr (example_net 0x0a010000 16) a = Inr True
           \<longrightarrow> ipnet_contains_addr (example_net 0x0a000000 8) a = Inr True)"
  by (rule ipnet_contains_correct) (simp_all add: wf_net_iff plen_def net_width_def net_lo_def)

text \<open>
  \<open>IPNet::operator<\<close> is a strict total order on well-formed prefixes and never raises: the order
  sorts by the last address of the prefix and puts the more specific prefix first.
\<close>

theorem ipnet_less_strict_order:
  assumes "wf_net x" "wf_net y" "wf_net z"
  shows "(\<exists>b. ipnet_less x y = Inr b) \<and> ipnet_less x x = Inr False \<and>
    (ipnet_less x y = Inr True \<longrightarrow> ipnet_less y z = Inr True \<longrightarrow> ipnet_less x z = Inr True) \<and>
    (x = y \<or> ipnet_less x y = Inr True \<or> ipnet_less y x = Inr True)"
proof -
  have "x = y" if "net_hi x = net_hi y" "plen x = plen y"
  proof (rule ipnet_eqI)
    have "net_width x = net_width y" using that by (simp add: net_width_def)
    then show "net_lo x = net_lo y"
      using that(1) net_width_pos(1) [of y] unfolding net_hi_def by linarith
  qed (rule that(2))
  then have "x = y \<or> net_hi x \<noteq> net_hi y \<or> plen x < plen y \<or> plen y < plen x" by linarith
  then show ?thesis using assms by (auto simp: ipnet_less_ok)
qed

lemma example_net_simps [simp]:
  "plen (example_net a p) = unat p" "net_lo (example_net a p) = unat a"
  "net_width (example_net a p) = 2 ^ (32 - unat p)"
  by (simp_all add: plen_def net_lo_def net_width_def)

theorem ipnet_less_strict_order_witness:
  "ipnet_less (example_net 0x80100000 24) (example_net 0x80104000 24) = Inr True \<and>
   ipnet_less (example_net 0x80104000 24) (example_net 0x80100000 16) = Inr True \<and>
   ipnet_less (example_net 0x80100000 24) (example_net 0x80100000 16) = Inr True"
  using ipnet_less_strict_order [of "example_net 0x80100000 24" "example_net 0x80104000 24" "example_net 0x80100000 16"]
  by (simp add: wf_net_iff ipnet_less_ok net_hi_def)

text \<open>
  C30: \<open>common_subnet\<close> is the longest prefix that contains both arguments.
\<close>

theorem common_subnet_least:
  assumes "wf_net x" "wf_net y"
  shows "\<exists>z. common_subnet x y = Inr z \<and> wf_net z \<and> ipnet_contains z x = Inr True \<and> ipnet_contains z y = Inr True \<and>
    (\<forall>w. wf_net w \<and> ipnet_contains w x = Inr True \<and> ipnet_contains w y = Inr True \<longrightarrow> ipnet_contains w z = Inr True)"
  using assms common_subnet_bound(1-3) [OF assms] common_subnet_bound(4) [OF assms]
  by (simp add: common_subnet_ok ipnet_contains_ok) (simp add: ipnet_contains_ok cong: conj_cong)

theorem common_subnet_least_witness:
  "\<exists>z. common_subnet (example_net 0x0a010000 16) (example_net 0x0a020000 16) = Inr z \<and>
     ipnet_contains z (example_net 0x0a010000 16) = Inr True \<and> ipnet_contains z (example_net 0x0a020000 16) = Inr True"
  using common_subnet_least [of "example_net 0x0a010000 16" "example_net 0x0a020000 16"]
  by (auto simp: wf_net_iff)

text \<open>
  printing a prefix and reading the string back gives the same prefix.
\<close>

theorem ipnet_string_roundtrip: "wf_net n \<Longrightarrow> ipnet_of_string (ipnet_str n) = Inr n"
  by (rule ipnet_of_string_str)

theorem ipnet_string_roundtrip_witness:
  "ipnet_of_string (ipnet_str (example_net 0xc0a80100 24)) = Inr (example_net 0xc0a80100 24)"
  by (rule ipnet_string_roundtrip) (simp add: wf_net_iff plen_def net_width_def net_lo_def)

text \<open>
  A prefix survives the XRL encoding, but the decoder takes any five bytes: it can give a prefix
  of length 33, for which the test whether it contains an address raises.
\<close>

lemma unpack_pack_ipv4net: "unpack_ipv4net (pack_ipv4net n) m = Inr n"
  by (simp add: pack_ipv4net_def le_bytes_def set_prefix_len_def masked_addr_nc_def set_addr_def)

lemma unpack_ipv4net_unchecked:
  "\<exists>n. unpack_ipv4net [10, 0, 0, 0, 33] ipnet_default = Inr n \<and> \<not> wf_net n
    \<and> ipnet_contains_addr n a = Inl (InvalidNetmaskLength 33)"
  by (simp add: set_prefix_len_def masked_addr_nc_def ipnet_contains_addr_def mask_by_prefix_len_uint_def
      make_prefix_uint_def wf_net_def plen_def)

text \<open>
  the prefix length read from a string is reduced modulo 256 before its range check, so the string
  \<open>10.0.0.0/256\<close> is accepted and denotes the default route \<open>0.0.0.0/0\<close>.
\<close>

theorem ipnet_of_string_truncates: "ipnet_of_string ''10.0.0.0/256'' = Inr ipnet_default"
  by (simp add: ipnet_of_string_def ipnet_default_def ipv4_of_cstring_def inet_pton4_def is_digit_def digit_val_def
      atoi_long_def atoi_def is_space_def Let_def mask_by_prefix_len_ok mask_addr_def ipv4_ZERO_def hi_mask_def)

end
