(* ===== verification/Route_Trie.thy ===== *)
theory Route_Trie
  imports IPNet
begin

text \<open>
  The route trie of \<open>libxorp/trie.hh\<close>, instantiated at IPv4 prefixes. A tree of nodes is a datatype;
  a pointer to a node together with its chain of \<open>_up\<close> pointers is a location: the subtree at the
  node and the list of frames that lead back to the root.
\<close>

subsection \<open>Nodes and locations\<close>

datatype 'p trie =
    Null
  | Node (k: ipnet) (payload: "'p option") (left: "'p trie") (right: "'p trie")

datatype 'p frame =
    InLeft ipnet "'p option" "'p trie"
  | InRight ipnet "'p option" "'p trie"

type_synonym 'p loc = "'p trie \<times> 'p frame list"

primrec nodes :: "'p trie \<Rightarrow> nat" where
  "nodes Null = 0"
| "nodes (Node y q l r) = Suc (nodes l + nodes r)"

fun zip_up :: "'p trie \<Rightarrow> 'p frame list \<Rightarrow> 'p trie" where
  "zip_up t [] = t"
| "zip_up t (InLeft y q r # fs) = zip_up (Node y q t r) fs"
| "zip_up t (InRight y q l # fs) = zip_up (Node y q l t) fs"

subsection \<open>Insertion\<close>

definition mid_addr :: "ipnet \<Rightarrow> ipv4 res" where
  "mid_addr x = res_map (\<lambda>m. ipv4_or (masked_addr x) (ipv4_shiftr (ipv4_not m) 1)) (netmask x)"

fun trie_insert :: "ipnet \<Rightarrow> 'p \<Rightarrow> 'p trie \<Rightarrow> ('p trie \<times> bool) res" where
  "trie_insert x p Null = Inr (Node x (Some p) Null Null, False)"
| "trie_insert x p (Node y q l r) =
     (if x = y then Inr (Node y (Some p) l r, q \<noteq> None)
      else
        res_bind (mid_addr x) (\<lambda>x_m.
        res_bind (mid_addr y) (\<lambda>y_m.
        res_bind (top_addr x) (\<lambda>x_h.
        res_bind (top_addr y) (\<lambda>y_h.
        let x_l = masked_addr x; y_l = masked_addr y in
        if x_h < y_l then
          res_map (\<lambda>c. (Node c None (Node x (Some p) Null Null) (Node y q l r), False)) (common_subnet x y)
        else if y_h < x_l then
          res_map (\<lambda>c. (Node c None (Node y q l r) (Node x (Some p) Null Null), False)) (common_subnet x y)
        else if x_l \<ge> y_l \<and> x_h \<le> y_m then
          res_map (\<lambda>(l', replaced). (Node y q l' r, replaced)) (trie_insert x p l)
        else if x_l > y_m \<and> x_h \<le> y_h then
          res_map (\<lambda>(r', replaced). (Node y q l r', replaced)) (trie_insert x p r)
        else if y_l > x_m \<and> y_h \<le> x_h then
          Inr (Node x (Some p) Null (Node y q l r), False)
        else if y_l \<ge> x_l \<and> y_h \<le> x_m then
          Inr (Node x (Some p) (Node y q l r) Null, False)
        else Inl Abort)))))"

subsection \<open>Erasing a node\<close>

fun frame_size :: "'p frame \<Rightarrow> nat" where
  "frame_size (InLeft y q r) = Suc (nodes r)"
| "frame_size (InRight y q l) = Suc (nodes l)"

function (sequential) erase_loop :: "'p trie \<Rightarrow> 'p frame list \<Rightarrow> 'p loc" where
  "erase_loop (Node y None l r) fs =
     (if l = Null \<or> r = Null then
        let child = (if l \<noteq> Null then l else r) in
        case fs of
          [] \<Rightarrow> erase_loop child []
        | InLeft y' q' r' # fs' \<Rightarrow> erase_loop (Node y' q' child r') fs'
        | InRight y' q' l' # fs' \<Rightarrow> erase_loop (Node y' q' l' child) fs'
      else (Node y None l r, fs))"
| "erase_loop me fs = (me, fs)"
  by pat_completeness auto
termination
  by (relation "measure (\<lambda>(t, fs). nodes t + sum_list (map frame_size fs))") auto

definition node_erase :: "'p loc \<Rightarrow> 'p trie" where
  "node_erase i = (case i of
     (Node y q l r, fs) \<Rightarrow> (case erase_loop (Node y None l r) fs of (me, fs') \<Rightarrow> zip_up me fs')
   | (Null, fs) \<Rightarrow> zip_up Null fs)"

subsection \<open>Searching\<close>

fun child_contains :: "'p trie \<Rightarrow> ipnet \<Rightarrow> bool res" where
  "child_contains Null key = Inr False"
| "child_contains (Node y q l r) key = ipnet_contains y key"

fun find_loop :: "ipnet \<Rightarrow> 'p trie \<Rightarrow> 'p frame list \<Rightarrow> 'p loc option \<Rightarrow> 'p loc option res" where
  "find_loop key Null fs cand = Inr cand"
| "find_loop key (Node y q l r) fs cand =
     res_bind (ipnet_contains y key) (\<lambda>c.
       if \<not> c then Inr cand
       else let cand' = (if q \<noteq> None then Some (Node y q l r, fs) else cand) in
         res_bind (child_contains l key) (\<lambda>cl.
           if cl then find_loop key l (InLeft y q r # fs) cand'
           else find_loop key r (InRight y q l # fs) cand'))"

definition node_find :: "ipnet \<Rightarrow> 'p trie \<Rightarrow> 'p loc option res" where
  "node_find key t = find_loop key t [] None"

fun child_within :: "ipnet \<Rightarrow> 'p trie \<Rightarrow> bool res" where
  "child_within key Null = Inr False"
| "child_within key (Node y q l r) = ipnet_contains key y"

fun find_subtree_loop :: "ipnet \<Rightarrow> 'p trie \<Rightarrow> 'p frame list \<Rightarrow> 'p loc option \<Rightarrow> 'p loc option res" where
  "find_subtree_loop key Null fs cand = Inr cand"
| "find_subtree_loop key (Node y q l r) fs cand =
     res_bind (ipnet_contains y key) (\<lambda>c.
       if \<not> c then Inr cand
       else res_bind (ipnet_contains key y) (\<lambda>c.
         if c then Inr (Some (Node y q l r, fs))
         else res_bind (child_contains l key) (\<lambda>c.
           if c then find_subtree_loop key l (InLeft y q r # fs) cand
           else res_bind (child_contains r key) (\<lambda>c.
             if c then find_subtree_loop key r (InRight y q l # fs) cand
             else res_bind (child_within key l) (\<lambda>c.
               if c then Inr (Some (l, InLeft y q r # fs))
               else res_bind (child_within key r) (\<lambda>c.
                 if c then Inr (Some (r, InRight y q l # fs)) else Inr cand))))))"

definition find_subtree :: "ipnet \<Rightarrow> 'p trie \<Rightarrow> 'p loc option res" where
  "find_subtree key t =
     res_bind (child_within key t) (\<lambda>c. find_subtree_loop key t [] (if c then Some (t, []) else None))"

subsection \<open>Iteration in postorder\<close>

fun leftmost :: "'p trie \<Rightarrow> 'p frame list \<Rightarrow> 'p loc" where
  "leftmost Null fs = (Null, fs)"
| "leftmost (Node y q l r) fs =
     (if l \<noteq> Null then leftmost l (InLeft y q r # fs)
      else if r \<noteq> Null then leftmost r (InRight y q l # fs)
      else (Node y q l r, fs))"

fun frame_todo :: "'p frame \<Rightarrow> nat" where
  "frame_todo (InLeft y q r) = Suc (nodes r)"
| "frame_todo (InRight y q l) = 1"

definition todo :: "'p frame list \<Rightarrow> nat" where
  "todo fs = sum_list (map frame_todo fs)"

lemma todo_leftmost: "t \<noteq> Null \<Longrightarrow> todo (snd (leftmost t fs)) < nodes t + todo fs"
  by (induction t fs rule: leftmost.induct) (auto simp: todo_def)

fun parent_step :: "'p trie \<Rightarrow> 'p frame \<Rightarrow> 'p frame list \<Rightarrow> 'p loc" where
  "parent_step t (InLeft y q r) fs =
     (if r \<noteq> Null then leftmost r (InRight y q t # fs) else (Node y q t r, fs))"
| "parent_step t (InRight y q l) fs = (Node y q l t, fs)"

lemma todo_parent_step: "todo (snd (parent_step t f fs)) < todo (f # fs)"
proof (cases f)
  case (InLeft y q r)
  then show ?thesis using todo_leftmost [of r "InRight y q t # fs"] by (auto simp: todo_def)
qed (simp add: todo_def)

function post_next :: "ipnet \<Rightarrow> 'p trie \<Rightarrow> 'p frame list \<Rightarrow> 'p loc option res" where
  "post_next root t [] = Inr None"
| "post_next root t (f # fs) =
     (let n = parent_step t f fs in
      res_bind (ipnet_contains root (k (fst n))) (\<lambda>c.
        if \<not> c then Inr None
        else if payload (fst n) = None then post_next root (fst n) (snd n)
        else Inr (Some n)))"
  by pat_completeness auto
termination
  by (relation "measure (\<lambda>(root, t, fs). todo fs)") (auto simp: split_beta todo_parent_step)

function post_begin_top :: "ipnet \<Rightarrow> 'p trie \<Rightarrow> 'p frame list \<Rightarrow> 'p loc res" where
  "post_begin_top root t [] = Inr (t, [])"
| "post_begin_top root t (InLeft y q r # fs) =
     res_bind (ipnet_contains root y) (\<lambda>c.
       if c then post_begin_top root (Node y q t r) fs else Inr (t, InLeft y q r # fs))"
| "post_begin_top root t (InRight y q l # fs) =
     res_bind (ipnet_contains root y) (\<lambda>c.
       if c then post_begin_top root (Node y q l t) fs else Inr (t, InRight y q l # fs))"
  by pat_completeness auto
termination
  by (relation "measure (\<lambda>(root, t, fs). length fs)") auto

definition post_begin :: "ipnet \<Rightarrow> 'p loc \<Rightarrow> 'p loc res" where
  "post_begin root i = res_map (\<lambda>(n, fs). leftmost n fs) (post_begin_top root (fst i) (snd i))"

record 'p post_iter =
  cur :: "'p loc option"
  iroot :: ipnet

definition exact_iter :: "'p loc option \<Rightarrow> 'p post_iter" where
  "exact_iter n = \<lparr> cur = n, iroot = (case n of Some (Node y q l r, fs) \<Rightarrow> y | _ \<Rightarrow> ipnet_default) \<rparr>"

definition subtree_iter :: "'p loc option \<Rightarrow> ipnet \<Rightarrow> 'p post_iter res" where
  "subtree_iter n key = (case n of
     None \<Rightarrow> Inr \<lparr> cur = None, iroot = key \<rparr>
   | Some i \<Rightarrow> res_map (\<lambda>i'. \<lparr> cur = Some i', iroot = key \<rparr>) (post_begin key i))"

definition iter_next :: "'p post_iter \<Rightarrow> 'p post_iter res" where
  "iter_next it = (case cur it of
     None \<Rightarrow> Inl OutOfBounds
   | Some (n, fs) \<Rightarrow> res_map (\<lambda>i. it \<lparr> cur := i \<rparr>) (post_next (iroot it) n fs))"

text \<open>The iterator that visits a node before its children keeps the nodes still to be visited on a stack.\<close>

function pre_next_loop :: "'p trie list \<Rightarrow> ('p trie \<times> 'p trie list) res" where
  "pre_next_loop [] = Inl OutOfBounds"
| "pre_next_loop (Null # st) = Inl OutOfBounds"
| "pre_next_loop (Node y q l r # st) =
     (let st' = (if l \<noteq> Null then [l] else []) @ (if r \<noteq> Null then [r] else []) @ st in
      if q = None then pre_next_loop st' else Inr (Node y q l r, st'))"
  by pat_completeness auto
termination
  by (relation "measure (\<lambda>st. sum_list (map nodes st))") auto

definition pre_next :: "'p trie list \<Rightarrow> ('p trie option \<times> 'p trie list) res" where
  "pre_next st = (if st = [] then Inr (None, []) else res_map (\<lambda>(n, st'). (Some n, st')) (pre_next_loop st))"

subsection \<open>Bounds of a route\<close>

fun low :: "'p trie \<Rightarrow> ipv4" where
  "low Null = ipv4_ZERO"
| "low (Node y q l r) =
     (if q = None \<and> (l \<noteq> Null \<or> r \<noteq> Null) then (if l \<noteq> Null then low l else low r) else masked_addr y)"

fun high :: "'p trie \<Rightarrow> ipv4 res" where
  "high Null = Inl OutOfBounds"
| "high (Node y q l r) =
     (if q = None \<and> (l \<noteq> Null \<or> r \<noteq> Null) then (if r \<noteq> Null then high r else high l) else top_addr y)"

text \<open>
  The loop of \<open>find_bounds\<close> stops when the node does not change; each iteration that changes the node
  descends to a child.
\<close>

fun bounds_loop :: "ipv4 \<Rightarrow> 'p trie \<Rightarrow> ipv4 \<Rightarrow> ipv4 \<Rightarrow> (ipv4 \<times> ipv4) res" where
  "bounds_loop a Null lo hi = Inr (lo, hi)"
| "bounds_loop a (Node y q l r) lo hi =
     (let x = (if l \<noteq> Null then l else r) in
      if x = Null then Inr (lo, hi)
      else if a < masked_addr (k x) then Inr (lo, ipv4_dec (low x))
      else res_bind (top_addr (k x)) (\<lambda>x_top.
        if a \<le> x_top then (if l \<noteq> Null then bounds_loop a l lo hi else bounds_loop a r lo hi)
        else if l = Null \<or> r = Null then res_map (\<lambda>h. (ipv4_inc h, hi)) (high x)
        else if a < masked_addr (k r) then res_map (\<lambda>h. (ipv4_inc h, ipv4_dec (low r))) (high x)
        else res_bind (top_addr (k r)) (\<lambda>r_top.
          if a \<le> r_top then res_bind (top_addr (k l)) (\<lambda>l_top.
            if l \<noteq> Null \<and> a > l_top then res_bind (high l) (\<lambda>h. bounds_loop a r (ipv4_inc h) hi)
            else bounds_loop a r lo hi)
          else res_map (\<lambda>h. (ipv4_inc h, hi)) (high r))))"

definition node_find_bounds :: "ipv4 \<Rightarrow> 'p trie \<Rightarrow> (ipv4 \<times> ipv4) res" where
  "node_find_bounds a t =
     res_bind (mk_ipnet a 32) (\<lambda>key.
     res_bind (node_find key t) (\<lambda>found.
       let n = (case found of Some (n, fs) \<Rightarrow> n | None \<Rightarrow> Node ipnet_default None t Null) in
       res_bind (top_addr (k n)) (\<lambda>hi. bounds_loop a n (masked_addr (k n)) hi)))"

subsection \<open>Lower bound\<close>

fun lower_bound_loop :: "ipnet \<Rightarrow> 'p trie \<Rightarrow> 'p frame list \<Rightarrow> 'p loc option \<Rightarrow> 'p loc option res" where
  "lower_bound_loop key Null fs cand = Inr cand"
| "lower_bound_loop key (Node y q l r) fs cand =
     res_bind (ipnet_contains y key) (\<lambda>c.
       if \<not> c then Inr cand
       else res_bind (child_contains l key) (\<lambda>cl.
         if cl then lower_bound_loop key l (InLeft y q r # fs) (Some (Node y q l r, fs))
         else lower_bound_loop key r (InRight y q l # fs) (Some (Node y q l r, fs))))"

fun key_less_root :: "ipnet \<Rightarrow> 'p trie \<Rightarrow> bool res" where
  "key_less_root key Null = Inr False"
| "key_less_root key (Node y q l r) = ipnet_less key y"

function lower_bound_up :: "ipnet \<Rightarrow> 'p trie \<Rightarrow> 'p frame list \<Rightarrow> 'p loc option res" where
  "lower_bound_up key Null fs = Inr None"
| "lower_bound_up key (Node y q l r) fs =
     res_bind (key_less_root key l) (\<lambda>c.
       if c then Inr (Some (leftmost l (InLeft y q r # fs)))
       else res_bind (key_less_root key r) (\<lambda>c.
         if c then Inr (Some (leftmost r (InRight y q l # fs)))
         else (case fs of
            [] \<Rightarrow> Inr None
          | InLeft y' q' r' # fs' \<Rightarrow> lower_bound_up key (Node y' q' (Node y q l r) r') fs'
          | InRight y' q' l' # fs' \<Rightarrow> lower_bound_up key (Node y' q' l' (Node y q l r)) fs')))"
  by pat_completeness auto
termination
  by (relation "measure (\<lambda>(key, t, fs). length fs)") auto

definition node_lower_bound :: "ipnet \<Rightarrow> 'p trie \<Rightarrow> 'p loc option res" where
  "node_lower_bound key t =
     res_bind (lower_bound_loop key t [] None) (\<lambda>c.
       let cand = (case c of None \<Rightarrow> (t, []) | Some i \<Rightarrow> i) in
       (case cand of
          (Null, fs) \<Rightarrow> Inl OutOfBounds
        | (Node y q l r, fs) \<Rightarrow>
            if y = key then
              (if q \<noteq> None then Inr (Some cand)
               else res_bind (subtree_iter (Some cand) ipnet_default) (\<lambda>it. res_map cur (iter_next it)))
            else lower_bound_up key (Node y q l r) fs))"

subsection \<open>The trie\<close>

record 'p Trie =
  root :: "'p trie"
  payload_count :: nat

definition Trie_empty :: "'p Trie" where
  "Trie_empty = \<lparr> root = Null, payload_count = 0 \<rparr>"

definition Trie_insert :: "'p Trie \<Rightarrow> ipnet \<Rightarrow> 'p \<Rightarrow> 'p Trie res" where
  "Trie_insert T net p =
     res_map (\<lambda>(t, replaced). \<lparr> root = t, payload_count = (if \<not> replaced then payload_count T + 1 else payload_count T) \<rparr>)
       (trie_insert net p (root T))"

definition Trie_find :: "'p Trie \<Rightarrow> ipnet \<Rightarrow> 'p post_iter res" where
  "Trie_find T key =
     (if root T \<noteq> Null then res_map exact_iter (node_find key (root T)) else Inr (exact_iter None))"

definition Trie_find_addr :: "'p Trie \<Rightarrow> ipv4 \<Rightarrow> 'p post_iter res" where
  "Trie_find_addr T a = res_bind (mk_ipnet a 32) (Trie_find T)"

definition Trie_erase_iter :: "'p Trie \<Rightarrow> 'p post_iter \<Rightarrow> 'p Trie" where
  "Trie_erase_iter T i = (case cur i of
     Some n \<Rightarrow> if root T \<noteq> Null \<and> payload (fst n) \<noteq> None
               then \<lparr> root = node_erase n, payload_count = payload_count T - 1 \<rparr> else T
   | None \<Rightarrow> T)"

definition Trie_erase :: "'p Trie \<Rightarrow> ipnet \<Rightarrow> 'p Trie res" where
  "Trie_erase T key = res_map (Trie_erase_iter T) (Trie_find T key)"

definition Trie_lookup_node :: "'p Trie \<Rightarrow> ipnet \<Rightarrow> 'p post_iter res" where
  "Trie_lookup_node T key =
     res_map (\<lambda>n. case n of
         Some (Node y q l r, fs) \<Rightarrow> if y = key then exact_iter n else exact_iter None
       | _ \<Rightarrow> exact_iter None)
       (if root T \<noteq> Null then node_find key (root T) else Inr None)"

definition Trie_search_subtree :: "'p Trie \<Rightarrow> ipnet \<Rightarrow> 'p post_iter res" where
  "Trie_search_subtree T key =
     (if root T \<noteq> Null then res_bind (find_subtree key (root T)) (\<lambda>n. subtree_iter n key)
      else Inr (exact_iter None))"

definition Trie_find_less_specific :: "'p Trie \<Rightarrow> ipnet \<Rightarrow> 'p post_iter res" where
  "Trie_find_less_specific T key =
     (if prefix_len key = 0 then Inr (exact_iter None)
      else res_bind (mk_ipnet (masked_addr key) (prefix_len key - 1)) (\<lambda>x.
        if root T \<noteq> Null then res_map exact_iter (node_find x (root T)) else Inr (exact_iter None)))"

definition Trie_begin :: "'p Trie \<Rightarrow> 'p post_iter res" where
  "Trie_begin T = subtree_iter (if root T = Null then None else Some (root T, [])) ipnet_default"

definition Trie_lower_bound :: "'p Trie \<Rightarrow> ipnet \<Rightarrow> 'p post_iter res" where
  "Trie_lower_bound T key = res_map exact_iter (node_lower_bound key (root T))"

definition Trie_find_bounds :: "'p Trie \<Rightarrow> ipv4 \<Rightarrow> (ipv4 \<times> ipv4) res" where
  "Trie_find_bounds T a = (if root T = Null then Inl OutOfBounds else node_find_bounds a (root T))"

definition Trie_delete_all_nodes :: "'p Trie \<Rightarrow> 'p Trie" where
  "Trie_delete_all_nodes T = \<lparr> root = Null, payload_count = 0 \<rparr>"

definition Trie_size :: "'p Trie \<Rightarrow> nat" where "Trie_size T = payload_count T"
definition Trie_is_empty :: "'p Trie \<Rightarrow> bool" where "Trie_is_empty T \<longleftrightarrow> payload_count T = 0"

subsection \<open>Halves of a prefix\<close>

definition left_half :: "ipnet \<Rightarrow> ipnet" where
  "left_half y = net_of (net_lo y) (Suc (plen y))"

definition right_half :: "ipnet \<Rightarrow> ipnet" where
  "right_half y = net_of (net_lo y + net_width y div 2) (Suc (plen y))"

definition in_left :: "ipnet \<Rightarrow> ipnet \<Rightarrow> bool" where
  "in_left x y \<longleftrightarrow> plen y < 32 \<and> net_block x \<subseteq> net_block (left_half y)"

definition in_right :: "ipnet \<Rightarrow> ipnet \<Rightarrow> bool" where
  "in_right x y \<longleftrightarrow> plen y < 32 \<and> net_block x \<subseteq> net_block (right_half y)"

lemma half_width: "plen y < 32 \<Longrightarrow> net_width y = 2 * 2 ^ (31 - plen y)"
  by (simp add: net_width_def flip: power_Suc)

lemma halves:
  assumes "wf_net y" "plen y < 32"
  shows "wf_net (left_half y)" "wf_net (right_half y)"
    "plen (left_half y) = Suc (plen y)" "plen (right_half y) = Suc (plen y)"
    "net_lo (left_half y) = net_lo y" "net_lo (right_half y) = net_lo y + net_width y div 2"
    "net_width (left_half y) = net_width y div 2" "net_width (right_half y) = net_width y div 2"
proof -
  have w: "net_width y = 2 * 2 ^ (31 - plen y)" using assms(2) by (rule half_width)
  have top: "net_lo y + net_width y div 2 < 4294967296"
    using net_block_top [OF assms(1)] net_width_pos(1) [of y] w by linarith
  show "wf_net (left_half y)" "wf_net (right_half y)"
    "plen (left_half y) = Suc (plen y)" "plen (right_half y) = Suc (plen y)"
    "net_width (left_half y) = net_width y div 2" "net_width (right_half y) = net_width y div 2"
    using assms(2) top w by (simp_all add: left_half_def right_half_def)
  have "2 ^ (31 - plen y) dvd net_lo y" using wf_net_dvd [OF assms(1)] w by (metis dvd_mult_right)
  then show "net_lo (left_half y) = net_lo y" "net_lo (right_half y) = net_lo y + net_width y div 2"
    using assms(2) top w by (simp_all add: left_half_def right_half_def)
qed

lemma half_blocks:
  assumes "wf_net y" "plen y < 32"
  shows "net_block (left_half y) \<union> net_block (right_half y) = net_block y"
    "net_block (left_half y) \<inter> net_block (right_half y) = {}"
    "net_block (left_half y) \<subset> net_block y" "net_block (right_half y) \<subset> net_block y"
proof -
  have w: "net_width y = 2 * (net_width y div 2)" "0 < net_width y div 2"
    using half_width [OF assms(2)] by simp_all
  show u: "net_block (left_half y) \<union> net_block (right_half y) = net_block y"
    using w by (auto simp: net_block_def halves [OF assms])
  show d: "net_block (left_half y) \<inter> net_block (right_half y) = {}"
    by (auto simp: net_block_def halves [OF assms])
  from u d show "net_block (left_half y) \<subset> net_block y" "net_block (right_half y) \<subset> net_block y"
    using net_block_not_empty by blast+
qed

lemma in_left_subset: "wf_net y \<Longrightarrow> in_left x y \<Longrightarrow> net_block x \<subset> net_block y"
  using half_blocks(3) [of y] by (auto simp: in_left_def)

lemma in_right_subset: "wf_net y \<Longrightarrow> in_right x y \<Longrightarrow> net_block x \<subset> net_block y"
  using half_blocks(4) [of y] by (auto simp: in_right_def)

lemma in_left_right_disjoint:
  "wf_net y \<Longrightarrow> in_left x y \<Longrightarrow> in_right x' y \<Longrightarrow> net_block x \<inter> net_block x' = {}"
  using half_blocks(2) [of y] by (auto simp: in_left_def in_right_def)

lemma in_halves_exclusive: "wf_net y \<Longrightarrow> in_left x y \<Longrightarrow> \<not> in_right x y"
  using in_left_right_disjoint [of y x x] net_block_not_empty [of x] by auto

lemma strict_subnet_half:
  assumes "wf_net x" "wf_net y" "net_block x \<subset> net_block y"
  shows "in_left x y \<or> in_right x y"
proof -
  have "plen y \<le> plen x" using assms by (auto simp: psubset_eq net_subset_iff)
  moreover have "plen y \<noteq> plen x"
  proof
    assume "plen y = plen x"
    then have "net_block y \<subseteq> net_block x \<or> net_block x \<inter> net_block y = {}"
      using net_nested_or_disjoint [OF assms(1,2)] by simp
    moreover have "net_lo x \<in> net_block x \<inter> net_block y" using assms(3) net_lo_in_block [of x] by blast
    ultimately have "net_block y \<subseteq> net_block x" by blast
    with assms(3) show False by blast
  qed
  ultimately have p: "plen y < 32" "Suc (plen y) \<le> plen x" using assms(1) by (auto simp: wf_net_def)
  have "net_lo x \<in> net_block (left_half y) \<or> net_lo x \<in> net_block (right_half y)"
    using half_blocks(1) [OF assms(2) p(1)] assms(3) net_lo_in_block by blast
  then show ?thesis
    using p assms halves [OF assms(2) p(1)] by (auto simp: in_left_def in_right_def net_subset_iff)
qed

text \<open>The position of two different prefixes: the six cases of \<open>TrieNode::insert\<close>.\<close>

lemma net_position:
  assumes "wf_net x" "wf_net y" "x \<noteq> y"
  obtains (before) "net_hi x < net_lo y" | (after) "net_hi y < net_lo x"
    | (left_of) "in_left x y" | (right_of) "in_right x y" | (has_right) "in_right y x" | (has_left) "in_left y x"
proof -
  have ne: "net_block x \<noteq> net_block y" using assms by (simp add: net_block_eq_iff)
  consider "net_block x \<subset> net_block y" | "net_block y \<subset> net_block x" | "net_block x \<inter> net_block y = {}"
    using net_nested_or_disjoint [of x y] net_nested_or_disjoint [of y x] assms(1,2) ne
    by (metis Int_commute linear psubsetI)
  then show ?thesis
  proof cases
    case 1
    then show ?thesis using strict_subnet_half [of x y] assms that by blast
  next
    case 2
    then show ?thesis using strict_subnet_half [of y x] assms that by blast
  next
    case 3
    then have "net_lo x + net_width x \<le> net_lo y \<or> net_lo y + net_width y \<le> net_lo x"
      by (auto simp: net_block_def)
    then have "net_hi x < net_lo y \<or> net_hi y < net_lo x"
      unfolding net_hi_def using net_width_pos(1) [of x] net_width_pos(1) [of y] by linarith
    then show ?thesis using that by blast
  qed
qed

definition net_mid :: "ipnet \<Rightarrow> nat" where
  "net_mid y = net_lo y + 2 ^ (31 - plen y) - 1"

lemma net_hi_less: "wf_net n \<Longrightarrow> net_hi n < 4294967296"
  using net_block_top [of n] net_width_pos(1) [of n] unfolding net_hi_def by linarith

lemma net_lo_le_hi: "net_lo n \<le> net_hi n"
  using net_width_pos(1) [of n] unfolding net_hi_def by linarith

lemma half_power_le: "(2::nat) ^ (31 - plen n) \<le> net_width n"
  unfolding net_width_def by (rule power_increasing) simp_all

lemma net_mid_le_hi: "net_mid n \<le> net_hi n"
  unfolding net_mid_def net_hi_def using half_power_le [of n] by linarith

lemma mid_addr_ok: "wf_net n \<Longrightarrow> mid_addr n = Inr (of_hval (net_mid n))"
proof -
  assume n: "wf_net n"
  let ?v = "ntohl (addr (masked_addr n))"
  have sh: "drop_bit 1 (mask (32 - plen n) :: u32) = mask (31 - plen n)"
    by (rule bit_word_eqI) (auto simp: bit_drop_bit_eq bit_mask_iff)
  have "2 ^ (31 - plen n) dvd net_width n" by (simp add: net_width_def le_imp_power_dvd)
  then have "2 ^ (31 - plen n) dvd unat ?v"
    using wf_net_dvd [OF n] by (simp add: net_lo_def hval_def dvd_trans)
  moreover have "unat ?v + 2 ^ (31 - plen n) \<le> 4294967296"
    using net_block_top [OF n] half_power_le [of n] unfolding net_lo_def hval_def by linarith
  ultimately have "unat (?v OR mask (31 - plen n)) = net_mid n"
    by (subst or_mask_aligned) (simp_all add: net_lo_def hval_def net_mid_def)
  moreover have "ntohl (addr (ipv4_shiftr (ipv4_not (IPv4 (htonl (hi_mask (plen n))))) 1)) = mask (31 - plen n)"
    using n sh by (simp only: ipv4_shiftr_def ipv4_not_def ipv4.sel bswap32_not bswap32_bswap32 not_hi_mask wf_net_plen)
      (simp add: word_le_nat_alt)
  ultimately have "hval (ipv4_or (masked_addr n) (ipv4_shiftr (ipv4_not (IPv4 (htonl (hi_mask (plen n))))) 1)) = net_mid n"
    by (simp only: hval_def ipv4_or_def ipv4.sel bswap32_or)
  then show ?thesis
    using n by (simp add: mid_addr_def netmask_def make_prefix_ok) (metis of_hval_hval)
qed

lemma in_left_bounds:
  assumes "wf_net x" "wf_net y" "x \<noteq> y"
  shows "net_lo y \<le> net_lo x \<and> net_hi x \<le> net_mid y \<longleftrightarrow> in_left x y"
proof (cases "plen y < 32")
  case True
  have w: "net_width y div 2 = 2 ^ (31 - plen y)" using half_width [OF True] by simp
  have pos: "(0::nat) < 2 ^ (31 - plen y)" by simp
  have "net_hi x \<le> net_mid y \<longleftrightarrow> net_lo x + net_width x \<le> net_lo y + 2 ^ (31 - plen y)"
    unfolding net_mid_def net_hi_def using pos net_width_pos(1) [of x] by linarith
  then show ?thesis
    unfolding in_left_def net_subset_bounds halves [OF assms(2) True] w using True by auto
next
  case False
  then have y: "plen y = 32" using wf_net_plen [OF assms(2)] by linarith
  have "x = y" if "net_lo y \<le> net_lo x \<and> net_hi x \<le> net_mid y"
  proof -
    have "net_lo y \<le> net_lo x" "net_lo x + net_width x - 1 \<le> net_lo y"
      using that by (simp_all add: net_mid_def net_hi_def y)
    then have "net_lo x = net_lo y \<and> net_width x = 1"
      using net_width_pos(1) [of x] by linarith
    then show ?thesis
      using y wf_net_plen [OF assms(1)] by (intro ipnet_eqI) (simp_all add: net_width_def)
  qed
  with assms(3) False show ?thesis by (auto simp: in_left_def)
qed

lemma in_right_bounds:
  assumes "wf_net x" "wf_net y" "x \<noteq> y"
  shows "net_mid y < net_lo x \<and> net_hi x \<le> net_hi y \<longleftrightarrow> in_right x y"
proof (cases "plen y < 32")
  case True
  have w: "net_width y div 2 = 2 ^ (31 - plen y)" "net_width y = 2 * 2 ^ (31 - plen y)"
    using half_width [OF True] by simp_all
  have pos: "(0::nat) < 2 ^ (31 - plen y)" by simp
  have "net_mid y < net_lo x \<longleftrightarrow> net_lo y + 2 ^ (31 - plen y) \<le> net_lo x"
    unfolding net_mid_def using pos by linarith
  moreover have "net_hi x \<le> net_hi y \<longleftrightarrow> net_lo x + net_width x \<le> net_lo y + 2 ^ (31 - plen y) + 2 ^ (31 - plen y)"
    unfolding net_hi_def w(2) using pos net_width_pos(1) [of x] by linarith
  ultimately show ?thesis
    unfolding in_right_def net_subset_bounds halves [OF assms(2) True] w(1) using True by auto
next
  case False
  then have "plen y = 32" using wf_net_plen [OF assms(2)] by linarith
  then have "net_hi y = net_mid y" by (simp add: net_hi_def net_mid_def net_width_def)
  then have "\<not> (net_mid y < net_lo x \<and> net_hi x \<le> net_hi y)" using net_lo_le_hi [of x] by linarith
  with False show ?thesis by (auto simp: in_right_def)
qed

lemma common_halves:
  assumes "wf_net x" "wf_net y" "net_hi x < net_lo y"
    and "wf_net z" "net_block x \<subseteq> net_block z" "net_block y \<subseteq> net_block z"
    and least: "\<And>w. wf_net w \<Longrightarrow> net_block x \<subseteq> net_block w \<Longrightarrow> net_block y \<subseteq> net_block w \<Longrightarrow> net_block z \<subseteq> net_block w"
  shows "in_left x z" "in_right y z"
proof -
  have dis: "net_block x \<inter> net_block y = {}"
    using assms(3) net_width_pos(1) [of x] by (auto simp: net_block_def net_hi_def)
  have ne: "net_block x \<noteq> {}" "net_block y \<noteq> {}" by simp_all
  then have "net_block x \<subset> net_block z" "net_block y \<subset> net_block z" using dis assms(5,6) by blast+
  then have xy: "in_left x z \<or> in_right x z" "in_left y z \<or> in_right y z"
    using assms(1,2,4) strict_subnet_half by blast+
  then have p: "plen z < 32" by (auto simp: in_left_def in_right_def)
  note h = halves [OF assms(4) p] half_blocks [OF assms(4) p]
  have "\<not> (in_left x z \<and> in_left y z)" using least [OF h(1)] h(11) by (auto simp: in_left_def)
  moreover have "\<not> (in_right x z \<and> in_right y z)" using least [OF h(2)] h(12) by (auto simp: in_right_def)
  moreover have "\<not> (in_right x z \<and> in_left y z)"
  proof
    assume "in_right x z \<and> in_left y z"
    then have "net_lo z + net_width z div 2 \<le> net_lo x" "net_lo y < net_lo z + net_width z div 2"
      using net_width_pos(1) [of y] unfolding in_right_def in_left_def net_subset_bounds h by linarith+
    with assms(3) net_lo_le_hi [of x] show False by linarith
  qed
  ultimately show "in_left x z" "in_right y z" using xy by blast+
qed

subsection \<open>The invariant\<close>

primrec keys :: "'p trie \<Rightarrow> ipnet set" where
  "keys Null = {}"
| "keys (Node y q l r) = insert y (keys l \<union> keys r)"

primrec trie_ok :: "'p trie \<Rightarrow> bool" where
  "trie_ok Null \<longleftrightarrow> True"
| "trie_ok (Node y q l r) \<longleftrightarrow>
     wf_net y \<and> (q = None \<longrightarrow> l \<noteq> Null \<and> r \<noteq> Null) \<and> trie_ok l \<and> trie_ok r \<and>
     (\<forall>x \<in> keys l. in_left x y) \<and> (\<forall>x \<in> keys r. in_right x y)"

primrec postorder :: "'p trie \<Rightarrow> (ipnet \<times> 'p) list" where
  "postorder Null = []"
| "postorder (Node y q l r) = postorder l @ postorder r @ (case q of None \<Rightarrow> [] | Some p \<Rightarrow> [(y, p)])"

definition entries :: "'p trie \<Rightarrow> ipnet \<rightharpoonup> 'p" where
  "entries t = map_of (postorder t)"

lemma trie_ok_keys_wf: "trie_ok t \<Longrightarrow> x \<in> keys t \<Longrightarrow> wf_net x"
  by (induction t) auto

lemma postorder_keys: "fst ` set (postorder t) \<subseteq> keys t"
  by (induction t) (auto split: option.splits)

lemma entries_keys: "entries t x = Some p \<Longrightarrow> x \<in> keys t"
  using postorder_keys [of t] by (auto simp: entries_def dest!: map_of_SomeD)

lemma entries_None: "x \<notin> keys t \<Longrightarrow> entries t x = None"
  using entries_keys [of t x] by (cases "entries t x") auto

lemma entries_Null [simp]: "entries Null = Map.empty"
  by (simp add: entries_def)

lemma entries_Node_raw:
  "entries (Node y q l r) x = (if x = y \<and> q \<noteq> None \<and> entries l x = None \<and> entries r x = None then q
     else case entries l x of Some p \<Rightarrow> Some p | None \<Rightarrow> entries r x)"
  by (auto simp: entries_def map_of_append map_add_def split: option.splits)

lemma entries_Node:
  assumes "trie_ok (Node y q l r)"
  shows "entries (Node y q l r) x =
    (if x = y then q else if in_left x y then entries l x else if in_right x y then entries r x else None)"
proof -
  have y: "wf_net y" using assms by simp
  have l: "entries l x = None" if "\<not> in_left x y" for x using that assms by (intro entries_None) auto
  have r: "entries r x = None" if "\<not> in_right x y" for x using that assms by (intro entries_None) auto
  have "\<not> in_left y y" "\<not> in_right y y" using in_left_subset [OF y] in_right_subset [OF y] by blast+
  then show ?thesis
    using l [of x] r [of x] l [of y] r [of y] in_halves_exclusive [OF y, of x]
    by (cases "in_left x y"; cases "in_right x y") (auto simp: entries_Node_raw split: option.splits)
qed

subsection \<open>Insertion keeps the invariant and updates the entries\<close>

definition common :: "ipnet \<Rightarrow> ipnet \<Rightarrow> ipnet" where
  "common x y = net_of (net_lo x) (unat (ipnet_overlap x y))"

lemma trie_insert_Node:
  assumes "wf_net x" "wf_net y" "x \<noteq> y"
  shows "trie_insert x p (Node y q l r) =
    (if net_hi x < net_lo y then Inr (Node (common x y) None (Node x (Some p) Null Null) (Node y q l r), False)
     else if net_hi y < net_lo x then Inr (Node (common x y) None (Node y q l r) (Node x (Some p) Null Null), False)
     else if in_left x y then res_map (\<lambda>(l', replaced). (Node y q l' r, replaced)) (trie_insert x p l)
     else if in_right x y then res_map (\<lambda>(r', replaced). (Node y q l r', replaced)) (trie_insert x p r)
     else if in_right y x then Inr (Node x (Some p) Null (Node y q l r), False)
     else Inr (Node x (Some p) (Node y q l r) Null, False))"
proof -
  have lt: "net_hi n < 4294967296" "net_mid n < 4294967296" if "wf_net n" for n
    using that net_hi_less [of n] net_mid_le_hi [of n] by linarith+
  have l: "masked_addr n = of_hval (net_lo n)" for n by (simp add: net_lo_def)
  have cmp: "of_hval a < of_hval b \<longleftrightarrow> a < b" "of_hval a \<le> of_hval b \<longleftrightarrow> a \<le> b"
    if "a < 4294967296" "b < 4294967296" for a b
    using that by (simp_all add: less_ipv4_iff less_eq_ipv4_iff)
  have F: "in_left y x" if "\<not> net_hi x < net_lo y" "\<not> net_hi y < net_lo x" "\<not> in_left x y" "\<not> in_right x y" "\<not> in_right y x"
    by (rule net_position [OF assms]) (use that in blast)+
  show ?thesis
    using assms(3) F lt [OF assms(1)] lt [OF assms(2)]
    by (simp add: mid_addr_ok [OF assms(1)] mid_addr_ok [OF assms(2)] top_addr_ok [OF assms(1)] top_addr_ok [OF assms(2)]
        common_subnet_ok [OF assms(1,2)] l cmp common_def [symmetric] Let_def
        in_left_bounds [OF assms] in_right_bounds [OF assms]
        in_left_bounds [OF assms(2,1) assms(3) [symmetric]] in_right_bounds [OF assms(2,1) assms(3) [symmetric]])
qed

lemma keys_within_root:
  "trie_ok (Node y q l r) \<Longrightarrow> z \<in> keys (Node y q l r) \<Longrightarrow> net_block z \<subseteq> net_block y"
  using in_left_subset [of y z] in_right_subset [of y z] by auto

lemma in_half_mono:
  "net_block z \<subseteq> net_block x \<Longrightarrow> in_left x y \<Longrightarrow> in_left z y"
  "net_block z \<subseteq> net_block x \<Longrightarrow> in_right x y \<Longrightarrow> in_right z y"
  by (auto simp: in_left_def in_right_def)

lemma not_in_keys:
  assumes "trie_ok (Node y q l r)" "\<not> net_block x \<subseteq> net_block y"
  shows "x \<notin> keys (Node y q l r)"
  using keys_within_root [OF assms(1)] assms(2) by blast

lemmas common_facts = common_subnet_bound [folded common_def]

lemma common_in_halves:
  assumes "wf_net x" "wf_net y"
  shows "net_hi x < net_lo y \<Longrightarrow> in_left x (common x y) \<and> in_right y (common x y)"
    "net_hi y < net_lo x \<Longrightarrow> in_left y (common x y) \<and> in_right x (common x y)"
  using common_halves [OF assms _ common_facts [OF assms]] common_halves [OF assms(2,1) _ common_facts(1,3,2) [OF assms]]
    common_facts(4) [OF assms] by blast+

definition insert_spec :: "ipnet \<Rightarrow> 'p \<Rightarrow> 'p trie \<Rightarrow> 'p trie \<Rightarrow> bool \<Rightarrow> bool" where
  "insert_spec x p t t' b \<longleftrightarrow> trie_ok t' \<and> t' \<noteq> Null \<and>
     (\<forall>h. wf_net h \<and> (\<forall>z \<in> insert x (keys t). net_block z \<subseteq> net_block h) \<longrightarrow> (\<forall>z \<in> keys t'. net_block z \<subseteq> net_block h)) \<and>
     entries t' = (entries t)(x \<mapsto> p) \<and> b = (entries t x \<noteq> None)"

lemma insert_spec_new_root:
  assumes t: "trie_ok t" "t = Node y q l r" and x: "wf_net x"
  shows "net_hi x < net_lo y \<Longrightarrow> insert_spec x p t (Node (common x y) None (Node x (Some p) Null Null) t) False"
    "net_hi y < net_lo x \<Longrightarrow> insert_spec x p t (Node (common x y) None t (Node x (Some p) Null Null)) False"
    "in_right y x \<Longrightarrow> insert_spec x p t (Node x (Some p) Null t) False"
    "in_left y x \<Longrightarrow> insert_spec x p t (Node x (Some p) t Null) False"
proof -
  have y: "wf_net y" using t by simp
  have below: "net_block z \<subseteq> net_block y" if "z \<in> keys t" for z
    using that keys_within_root t by blast
  have top: "net_block c \<subseteq> net_block h" if "wf_net h" "\<forall>z \<in> insert x (keys t). net_block z \<subseteq> net_block h" "c = common x y" for c h
    using that common_facts(4) [OF x y] t(2) by simp
  have new: "entries t x = None" if "\<not> net_block x \<subseteq> net_block y"
    using that not_in_keys [of y q l r x] t by (intro entries_None) simp
  have leaf: "entries (Node x (Some p) Null Null) = [x \<mapsto> p]"
    by (rule ext) (simp add: entries_Node_raw)
  have dis: "\<not> net_block x \<subseteq> net_block y" if "net_hi x < net_lo y \<or> net_hi y < net_lo x"
    using that net_lo_le_hi [of x] net_width_pos(1) [of y] net_lo_in_block [of x]
    by (auto simp: net_block_def net_hi_def)
  have ne: "t \<noteq> Null" using t by simp
  have c: "wf_net (common x y)" by (rule common_facts(1) [OF x y])
  {
    assume hi: "net_hi x < net_lo y"
    note h = common_in_halves(1) [OF x y hi]
    then have "in_right z (common x y)" if "z \<in> keys t" for z using below [OF that] in_half_mono(2) by blast
    then have "trie_ok (Node (common x y) None (Node x (Some p) Null Null) t)" using h c x t(1) ne by simp
    then show "insert_spec x p t (Node (common x y) None (Node x (Some p) Null Null) t) False"
      using new dis hi top by (simp add: insert_spec_def fun_eq_iff entries_Node_raw [of "common x y"] leaf)
  next
    assume hi: "net_hi y < net_lo x"
    note h = common_in_halves(2) [OF x y hi]
    then have "in_left z (common x y)" if "z \<in> keys t" for z using below [OF that] in_half_mono(1) by blast
    then have "trie_ok (Node (common x y) None t (Node x (Some p) Null Null))" using h c x t(1) ne by simp
    then show "insert_spec x p t (Node (common x y) None t (Node x (Some p) Null Null)) False"
      using new dis hi top
      by (simp add: insert_spec_def fun_eq_iff entries_Node_raw [of "common x y"] leaf split: option.splits)
  next
    assume h: "in_right y x"
    then have "in_right z x" if "z \<in> keys t" for z using below [OF that] in_half_mono(2) by blast
    then have "trie_ok (Node x (Some p) Null t)" using x t(1) by simp
    moreover have "entries t x = None" using in_right_subset [OF x h] by (intro new) blast
    ultimately show "insert_spec x p t (Node x (Some p) Null t) False"
      by (simp add: insert_spec_def fun_eq_iff entries_Node_raw)
  next
    assume h: "in_left y x"
    then have "in_left z x" if "z \<in> keys t" for z using below [OF that] in_half_mono(1) by blast
    then have "trie_ok (Node x (Some p) t Null)" using x t(1) by simp
    moreover have "entries t x = None" using in_left_subset [OF x h] by (intro new) blast
    ultimately show "insert_spec x p t (Node x (Some p) t Null) False"
      by (simp add: insert_spec_def fun_eq_iff entries_Node_raw split: option.splits)
  }
qed

lemma insert_spec_replace:
  assumes "trie_ok (Node y q l r)"
  shows "insert_spec y p (Node y q l r) (Node y (Some p) l r) (q \<noteq> None)"
proof -
  have "trie_ok (Node y (Some p) l r)" using assms by simp
  then show ?thesis using assms by (auto simp: insert_spec_def fun_eq_iff entries_Node)
qed

lemma insert_spec_within:
  "insert_spec x p t t' b \<Longrightarrow> wf_net h \<Longrightarrow> \<forall>z \<in> insert x (keys t). net_block z \<subseteq> net_block h \<Longrightarrow>
    z \<in> keys t' \<Longrightarrow> net_block z \<subseteq> net_block h"
  unfolding insert_spec_def by blast

lemma insert_spec_ok:
  "insert_spec x p t t' b \<Longrightarrow> trie_ok t'" "insert_spec x p t t' b \<Longrightarrow> t' \<noteq> Null"
  "insert_spec x p t t' b \<Longrightarrow> entries t' = (entries t)(x \<mapsto> p)" "insert_spec x p t t' b \<Longrightarrow> b = (entries t x \<noteq> None)"
  unfolding insert_spec_def by blast+

lemma insert_specI:
  assumes "trie_ok t'" "t' \<noteq> Null" "\<And>z. entries t' z = ((entries t)(x \<mapsto> p)) z" "b = (entries t x \<noteq> None)"
    and "\<And>h z. wf_net h \<Longrightarrow> \<forall>z \<in> insert x (keys t). net_block z \<subseteq> net_block h \<Longrightarrow> z \<in> keys t' \<Longrightarrow> net_block z \<subseteq> net_block h"
  shows "insert_spec x p t t' b"
  unfolding insert_spec_def using assms by blast

lemma insert_spec_descend_left:
  assumes t: "trie_ok (Node y q l r)" and x: "in_left x y" and s: "insert_spec x p l l' b"
  shows "insert_spec x p (Node y q l r) (Node y q l' r) b"
proof -
  have y: "wf_net y" and p: "plen y < 32" using t x by (simp_all add: in_left_def)
  have "\<forall>z \<in> insert x (keys l). net_block z \<subseteq> net_block (left_half y)"
    using t x by (auto simp: in_left_def)
  from insert_spec_within [OF s halves(1) [OF y p] this]
  have t': "trie_ok (Node y q l' r)" using t insert_spec_ok(1,2) [OF s] p by (simp add: in_left_def)
  have ne: "x \<noteq> y" using in_left_subset [OF y x] by blast
  show ?thesis
  proof (rule insert_specI)
    show "entries (Node y q l' r) z = ((entries (Node y q l r))(x \<mapsto> p)) z" for z
      using ne x insert_spec_ok(3) [OF s] by (simp add: entries_Node [OF t] entries_Node [OF t'])
    show "b = (entries (Node y q l r) x \<noteq> None)"
      using ne x insert_spec_ok(4) [OF s] by (simp add: entries_Node [OF t])
    show "net_block z \<subseteq> net_block h"
      if "wf_net h" "\<forall>z \<in> insert x (keys (Node y q l r)). net_block z \<subseteq> net_block h" "z \<in> keys (Node y q l' r)" for h z
      using that insert_spec_within [OF s that(1), of z] by auto
  qed (use t' in simp_all)
qed

lemma insert_spec_descend_right:
  assumes t: "trie_ok (Node y q l r)" and x: "in_right x y" and s: "insert_spec x p r r' b"
  shows "insert_spec x p (Node y q l r) (Node y q l r') b"
proof -
  have y: "wf_net y" and p: "plen y < 32" using t x by (simp_all add: in_right_def)
  have "\<forall>z \<in> insert x (keys r). net_block z \<subseteq> net_block (right_half y)"
    using t x by (auto simp: in_right_def)
  from insert_spec_within [OF s halves(2) [OF y p] this]
  have t': "trie_ok (Node y q l r')" using t insert_spec_ok(1,2) [OF s] p by (simp add: in_right_def)
  have ne: "x \<noteq> y" "\<not> in_left x y" using in_right_subset [OF y x] in_halves_exclusive [OF y] x by blast+
  show ?thesis
  proof (rule insert_specI)
    show "entries (Node y q l r') z = ((entries (Node y q l r))(x \<mapsto> p)) z" for z
      using ne x insert_spec_ok(3) [OF s] by (simp add: entries_Node [OF t] entries_Node [OF t'])
    show "b = (entries (Node y q l r) x \<noteq> None)"
      using ne x insert_spec_ok(4) [OF s] by (simp add: entries_Node [OF t])
    show "net_block z \<subseteq> net_block h"
      if "wf_net h" "\<forall>z \<in> insert x (keys (Node y q l r)). net_block z \<subseteq> net_block h" "z \<in> keys (Node y q l r')" for h z
      using that insert_spec_within [OF s that(1), of z] by auto
  qed (use t' in simp_all)
qed

lemma trie_insert_ok:
  assumes "trie_ok t" "wf_net x"
  shows "\<exists>t' b. trie_insert x p t = Inr (t', b) \<and> insert_spec x p t t' b"
  using assms(1)
proof (induction t)
  case Null
  have "insert_spec x p Null (Node x (Some p) Null Null) False"
    using assms(2) by (simp add: insert_spec_def fun_eq_iff entries_Node_raw)
  then show ?case by auto
next
  case (Node y q l r)
  have y: "wf_net y" using Node.prems by simp
  obtain l' bl where l: "trie_insert x p l = Inr (l', bl)" "insert_spec x p l l' bl"
    using Node.IH(1) Node.prems by auto
  obtain r' br where r: "trie_insert x p r = Inr (r', br)" "insert_spec x p r r' br"
    using Node.IH(2) Node.prems by auto
  note new = insert_spec_new_root [OF Node.prems refl assms(2)]
  show ?case
  proof (cases "x = y")
    case True
    then show ?thesis using insert_spec_replace [OF Node.prems] by auto
  next
    case False
    note ins = trie_insert_Node [OF assms(2) y False, of p q l r]
    consider (A) "net_hi x < net_lo y" | (B) "\<not> net_hi x < net_lo y" "net_hi y < net_lo x"
      | (C) "\<not> net_hi x < net_lo y" "\<not> net_hi y < net_lo x" "in_left x y"
      | (D) "\<not> net_hi x < net_lo y" "\<not> net_hi y < net_lo x" "\<not> in_left x y" "in_right x y"
      | (E) "\<not> net_hi x < net_lo y" "\<not> net_hi y < net_lo x" "\<not> in_left x y" "\<not> in_right x y" "in_right y x"
      | (F) "\<not> net_hi x < net_lo y" "\<not> net_hi y < net_lo x" "\<not> in_left x y" "\<not> in_right x y" "\<not> in_right y x" "in_left y x"
      using net_position [OF assms(2) y False] by metis
    then show ?thesis
    proof cases
      case A
      then show ?thesis using new(1) ins by auto
    next
      case B
      then show ?thesis using new(2) ins by auto
    next
      case C
      then show ?thesis using insert_spec_descend_left [OF Node.prems C(3) l(2)] ins l(1) by simp
    next
      case D
      then show ?thesis using insert_spec_descend_right [OF Node.prems D(4) r(2)] ins r(1) by simp
    next
      case E
      then show ?thesis using new(3) ins by auto
    next
      case F
      then show ?thesis using new(4) ins by auto
    qed
  qed
qed

end
