(* ===== verification/Trie_Lookup.thy ===== *)
theory Trie_Lookup
  imports Route_Trie
begin

text \<open>
  Searching and erasing in the route trie: the loop of \<open>TrieNode::find\<close> returns the longest matching
  entry, \<open>lookup_node\<close> the exact one, and erasing a node removes its entry and the internal nodes that
  become useless.
\<close>

subsection \<open>Locations\<close>

lemma zip_up_append: "zip_up t (fs @ gs) = zip_up (zip_up t fs) gs"
  by (induction t fs rule: zip_up.induct) auto

lemma zip_up_Null_iff: "t \<noteq> Null \<Longrightarrow> zip_up t fs \<noteq> Null"
  by (induction t fs rule: zip_up.induct) auto

lemma zip_up_trie_ok: "trie_ok (zip_up t fs) \<Longrightarrow> trie_ok t"
  by (induction t fs rule: zip_up.induct) auto

lemma k_in_keys [simp]: "t \<noteq> Null \<Longrightarrow> k t \<in> keys t"
  by (cases t) auto

lemma keys_within_k: "trie_ok t \<Longrightarrow> z \<in> keys t \<Longrightarrow> net_block z \<subseteq> net_block (k t)"
proof (cases t)
  case (Node y q l r)
  then show "trie_ok t \<Longrightarrow> z \<in> keys t \<Longrightarrow> ?thesis" using keys_within_root [of y q l r z] by simp
qed simp

lemma entries_within: "trie_ok t \<Longrightarrow> entries t x \<noteq> None \<Longrightarrow> net_block x \<subseteq> net_block (k t)"
  using entries_keys [of t x] keys_within_k [of t x] by (cases "entries t x") simp_all

lemma not_in_both_halves:
  assumes "wf_net y" "in_left x y" "net_block z \<subseteq> net_block x"
  shows "\<not> in_right z y"
  using in_left_right_disjoint [OF assms(1,2), of z] assms(3) net_block_not_empty(1) [of z] by blast

lemma not_in_both_halves':
  assumes "wf_net y" "in_right x y" "net_block z \<subseteq> net_block x"
  shows "\<not> in_left z y"
  using in_left_right_disjoint [OF assms(1) _ assms(2), of z] assms(3) net_block_not_empty(1) [of z] by blast

text \<open>The entries inside the block of a node are those of its subtree.\<close>

lemma entries_child:
  assumes t: "trie_ok (Node y q l r)"
  shows "l \<noteq> Null \<Longrightarrow> net_block x \<subseteq> net_block (k l) \<Longrightarrow> entries (Node y q l r) x = entries l x"
    "r \<noteq> Null \<Longrightarrow> net_block x \<subseteq> net_block (k r) \<Longrightarrow> entries (Node y q l r) x = entries r x"
proof -
  have y: "wf_net y" using t by simp
  {
    assume "l \<noteq> Null" and x: "net_block x \<subseteq> net_block (k l)"
    then have l: "in_left (k l) y" using t by simp
    then have "in_left x y" using x in_half_mono(1) by blast
    moreover have "x \<noteq> y" using in_left_subset [OF y l] x by blast
    ultimately show "entries (Node y q l r) x = entries l x" by (simp add: entries_Node [OF t])
  next
    assume "r \<noteq> Null" and x: "net_block x \<subseteq> net_block (k r)"
    then have r: "in_right (k r) y" using t by simp
    then have "in_right x y" using x in_half_mono(2) by blast
    moreover have "x \<noteq> y" using in_right_subset [OF y r] x by blast
    moreover have "\<not> in_left x y" using not_in_both_halves' [OF y r x] .
    ultimately show "entries (Node y q l r) x = entries r x" by (simp add: entries_Node [OF t])
  }
qed

lemma entries_zip_within:
  "trie_ok (zip_up t fs) \<Longrightarrow> t \<noteq> Null \<Longrightarrow> net_block x \<subseteq> net_block (k t) \<Longrightarrow> entries (zip_up t fs) x = entries t x"
proof (induction t fs rule: zip_up.induct)
  case (2 t y q r fs)
  have ok: "trie_ok (Node y q t r)" using zip_up_trie_ok [of "Node y q t r" fs] "2.prems" by simp
  then have "net_block x \<subseteq> net_block y" using "2.prems"(2,3) keys_within_root [OF ok, of "k t"] by auto
  then show ?case using 2 entries_child(1) [OF ok] by simp
next
  case (3 t y q l fs)
  have ok: "trie_ok (Node y q l t)" using zip_up_trie_ok [of "Node y q l t" fs] "3.prems" by simp
  then have "net_block x \<subseteq> net_block y" using "3.prems"(2,3) keys_within_root [OF ok, of "k t"] by auto
  then show ?case using 3 entries_child(2) [OF ok] by simp
qed simp

text \<open>Replacing the subtree at a location by one that lies inside the block of the old one.\<close>

definition plug_spec :: "'p trie \<Rightarrow> 'p trie \<Rightarrow> 'p frame list \<Rightarrow> bool" where
  "plug_spec t t' fs \<longleftrightarrow> trie_ok (zip_up t' fs) \<and>
     (\<forall>x. entries (zip_up t' fs) x = (if net_block x \<subseteq> net_block (k t) then entries t' x else entries (zip_up t fs) x))"

lemma entries_outside:
  "trie_ok t \<Longrightarrow> \<not> net_block x \<subseteq> net_block (k t) \<Longrightarrow> entries t x = None"
  "\<forall>z \<in> keys t'. net_block z \<subseteq> net_block y \<Longrightarrow> \<not> net_block x \<subseteq> net_block y \<Longrightarrow> entries t' x = None"
  using entries_within [of t x] by (blast, intro entries_None, blast)

lemma plug_left:
  assumes ok: "trie_ok (Node y q t r)" and t: "t \<noteq> Null" and t': "trie_ok t'" "t' \<noteq> Null" "\<forall>z \<in> keys t'. net_block z \<subseteq> net_block (k t)"
  shows "trie_ok (Node y q t' r)"
    "entries (Node y q t' r) x = (if net_block x \<subseteq> net_block (k t) then entries t' x else entries (Node y q t r) x)"
proof -
  have y: "wf_net y" and l: "in_left (k t) y" using ok t by simp_all
  show ok': "trie_ok (Node y q t' r)" using ok t' in_half_mono(1) [OF _ l] by auto
  show "entries (Node y q t' r) x = (if net_block x \<subseteq> net_block (k t) then entries t' x else entries (Node y q t r) x)"
  proof (cases "net_block x \<subseteq> net_block (k t)")
    case True
    then have "in_left x y" "x \<noteq> y" using in_half_mono(1) [OF _ l] in_left_subset [OF y l] by blast+
    with True show ?thesis by (simp add: entries_Node [OF ok'])
  next
    case False
    then have "entries t x = None" using entries_outside(1) [of t x] ok by simp
    moreover have "entries t' x = None" by (rule entries_outside(2) [OF t'(3) False])
    ultimately show ?thesis using False by (simp add: entries_Node [OF ok] entries_Node [OF ok'])
  qed
qed

lemma plug_right:
  assumes ok: "trie_ok (Node y q l t)" and t: "t \<noteq> Null" and t': "trie_ok t'" "t' \<noteq> Null" "\<forall>z \<in> keys t'. net_block z \<subseteq> net_block (k t)"
  shows "trie_ok (Node y q l t')"
    "entries (Node y q l t') x = (if net_block x \<subseteq> net_block (k t) then entries t' x else entries (Node y q l t) x)"
proof -
  have y: "wf_net y" and r: "in_right (k t) y" using ok t by simp_all
  show ok': "trie_ok (Node y q l t')" using ok t' in_half_mono(2) [OF _ r] by auto
  show "entries (Node y q l t') x = (if net_block x \<subseteq> net_block (k t) then entries t' x else entries (Node y q l t) x)"
  proof (cases "net_block x \<subseteq> net_block (k t)")
    case True
    then have "in_right x y" "\<not> in_left x y" "x \<noteq> y"
      using in_half_mono(2) [OF _ r] not_in_both_halves' [OF y r] in_right_subset [OF y r] by blast+
    with True show ?thesis by (simp add: entries_Node [OF ok'])
  next
    case False
    then have "entries t x = None" using entries_outside(1) [of t x] ok by simp
    moreover have "entries t' x = None" by (rule entries_outside(2) [OF t'(3) False])
    ultimately show ?thesis using False by (simp add: entries_Node [OF ok] entries_Node [OF ok'])
  qed
qed

lemma plug_spec_step:
  assumes "plug_spec n n' fs" "trie_ok (zip_up n fs)" "n \<noteq> Null" "net_block (k t) \<subseteq> net_block (k n)"
    and "\<And>x. entries n' x = (if net_block x \<subseteq> net_block (k t) then entries t' x else entries n x)"
  shows "trie_ok (zip_up n' fs) \<and>
    (\<forall>x. entries (zip_up n' fs) x = (if net_block x \<subseteq> net_block (k t) then entries t' x else entries (zip_up n fs) x))"
  using assms(1,4,5) entries_zip_within [OF assms(2,3)] unfolding plug_spec_def by (simp add: subset_trans)

lemma zip_replace:
  "trie_ok (zip_up t fs) \<Longrightarrow> t \<noteq> Null \<Longrightarrow> trie_ok t' \<Longrightarrow> t' \<noteq> Null \<Longrightarrow>
    \<forall>z \<in> keys t'. net_block z \<subseteq> net_block (k t) \<Longrightarrow> plug_spec t t' fs"
proof (induction fs arbitrary: t t')
  case Nil
  then show ?case using entries_outside(1) [of t] entries_outside(2) [of t' "k t"] by (simp add: plug_spec_def)
next
  case (Cons f fs)
  show ?case
  proof (cases f)
    case (InLeft y q r)
    have z: "trie_ok (zip_up (Node y q t r) fs)" using Cons.prems(1) InLeft by simp
    then have ok: "trie_ok (Node y q t r)" by (rule zip_up_trie_ok)
    note p = plug_left [OF ok Cons.prems(2-5)]
    have "plug_spec (Node y q t r) (Node y q t' r) fs"
      using z p(1) keys_within_root [OF p(1)] by (intro Cons.IH) auto
    from plug_spec_step [OF this z _ _ p(2)] show ?thesis
      using keys_within_root [OF ok, of "k t"] Cons.prems(2) by (simp add: plug_spec_def InLeft)
  next
    case (InRight y q l)
    have z: "trie_ok (zip_up (Node y q l t) fs)" using Cons.prems(1) InRight by simp
    then have ok: "trie_ok (Node y q l t)" by (rule zip_up_trie_ok)
    note p = plug_right [OF ok Cons.prems(2-5)]
    have "plug_spec (Node y q l t) (Node y q l t') fs"
      using z p(1) keys_within_root [OF p(1)] by (intro Cons.IH) auto
    from plug_spec_step [OF this z _ _ p(2)] show ?thesis
      using keys_within_root [OF ok, of "k t"] Cons.prems(2) by (simp add: plug_spec_def InRight)
  qed
qed

subsection \<open>Erasing\<close>

definition erased :: "ipnet \<Rightarrow> 'p trie \<Rightarrow> 'p trie \<Rightarrow> bool" where
  "erased y t t' \<longleftrightarrow> trie_ok t' \<and> (\<forall>x. entries t' x = (if x = y then None else entries t x))"

lemma erase_loop_stop: "trie_ok t \<Longrightarrow> erase_loop t fs = (t, fs)"
  by (cases "(t, fs)" rule: erase_loop.cases) auto

lemma erased_zip:
  assumes z: "trie_ok (zip_up t fs)" and t: "t \<noteq> Null"
    and t': "trie_ok t'" "t' \<noteq> Null" "\<forall>z \<in> keys t'. net_block z \<subseteq> net_block (k t)"
    and y: "net_block y \<subseteq> net_block (k t)"
    and eq: "\<And>x. net_block x \<subseteq> net_block (k t) \<Longrightarrow> entries t' x = (if x = y then None else entries t x)"
  shows "erased y (zip_up t fs) (zip_up t' fs)"
  using zip_replace [OF z t t'] entries_zip_within [OF z t] y eq
  unfolding plug_spec_def erased_def by auto

lemma erased_entries_Node:
  assumes "trie_ok (Node y (Some p) l r)" "l = Null \<or> r = Null"
  defines "c \<equiv> (if l \<noteq> Null then l else r)"
  shows "entries c x = (if x = y then None else entries (Node y (Some p) l r) x)"
proof -
  have y: "wf_net y" using assms(1) by simp
  have "entries l y = None" "entries r y = None"
    using assms(1) in_left_subset [OF y, of y] in_right_subset [OF y, of y] by (auto intro!: entries_None)
  then show ?thesis using assms(2) by (auto simp: c_def entries_Node_raw split: option.splits)
qed

lemma erase_leaf_step:
  assumes IH: "\<And>y p l r. trie_ok (zip_up (Node y (Some p) l r) fs) \<Longrightarrow>
      erased y (zip_up (Node y (Some p) l r) fs) (case erase_loop (Node y None l r) fs of (me, gs) \<Rightarrow> zip_up me gs)"
    and z: "trie_ok (zip_up (Node y' q' L R) fs)" and ok': "\<And>q. q \<noteq> None \<Longrightarrow> trie_ok (Node y' q L' R')"
    and y: "net_block y \<subset> net_block y'"
    and E: "\<And>x. x \<noteq> y' \<Longrightarrow> entries (Node y' q' L' R') x = (if x = y then None else entries (Node y' q' L R) x)"
  shows "erased y (zip_up (Node y' q' L R) fs) (case erase_loop (Node y' q' L' R') fs of (me, gs) \<Rightarrow> zip_up me gs)"
proof (cases q')
  case (Some p')
  have ok: "trie_ok (Node y' q' L' R')" by (rule ok') (simp add: Some)
  have "entries (Node y' q' L' R') y' = q'" "entries (Node y' q' L R) y' = q'"
    using entries_Node [OF ok, of y'] entries_Node [OF zip_up_trie_ok [OF z], of y'] by simp_all
  moreover have "y \<noteq> y'" using y by blast
  ultimately have E': "entries (Node y' q' L' R') x = (if x = y then None else entries (Node y' q' L R) x)" for x
    using E [of x] by (cases "x = y'") simp_all
  have "erased y (zip_up (Node y' q' L R) fs) (zip_up (Node y' q' L' R') fs)"
    by (rule erased_zip [OF z _ ok]) (use E' keys_within_root [OF ok] y in simp_all)
  then show ?thesis using erase_loop_stop [OF ok] by simp
next
  case None
  fix p :: 'a
  let ?N = "Node y' q' L R" and ?N' = "Node y' (Some p) L' R'"
  have ok: "trie_ok ?N'" using ok' [of "Some p"] by simp
  have okN: "trie_ok ?N" using zip_up_trie_ok [OF z] .
  have plug: "plug_spec ?N ?N' fs"
    using z ok keys_within_root [OF ok] by (intro zip_replace) auto
  have e: "entries ?N' x = entries (Node y' q' L' R') x" if "x \<noteq> y'" for x
    using that by (simp add: entries_Node_raw)
  have z': "trie_ok (zip_up ?N' fs)" using plug by (simp add: plug_spec_def)
  have "entries (zip_up ?N fs) y' = None"
    using entries_zip_within [OF z, of y'] entries_Node [OF okN, of y'] None by simp
  moreover have "y \<noteq> y'" "net_block y \<subseteq> net_block y'" using y by blast+
  ultimately show ?thesis
    using IH [OF z'] plug E e entries_zip_within [OF z] unfolding erased_def plug_spec_def None by auto
qed

lemma erase_loop_ok:
  "trie_ok (zip_up (Node y (Some p) l r) fs) \<Longrightarrow>
    erased y (zip_up (Node y (Some p) l r) fs) (case erase_loop (Node y None l r) fs of (me, gs) \<Rightarrow> zip_up me gs)"
proof (induction fs arbitrary: y p l r)
  case Nil
  then have ok: "trie_ok (Node y (Some p) l r)" by simp
  show ?case
  proof (cases "l = Null \<or> r = Null")
    case True
    let ?c = "if l \<noteq> Null then l else r"
    have c: "trie_ok ?c" using ok by simp
    then have "erase_loop (Node y None l r) [] = (?c, [])" using True erase_loop_stop [OF c] by (simp add: Let_def)
    then show ?thesis using c erased_entries_Node [OF ok True] by (simp add: erased_def)
  next
    case False
    then have "trie_ok (Node y None l r)" using ok by simp
    then show ?thesis using False ok by (simp add: erased_def entries_Node del: trie_ok.simps)
  qed
next
  case (Cons f fs)
  let ?t = "Node y (Some p) l r"
  have ok: "trie_ok ?t" using zip_up_trie_ok [OF Cons.prems] .
  have y: "wf_net y" using ok by simp
  show ?case
  proof (cases "l = Null \<or> r = Null")
    case False
    then have ok': "trie_ok (Node y None l r)" using ok by simp
    then have "erased y (zip_up ?t (f # fs)) (zip_up (Node y None l r) (f # fs))"
      using Cons.prems keys_within_root [OF ok'] by (intro erased_zip) (auto simp: entries_Node [OF ok'] entries_Node [OF ok])
    then show ?thesis using False by simp
  next
    case True
    let ?c = "if l \<noteq> Null then l else r"
    show ?thesis
    proof (cases "?c = Null")
      case False
      have c: "trie_ok ?c" using ok by simp
      have keys: "\<forall>z \<in> keys ?c. net_block z \<subseteq> net_block y" using keys_within_root [OF ok] by auto
      have "erased y (zip_up ?t (f # fs)) (zip_up ?c (f # fs))"
        using Cons.prems c False keys erased_entries_Node [OF ok True] by (intro erased_zip) auto
      moreover have "(case erase_loop (Node y None l r) (f # fs) of (me, gs) \<Rightarrow> zip_up me gs) = zip_up ?c (f # fs)"
      proof (cases f)
        case (InLeft y' q' r')
        then have "trie_ok (Node y' q' ?c r')"
          using calculation zip_up_trie_ok [of "Node y' q' ?c r'" fs] by (simp add: erased_def)
        then show ?thesis using True InLeft erase_loop_stop [of "Node y' q' ?c r'" fs] by (simp add: Let_def)
      next
        case (InRight y' q' l')
        then have "trie_ok (Node y' q' l' ?c)"
          using calculation zip_up_trie_ok [of "Node y' q' l' ?c" fs] by (simp add: erased_def)
        then show ?thesis using True InRight erase_loop_stop [of "Node y' q' l' ?c" fs] by (simp add: Let_def)
      qed
      ultimately show ?thesis by simp
    next
      case leaf: True
      then have lr: "l = Null" "r = Null" by (auto split: if_splits)
      show ?thesis
      proof (cases f)
        case (InLeft y' q' r')
        have z: "trie_ok (zip_up (Node y' q' ?t r') fs)" using Cons.prems InLeft by simp
        then have ok': "trie_ok (Node y' q' ?t r')" by (rule zip_up_trie_ok)
        then have "entries r' y = None" using in_halves_exclusive [of y' y] by (intro entries_None) auto
        then have "erased y (zip_up (Node y' q' ?t r') fs) (case erase_loop (Node y' q' Null r') fs of (me, gs) \<Rightarrow> zip_up me gs)"
          using ok' in_left_subset [of y' y] entries_child(1) [OF ok', of y]
          by (intro erase_leaf_step [OF Cons.IH z]) (auto simp: entries_Node_raw lr split: option.splits)
        then show ?thesis using InLeft lr by simp
      next
        case (InRight y' q' l')
        have z: "trie_ok (zip_up (Node y' q' l' ?t) fs)" using Cons.prems InRight by simp
        then have ok': "trie_ok (Node y' q' l' ?t)" by (rule zip_up_trie_ok)
        then have "entries l' y = None" using in_halves_exclusive [of y' y] by (intro entries_None) auto
        then have "erased y (zip_up (Node y' q' l' ?t) fs) (case erase_loop (Node y' q' l' Null) fs of (me, gs) \<Rightarrow> zip_up me gs)"
          using ok' in_right_subset [of y' y] entries_child(2) [OF ok', of y]
          by (intro erase_leaf_step [OF Cons.IH z]) (auto simp: entries_Node_raw lr split: option.splits)
        then show ?thesis using InRight lr by simp
      qed
    qed
  qed
qed

subsection \<open>Longest matching entry\<close>

definition no_match :: "ipnet \<Rightarrow> (ipnet \<rightharpoonup> 'p) \<Rightarrow> bool" where
  "no_match key m \<longleftrightarrow> (\<forall>z \<in> dom m. \<not> net_block key \<subseteq> net_block z)"

definition longest_match :: "ipnet \<Rightarrow> (ipnet \<rightharpoonup> 'p) \<Rightarrow> ipnet \<Rightarrow> bool" where
  "longest_match key m y \<longleftrightarrow> y \<in> dom m \<and> net_block key \<subseteq> net_block y \<and>
     (\<forall>z \<in> dom m. net_block key \<subseteq> net_block z \<longrightarrow> net_block y \<subseteq> net_block z)"

lemma no_match_outside:
  assumes "trie_ok t" "t \<noteq> Null" "\<not> net_block key \<subseteq> net_block (k t)"
  shows "no_match key (entries t)"
  using assms entries_within [of t] unfolding no_match_def by blast

lemma no_match_empty [simp]: "no_match key Map.empty"
  by (simp add: no_match_def)

lemma dom_entries_Node:
  assumes "trie_ok (Node y q l r)"
  shows "dom (entries (Node y q l r)) = dom (entries l) \<union> dom (entries r) \<union> (if q = None then {} else {y})"
  by (auto simp: entries_Node_raw split: option.splits if_splits)

lemma no_match_sibling:
  assumes "trie_ok (Node y q l r)" "l \<noteq> Null" "net_block key \<subseteq> net_block (k l)"
  shows "no_match key (entries r)"
proof -
  have y: "wf_net y" "in_left (k l) y" using assms by simp_all
  have "\<not> net_block key \<subseteq> net_block z" if "z \<in> dom (entries r)" for z
  proof -
    have "in_right z y" using that assms(1) entries_keys [of r z] by auto
    then have "net_block (k l) \<inter> net_block z = {}" using in_left_right_disjoint [OF y] by blast
    then show ?thesis using assms(3) net_block_not_empty(1) [of key] by blast
  qed
  then show ?thesis by (simp add: no_match_def)
qed

lemma match_Node:
  assumes ok: "trie_ok (Node y q l r)" and key: "net_block key \<subseteq> net_block y"
  shows "no_match key (entries l) \<Longrightarrow> no_match key (entries r) \<Longrightarrow>
      (if q = None then no_match key (entries (Node y q l r)) else longest_match key (entries (Node y q l r)) y)"
    and "longest_match key (entries l) z \<Longrightarrow> no_match key (entries r) \<Longrightarrow> longest_match key (entries (Node y q l r)) z"
    and "longest_match key (entries r) z \<Longrightarrow> no_match key (entries l) \<Longrightarrow> longest_match key (entries (Node y q l r)) z"
proof -
  note d = dom_entries_Node [OF ok]
  have sub: "net_block z \<subseteq> net_block y" if "z \<in> dom (entries (Node y q l r))" for z
    using that entries_within [OF ok, of z] by auto
  {
    assume "no_match key (entries l)" "no_match key (entries r)"
    then show "if q = None then no_match key (entries (Node y q l r)) else longest_match key (entries (Node y q l r)) y"
      unfolding no_match_def longest_match_def d using key by (auto simp del: domIff)
  next
    assume "longest_match key (entries l) z" "no_match key (entries r)"
    then show "longest_match key (entries (Node y q l r)) z"
      using d sub unfolding no_match_def longest_match_def by auto
  next
    assume "longest_match key (entries r) z" "no_match key (entries l)"
    then show "longest_match key (entries (Node y q l r)) z"
      using d sub unfolding no_match_def longest_match_def by auto
  }
qed

definition find_spec :: "ipnet \<Rightarrow> 'p trie \<Rightarrow> 'p frame list \<Rightarrow> 'p loc option \<Rightarrow> 'p loc option \<Rightarrow> bool" where
  "find_spec key t fs cand found \<longleftrightarrow>
     (found = cand \<and> no_match key (entries t)) \<or>
     (\<exists>y p l r gs. found = Some (Node y (Some p) l r, gs @ fs) \<and> zip_up (Node y (Some p) l r) gs = t \<and>
        longest_match key (entries t) y)"

lemma find_spec_child:
  assumes "find_spec key c (f # fs) cand' found" "zip_up c [f] = t"
    and "no_match key (entries c) \<Longrightarrow> find_spec key t fs cand cand'"
    and "\<And>z. longest_match key (entries c) z \<Longrightarrow> longest_match key (entries t) z"
  shows "find_spec key t fs cand found"
proof -
  consider "found = cand'" "no_match key (entries c)"
    | y p l r gs where "found = Some (Node y (Some p) l r, gs @ f # fs)" "zip_up (Node y (Some p) l r) gs = c"
        "longest_match key (entries c) y"
    using assms(1) unfolding find_spec_def by blast
  then show ?thesis
  proof cases
    case 2
    then have "found = Some (Node y (Some p) l r, (gs @ [f]) @ fs)" "zip_up (Node y (Some p) l r) (gs @ [f]) = t"
      using assms(2) by (simp_all add: zip_up_append)
    then show ?thesis unfolding find_spec_def using assms(4) [OF 2(3)] by blast
  qed (use assms(3) in simp)
qed

lemma child_contains_ok:
  "trie_ok t \<Longrightarrow> wf_net key \<Longrightarrow> child_contains t key = Inr (t \<noteq> Null \<and> net_block key \<subseteq> net_block (k t))"
  by (cases t) (simp_all add: ipnet_contains_ok)

lemma find_loop_ok:
  assumes "wf_net key"
  shows "trie_ok t \<Longrightarrow> \<exists>found. find_loop key t fs cand = Inr found \<and> find_spec key t fs cand found"
proof (induction t arbitrary: fs cand)
  case Null
  then show ?case by (simp add: find_spec_def)
next
  case (Node y q l r)
  let ?t = "Node y q l r" and ?cand = "if q \<noteq> None then Some (Node y q l r, fs) else cand"
  have y: "wf_net y" "trie_ok l" "trie_ok r" using Node.prems by simp_all
  show ?case
  proof (cases "net_block key \<subseteq> net_block y")
    case False
    then show ?thesis
      using no_match_outside [OF Node.prems, of key] y assms by (simp add: ipnet_contains_ok find_spec_def)
  next
    case True
    note m = match_Node [OF Node.prems True]
    have base: "find_spec key ?t fs cand ?cand" if "no_match key (entries l)" "no_match key (entries r)"
      using m(1) [OF that] by (cases q) (auto simp: find_spec_def intro: exI [of _ "[]"])
    have step: "find_loop key ?t fs cand = (if l \<noteq> Null \<and> net_block key \<subseteq> net_block (k l)
        then find_loop key l (InLeft y q r # fs) ?cand else find_loop key r (InRight y q l # fs) ?cand)"
      using True y assms by (simp add: ipnet_contains_ok child_contains_ok Let_def del: not_None_eq)
    show ?thesis
    proof (cases "l \<noteq> Null \<and> net_block key \<subseteq> net_block (k l)")
      case left: True
      then have r: "no_match key (entries r)" using no_match_sibling [OF Node.prems] by blast
      obtain found where f: "find_loop key l (InLeft y q r # fs) ?cand = Inr found"
        "find_spec key l (InLeft y q r # fs) ?cand found" using Node.IH(1) y by blast
      have "find_spec key ?t fs cand found"
        by (rule find_spec_child [OF f(2)]) (use base r m(2) in simp_all)
      then show ?thesis using f(1) left unfolding step by auto
    next
      case right: False
      then have l: "no_match key (entries l)" using no_match_outside [of l key] y by (cases "l = Null") auto
      obtain found where f: "find_loop key r (InRight y q l # fs) ?cand = Inr found"
        "find_spec key r (InRight y q l # fs) ?cand found" using Node.IH(2) y by blast
      have "find_spec key ?t fs cand found"
        by (rule find_spec_child [OF f(2)]) (use base l m(3) in simp_all)
      then show ?thesis using f(1) right unfolding step by auto
    qed
  qed
qed

subsection \<open>The operations of the trie\<close>

definition Trie_map :: "'p Trie \<Rightarrow> ipnet \<rightharpoonup> 'p" where
  "Trie_map T = entries (root T)"

definition Trie_inv :: "'p Trie \<Rightarrow> bool" where
  "Trie_inv T \<longleftrightarrow> trie_ok (root T) \<and> payload_count T = card (dom (Trie_map T))"

definition iter_entry :: "'p post_iter \<Rightarrow> (ipnet \<times> 'p) option" where
  "iter_entry it = (case cur it of Some (Node y (Some p) l r, fs) \<Rightarrow> Some (y, p) | _ \<Rightarrow> None)"

definition points_to :: "'p Trie \<Rightarrow> 'p post_iter \<Rightarrow> ipnet \<Rightarrow> bool" where
  "points_to T it y \<longleftrightarrow> (\<exists>p l r fs. cur it = Some (Node y (Some p) l r, fs) \<and> zip_up (Node y (Some p) l r) fs = root T)"

lemma finite_Trie_map [simp]: "finite (dom (Trie_map T))"
  by (simp add: Trie_map_def entries_def finite_dom_map_of)

lemma Trie_map_wf: "Trie_inv T \<Longrightarrow> y \<in> dom (Trie_map T) \<Longrightarrow> wf_net y"
  using entries_keys trie_ok_keys_wf by (fastforce simp: Trie_inv_def Trie_map_def)

lemma Trie_empty_ok [simp]: "Trie_inv Trie_empty" "Trie_map Trie_empty = Map.empty"
  by (simp_all add: Trie_inv_def Trie_map_def Trie_empty_def)

lemma Trie_insert_ok:
  assumes "Trie_inv T" "wf_net net"
  obtains T' where "Trie_insert T net p = Inr T'" "Trie_inv T'" "Trie_map T' = (Trie_map T)(net \<mapsto> p)"
proof -
  obtain t' b where t: "trie_insert net p (root T) = Inr (t', b)" "insert_spec net p (root T) t' b"
    using trie_insert_ok [of "root T" net p] assms by (auto simp: Trie_inv_def)
  let ?T' = "\<lparr> root = t', payload_count = (if \<not> b then payload_count T + 1 else payload_count T) \<rparr>"
  have m: "Trie_map ?T' = (Trie_map T)(net \<mapsto> p)" using insert_spec_ok(3) [OF t(2)] by (simp add: Trie_map_def)
  have "card (dom (Trie_map ?T')) = payload_count ?T'"
    using assms(1) insert_spec_ok(4) [OF t(2)] finite_Trie_map [of T]
    unfolding m by (auto simp: Trie_inv_def Trie_map_def card_insert_if domIff)
  then have "Trie_inv ?T'" using insert_spec_ok(1) [OF t(2)] by (simp add: Trie_inv_def)
  then show ?thesis using that [of ?T'] t(1) m by (simp add: Trie_insert_def)
qed

lemma node_find_ok:
  assumes "Trie_inv T" "wf_net key"
  obtains (none) "node_find key (root T) = Inr None" "no_match key (Trie_map T)"
    | (some) y p l r fs where "node_find key (root T) = Inr (Some (Node y (Some p) l r, fs))"
        "zip_up (Node y (Some p) l r) fs = root T" "longest_match key (Trie_map T) y"
  using find_loop_ok [OF assms(2), of "root T" "[]" None] assms(1)
  by (auto simp: node_find_def find_spec_def Trie_inv_def Trie_map_def)

lemma exact_iter_simps [simp]: "cur (exact_iter n) = n" "iter_entry (exact_iter None) = None"
  by (simp_all add: exact_iter_def iter_entry_def)

lemma points_to_entry:
  assumes "Trie_inv T" "points_to T it y"
  shows "\<exists>p. iter_entry it = Some (y, p) \<and> Trie_map T y = Some p"
proof -
  obtain p l r fs where *: "cur it = Some (Node y (Some p) l r, fs)" "zip_up (Node y (Some p) l r) fs = root T"
    using assms(2) unfolding points_to_def by blast
  have z: "trie_ok (zip_up (Node y (Some p) l r) fs)" using assms(1) * by (simp add: Trie_inv_def)
  have "Trie_map T y = entries (Node y (Some p) l r) y"
    using entries_zip_within [OF z, of y] by (simp add: Trie_map_def *)
  then show ?thesis using entries_Node [OF zip_up_trie_ok [OF z], of y] * by (simp add: iter_entry_def)
qed

lemma Trie_find_ok:
  assumes "Trie_inv T" "wf_net key"
  obtains (none) it where "Trie_find T key = Inr it" "cur it = None" "no_match key (Trie_map T)"
    | (some) it y where "Trie_find T key = Inr it" "points_to T it y" "longest_match key (Trie_map T) y"
proof (cases "root T = Null")
  case True
  then show ?thesis using that(1) by (simp add: Trie_find_def Trie_map_def)
next
  case False
  then have f: "Trie_find T key = res_map exact_iter (node_find key (root T))" by (simp add: Trie_find_def)
  show ?thesis
  proof (cases rule: node_find_ok [OF assms])
    case 1
    then show ?thesis using that(1) f by simp
  next
    case (2 y p l r fs)
    then show ?thesis using that(2) f by (auto simp: points_to_def)
  qed
qed

lemma longest_match_exact:
  assumes "Trie_inv T" "wf_net key" "longest_match key (Trie_map T) y" "key \<in> dom (Trie_map T)"
  shows "y = key"
proof -
  have "net_block y = net_block key" using assms(3,4) by (auto simp: longest_match_def)
  moreover have "wf_net y" using assms(1,3) Trie_map_wf by (auto simp: longest_match_def)
  ultimately show ?thesis using assms(2) net_block_eq_iff by blast
qed

lemma longest_match_unique:
  assumes "Trie_inv T" "longest_match key (Trie_map T) y" "longest_match key (Trie_map T) z"
  shows "y = z"
proof -
  have "net_block y = net_block z" using assms(2,3) by (auto simp: longest_match_def)
  moreover have "wf_net y" "wf_net z" using assms Trie_map_wf by (auto simp: longest_match_def)
  ultimately show ?thesis using net_block_eq_iff by blast
qed

lemma Trie_erase_iter_ok:
  assumes "Trie_inv T" "points_to T it y"
  shows "Trie_inv (Trie_erase_iter T it)" "Trie_map (Trie_erase_iter T it) = (Trie_map T)(y := None)"
proof -
  obtain p l r fs where c: "cur it = Some (Node y (Some p) l r, fs)" "zip_up (Node y (Some p) l r) fs = root T"
    using assms(2) unfolding points_to_def by blast
  have z: "trie_ok (zip_up (Node y (Some p) l r) fs)" using assms(1) c by (simp add: Trie_inv_def)
  have "root T \<noteq> Null" using zip_up_Null_iff [of "Node y (Some p) l r" fs] c by simp
  then have T: "Trie_erase_iter T it = \<lparr> root = node_erase (Node y (Some p) l r, fs), payload_count = payload_count T - 1 \<rparr>"
    using c by (simp add: Trie_erase_iter_def)
  have e: "erased y (root T) (node_erase (Node y (Some p) l r, fs))"
    using erase_loop_ok [OF z] c by (simp add: node_erase_def)
  show m: "Trie_map (Trie_erase_iter T it) = (Trie_map T)(y := None)"
    using e by (auto simp: T Trie_map_def erased_def)
  have "y \<in> dom (Trie_map T)" using points_to_entry [OF assms] by auto
  then have "card (dom (Trie_map (Trie_erase_iter T it))) = payload_count T - 1"
    using assms(1) unfolding m by (simp add: Trie_inv_def)
  then show "Trie_inv (Trie_erase_iter T it)" using e by (simp add: Trie_inv_def T erased_def)
qed

lemma Trie_lookup_node_ok:
  assumes "Trie_inv T" "wf_net key"
  obtains (none) it where "Trie_lookup_node T key = Inr it" "cur it = None" "Trie_map T key = None"
    | (some) it where "Trie_lookup_node T key = Inr it" "points_to T it key" "Trie_map T key \<noteq> None"
proof (cases "root T = Null")
  case True
  then show ?thesis using that(1) by (simp add: Trie_lookup_node_def Trie_map_def)
next
  case ne: False
  show ?thesis
  proof (cases rule: node_find_ok [OF assms])
    case 1
    then have "Trie_map T key = None" by (auto simp: no_match_def)
    then show ?thesis using that(1) ne 1 by (simp add: Trie_lookup_node_def)
  next
    case (2 y p l r fs)
    show ?thesis
    proof (cases "y = key")
      case True
      then have "Trie_map T key \<noteq> None" using 2(3) by (auto simp: longest_match_def)
      then show ?thesis using that(2) ne 2 True by (auto simp: Trie_lookup_node_def points_to_def)
    next
      case False
      then have "Trie_map T key = None" using longest_match_exact [OF assms 2(3)] by auto
      then show ?thesis using that(1) ne 2 False by (simp add: Trie_lookup_node_def)
    qed
  qed
qed

lemma Trie_erase_ok:
  assumes "Trie_inv T" "wf_net key"
  obtains (none) "Trie_erase T key = Inr T" "no_match key (Trie_map T)"
    | (some) T' y where "Trie_erase T key = Inr T'" "Trie_inv T'" "longest_match key (Trie_map T) y"
        "Trie_map T' = (Trie_map T)(y := None)"
proof (cases rule: Trie_find_ok [OF assms])
  case (1 it)
  then show ?thesis using that(1) by (simp add: Trie_erase_def Trie_erase_iter_def)
next
  case (2 it y)
  then show ?thesis using that(2) Trie_erase_iter_ok [OF assms(1) 2(2)] by (simp add: Trie_erase_def)
qed

subsection \<open>The trie as a table of routes\<close>

text \<open>
  What the clients of the trie rely on: a table is a finite map from prefixes to payloads with exact
  lookup and longest match.
\<close>

definition table_lookup :: "'p Trie \<Rightarrow> ipnet \<Rightarrow> 'p option res" where
  "table_lookup T key = res_map (\<lambda>it. map_option snd (iter_entry it)) (Trie_lookup_node T key)"

definition table_best :: "'p Trie \<Rightarrow> ipnet \<Rightarrow> (ipnet \<times> 'p) option res" where
  "table_best T key = res_map iter_entry (Trie_find T key)"

locale prefix_table =
  fixes empty :: "'t" and insert :: "'t \<Rightarrow> ipnet \<Rightarrow> 'p \<Rightarrow> 't res" and erase :: "'t \<Rightarrow> ipnet \<Rightarrow> 't res"
    and lookup :: "'t \<Rightarrow> ipnet \<Rightarrow> 'p option res" and best :: "'t \<Rightarrow> ipnet \<Rightarrow> (ipnet \<times> 'p) option res"
    and inv :: "'t \<Rightarrow> bool" and mp :: "'t \<Rightarrow> ipnet \<rightharpoonup> 'p"
  assumes inv_empty: "inv empty" and mp_empty: "mp empty = Map.empty"
    and insert_law: "inv T \<Longrightarrow> wf_net x \<Longrightarrow> \<exists>T'. insert T x p = Inr T' \<and> inv T' \<and> mp T' = (mp T)(x \<mapsto> p)"
    and erase_law: "inv T \<Longrightarrow> wf_net x \<Longrightarrow> mp T x \<noteq> None \<Longrightarrow> \<exists>T'. erase T x = Inr T' \<and> inv T' \<and> mp T' = (mp T)(x := None)"
    and lookup_law: "inv T \<Longrightarrow> wf_net x \<Longrightarrow> lookup T x = Inr (mp T x)"
    and best_law: "inv T \<Longrightarrow> wf_net x \<Longrightarrow> \<exists>b. best T x = Inr b \<and>
      (case b of None \<Rightarrow> no_match x (mp T) | Some (y, p) \<Rightarrow> longest_match x (mp T) y \<and> mp T y = Some p)"
    and keys_wf: "inv T \<Longrightarrow> mp T x \<noteq> None \<Longrightarrow> wf_net x"
begin

lemma lookup_insert:
  assumes "inv T" "wf_net x" "wf_net y" "insert T x p = Inr T'"
  shows "lookup T' y = (if y = x then Inr (Some p) else lookup T y)"
  using insert_law [OF assms(1,2), of p] lookup_law assms by auto

lemma lookup_erase:
  assumes "inv T" "wf_net x" "wf_net y" "mp T x \<noteq> None" "erase T x = Inr T'"
  shows "lookup T' y = (if y = x then Inr None else lookup T y)"
  using erase_law [OF assms(1,2,4)] lookup_law assms by auto

lemma best_unique:
  assumes "inv T" "wf_net key" "longest_match key (mp T) y" "mp T y = Some p"
  shows "best T key = Inr (Some (y, p))"
proof -
  obtain b where b: "best T key = Inr b"
    "case b of None \<Rightarrow> no_match key (mp T) | Some (y, p) \<Rightarrow> longest_match key (mp T) y \<and> mp T y = Some p"
    using best_law [OF assms(1,2)] by blast
  show ?thesis
  proof (cases b)
    case None
    then show ?thesis using b(2) assms(3) by (auto simp: no_match_def longest_match_def)
  next
    case (Some zq)
    then obtain z q where z: "b = Some (z, q)" "longest_match key (mp T) z" "mp T z = Some q"
      using b(2) by (cases zq) auto
    then have "net_block z = net_block y" using assms(3) by (auto simp: longest_match_def)
    moreover have "wf_net z" "wf_net y" using keys_wf [OF assms(1)] z(3) assms(4) by auto
    ultimately have "z = y" using net_block_eq_iff by blast
    then show ?thesis using b(1) z assms(4) by simp
  qed
qed

text \<open>A new route for a prefix of the key takes over exactly when it is at least as specific as the old match.\<close>

lemma best_insert:
  assumes "inv T" "wf_net key" "wf_net x" "insert T x p = Inr T'" "net_block key \<subseteq> net_block x"
    and "best T key = Inr None \<or> (\<exists>y q. best T key = Inr (Some (y, q)) \<and> plen y \<le> plen x)"
  shows "best T' key = Inr (Some (x, p))"
proof -
  have T': "inv T'" "mp T' = (mp T)(x \<mapsto> p)" using insert_law [OF assms(1,3), of p] assms(4) by auto
  obtain b where b: "best T key = Inr b"
    "case b of None \<Rightarrow> no_match key (mp T) | Some (y, p) \<Rightarrow> longest_match key (mp T) y \<and> mp T y = Some p"
    using best_law [OF assms(1,2)] by blast
  have "net_block x \<subseteq> net_block z" if z: "z \<in> dom (mp T)" "net_block key \<subseteq> net_block z" for z
  proof (cases b)
    case None
    then show ?thesis using b(2) z by (auto simp: no_match_def)
  next
    case (Some yq)
    then obtain y q where y: "b = Some (y, q)" "longest_match key (mp T) y" "plen y \<le> plen x" "wf_net y"
      using b assms(6) keys_wf [OF assms(1)] by (cases yq) auto
    then have "net_block y \<subseteq> net_block z" "net_block key \<subseteq> net_block y" using z by (auto simp: longest_match_def)
    moreover have "net_block x \<subseteq> net_block y"
      using net_nested_or_disjoint [OF y(4) assms(3) y(3)] calculation(2) assms(5) net_block_not_empty(1) [of key] by blast
    ultimately show ?thesis by blast
  qed
  then have "longest_match key (mp T') x" unfolding T' longest_match_def using assms(5) by auto
  then show ?thesis using best_unique [OF T'(1) assms(2)] T' by simp
qed

end

interpretation route_trie: prefix_table Trie_empty Trie_insert Trie_erase table_lookup table_best Trie_inv Trie_map
proof (standard, goal_cases)
  case (3 T x p)
  then show ?case by (blast elim: Trie_insert_ok)
next
  case (4 T x)
  from 4(1,2) show ?case
  proof (cases rule: Trie_erase_ok)
    case none
    then show ?thesis using 4(3) unfolding no_match_def by blast
  next
    case (some T' y)
    then show ?thesis using longest_match_exact [OF 4(1,2), of y] 4(3) by auto
  qed
next
  case (5 T x)
  from 5 show ?case
  proof (cases rule: Trie_lookup_node_ok)
    case (none it)
    then show ?thesis by (simp add: table_lookup_def iter_entry_def)
  next
    case (some it)
    then show ?thesis using points_to_entry [OF 5(1), of it x] by (auto simp: table_lookup_def)
  qed
next
  case (6 T x)
  from 6 show ?case
  proof (cases rule: Trie_find_ok)
    case (none it)
    then show ?thesis by (simp add: table_best_def iter_entry_def)
  next
    case (some it y)
    then show ?thesis using points_to_entry [OF 6(1), of it y] by (auto simp: table_best_def)
  qed
next
  case (7 T x)
  then show ?case using Trie_map_wf by blast
qed simp_all

subsection \<open>Properties\<close>

lemma example_net_wf: "unat p \<le> 32 \<Longrightarrow> 2 ^ (32 - unat p) dvd unat a \<Longrightarrow> wf_net (example_net a p)"
  by (simp add: wf_net_iff)

text \<open>
  C1: inserting a route never aborts, keeps the structure of the trie, adds or replaces exactly the
  payload of that prefix, and counts the new entry only when the prefix was not in the trie before.
\<close>

theorem Trie_insert_correct:
  assumes "Trie_inv T" "wf_net net"
  shows "\<exists>T'. Trie_insert T net p = Inr T' \<and> Trie_inv T' \<and> Trie_map T' = (Trie_map T)(net \<mapsto> p) \<and>
    Trie_size T' = (if net \<in> dom (Trie_map T) then Trie_size T else Trie_size T + 1)"
proof -
  obtain T' where T': "Trie_insert T net p = Inr T'" "Trie_inv T'" "Trie_map T' = (Trie_map T)(net \<mapsto> p)"
    using Trie_insert_ok [OF assms] by blast
  then have "Trie_size T' = (if net \<in> dom (Trie_map T) then Trie_size T else Trie_size T + 1)"
    using assms(1) by (simp add: Trie_size_def Trie_inv_def card_insert_if)
  with T' show ?thesis by blast
qed

theorem Trie_insert_correct_witness:
  "\<exists>T'. Trie_insert Trie_empty (example_net 0x0a000000 8) (7::nat) = Inr T' \<and> Trie_inv T' \<and>
    Trie_map T' = [example_net 0x0a000000 8 \<mapsto> 7] \<and> Trie_size T' = 1"
  using Trie_insert_correct [of Trie_empty "example_net 0x0a000000 8" 7]
  by (simp add: example_net_wf) (simp add: Trie_size_def Trie_empty_def)

text \<open>
  C2: \<open>find\<close> returns the entry with the longest prefix that contains the key, and the end iterator
  exactly when no entry contains the key.
\<close>

theorem Trie_find_longest_match:
  assumes "Trie_inv T" "wf_net key"
  shows "\<exists>it. Trie_find T key = Inr it \<and>
    (case iter_entry it of
       None \<Rightarrow> \<forall>z \<in> dom (Trie_map T). ipnet_contains z key = Inr False
     | Some (y, p) \<Rightarrow> Trie_map T y = Some p \<and> ipnet_contains y key = Inr True \<and>
         (\<forall>z \<in> dom (Trie_map T). ipnet_contains z key = Inr True \<longrightarrow> z = y \<or> prefix_len z < prefix_len y))"
proof -
  have wf: "wf_net z" if "z \<in> dom (Trie_map T)" for z using that Trie_map_wf [OF assms(1)] by blast
  show ?thesis
  proof (cases rule: Trie_find_ok [OF assms])
    case (1 it)
    then show ?thesis using wf assms(2) by (auto simp: no_match_def iter_entry_def ipnet_contains_ok)
  next
    case (2 it y)
    then obtain p where p: "iter_entry it = Some (y, p)" "Trie_map T y = Some p"
      using points_to_entry [OF assms(1)] by blast
    have y: "wf_net y" using p(2) wf by blast
    have "z = y \<or> plen z < plen y" if z: "z \<in> dom (Trie_map T)" "net_block key \<subseteq> net_block z" for z
    proof -
      have "net_block y \<subseteq> net_block z" using 2(3) z by (auto simp: longest_match_def)
      then have "net_block y = net_block z \<or> in_left y z \<or> in_right y z"
        using strict_subnet_half [OF y wf [OF z(1)]] by blast
      moreover have "plen z < plen y" if "in_left y z \<or> in_right y z"
        using that y wf [OF z(1)] halves [of z] net_subset_iff [of "left_half z" y] net_subset_iff [of "right_half z" y]
        by (auto simp: in_left_def in_right_def)
      ultimately show ?thesis using net_block_eq_iff [OF y wf [OF z(1)]] by blast
    qed
    then show ?thesis
      using 2 p y wf assms(2) by (auto simp: longest_match_def ipnet_contains_ok plen_less_iff)
  qed
qed

theorem Trie_find_longest_match_witness:
  "\<exists>T it. Trie_insert Trie_empty (example_net 0x0a000000 8) (7::nat) = Inr T \<and>
    Trie_find T (example_net 0x0a010000 16) = Inr it \<and> iter_entry it = Some (example_net 0x0a000000 8, 7)"
proof -
  let ?n = "example_net 0x0a000000 8" and ?key = "example_net 0x0a010000 16"
  have wf: "wf_net ?n" "wf_net ?key" by (simp_all add: example_net_wf)
  obtain T where T: "Trie_insert Trie_empty ?n (7::nat) = Inr T" "Trie_inv T" "Trie_map T = [?n \<mapsto> 7]"
    using Trie_insert_ok [of Trie_empty ?n 7] wf by auto
  have "net_block ?key \<subseteq> net_block ?n" by (simp add: net_subset_bounds)
  then have "ipnet_contains ?n ?key = Inr True" using wf by (simp add: ipnet_contains_ok)
  then show ?thesis
    using Trie_find_longest_match [OF T(2) wf(2)] T by (auto split: option.splits if_splits)
qed

text \<open>
  C10: erasing a prefix that is in the trie removes exactly that entry and keeps the structure of the
  trie, useless internal nodes included in the removal.
\<close>

theorem Trie_erase_present:
  assumes "Trie_inv T" "wf_net key" "key \<in> dom (Trie_map T)"
  shows "\<exists>T'. Trie_erase T key = Inr T' \<and> Trie_inv T' \<and> Trie_map T' = (Trie_map T)(key := None) \<and>
    Trie_size T' = Trie_size T - 1"
proof -
  obtain T' where T': "Trie_erase T key = Inr T'" "Trie_inv T'" "Trie_map T' = (Trie_map T)(key := None)"
    using route_trie.erase_law [OF assms(1,2)] assms(3) by auto
  then have "Trie_size T' = Trie_size T - 1" using assms by (simp add: Trie_size_def Trie_inv_def)
  with T' show ?thesis by blast
qed

theorem Trie_erase_present_witness:
  "\<exists>T T'. Trie_insert Trie_empty (example_net 0x0a000000 8) (7::nat) = Inr T \<and>
    Trie_erase T (example_net 0x0a000000 8) = Inr T' \<and> Trie_map T' = Map.empty"
proof -
  let ?n = "example_net 0x0a000000 8"
  have wf: "wf_net ?n" by (simp add: example_net_wf)
  obtain T where T: "Trie_insert Trie_empty ?n (7::nat) = Inr T" "Trie_inv T" "Trie_map T = [?n \<mapsto> 7]"
    using Trie_insert_ok [of Trie_empty ?n 7] wf by auto
  then show ?thesis using Trie_erase_present [OF T(2) wf] by auto
qed

text \<open>
  C31: erasing by key a prefix that is not in the trie removes the longest entry that contains the
  prefix: the route to 10.0.0.0/8 disappears when 10.1.0.0/16 is erased.
\<close>

theorem Trie_erase_absent_removes_covering_route:
  assumes "Trie_inv T" "wf_net key" "key \<notin> dom (Trie_map T)" "longest_match key (Trie_map T) y"
  shows "\<exists>T'. Trie_erase T key = Inr T' \<and> Trie_map T' = (Trie_map T)(y := None) \<and> Trie_size T' = Trie_size T - 1"
proof (cases rule: Trie_erase_ok [OF assms(1,2)])
  case 1
  then show ?thesis using assms(4) by (auto simp: no_match_def longest_match_def)
next
  case (2 T' z)
  have z: "z = y" using longest_match_unique [OF assms(1) 2(3) assms(4)] .
  have "y \<in> dom (Trie_map T)" using assms(4) by (simp add: longest_match_def)
  then have "Trie_size T' = Trie_size T - 1" using 2(2,4) z assms(1) by (simp add: Trie_size_def Trie_inv_def)
  then show ?thesis using 2 z by blast
qed

theorem Trie_erase_absent_witness:
  "\<exists>T T'. Trie_insert Trie_empty (example_net 0x0a000000 8) (7::nat) = Inr T \<and>
    Trie_erase T (example_net 0x0a010000 16) = Inr T' \<and> Trie_map T' = Map.empty"
proof -
  let ?n = "example_net 0x0a000000 8" and ?key = "example_net 0x0a010000 16"
  have wf: "wf_net ?n" "wf_net ?key" by (simp_all add: example_net_wf)
  obtain T where T: "Trie_insert Trie_empty ?n (7::nat) = Inr T" "Trie_inv T" "Trie_map T = [?n \<mapsto> 7]"
    using Trie_insert_ok [of Trie_empty ?n 7] wf by auto
  have "net_block ?key \<subseteq> net_block ?n" by (simp add: net_subset_bounds)
  then have "longest_match ?key (Trie_map T) ?n" using T(3) by (simp add: longest_match_def)
  moreover have "?key \<notin> dom (Trie_map T)" using T(3) by simp
  ultimately show ?thesis
    using Trie_erase_absent_removes_covering_route [OF T(2) wf(2)] T(1,3) by fastforce
qed

text \<open>
  a new route takes over the addresses of a key from the route they matched before exactly when
  it is at least as specific: after the insertion, the longest match of the key is the new route.
\<close>

theorem Trie_insert_takes_over:
  assumes "Trie_inv T" "wf_net key" "wf_net x" "ipnet_contains x key = Inr True" "Trie_insert T x p = Inr T'"
    and "table_best T key = Inr None \<or> (\<exists>y q. table_best T key = Inr (Some (y, q)) \<and> plen y \<le> plen x)"
  shows "table_best T' key = Inr (Some (x, p))"
  using assms by (intro route_trie.best_insert [OF assms(1-3,5)]) (auto simp: ipnet_contains_ok)

theorem Trie_insert_takes_over_witness:
  "\<exists>T. Trie_insert Trie_empty (example_net 0x0a000000 8) (7::nat) = Inr T \<and>
    table_best T (example_net 0x0a010000 16) = Inr (Some (example_net 0x0a000000 8, 7))"
proof -
  let ?n = "example_net 0x0a000000 8" and ?key = "example_net 0x0a010000 16"
  have wf: "wf_net ?n" "wf_net ?key" by (simp_all add: example_net_wf)
  have "net_block ?key \<subseteq> net_block ?n" by (simp add: net_subset_bounds)
  then have "ipnet_contains ?n ?key = Inr True" using wf by (simp add: ipnet_contains_ok)
  moreover obtain T where T: "Trie_insert Trie_empty ?n (7::nat) = Inr T"
    using Trie_insert_ok [of Trie_empty ?n 7] wf by auto
  moreover have "table_best Trie_empty ?key = Inr (None :: (ipnet \<times> nat) option)"
    by (simp add: table_best_def Trie_find_def Trie_empty_def)
  ultimately show ?thesis using Trie_insert_takes_over [of Trie_empty ?key ?n 7 T] wf by auto
qed

end
