(* ===== verification/Trie_Iteration.thy ===== *)
theory Trie_Iteration
  imports Trie_Lookup
begin

text \<open>
  Iteration over the route trie: the postorder iterator visits every entry exactly once, in ascending
  order of \<open>IPNet::operator<\<close>, and an iterator bound to a subtree visits the entries inside its
  key. The two queries built on the shape of the trie that do not meet their description,
  \<open>find_bounds\<close> and \<open>lower_bound\<close>, are evaluated on small tries.
\<close>

subsection \<open>What remains to be visited\<close>

fun collect :: "nat \<Rightarrow> 'p post_iter \<Rightarrow> (ipnet \<times> 'p option) list res" where
  "collect 0 it = Inl OutOfBounds"
| "collect (Suc fuel) it = (case cur it of
     None \<Rightarrow> Inr []
   | Some (n, fs) \<Rightarrow> res_bind (iter_next it) (\<lambda>it'. res_map ((#) (k n, payload n)) (collect fuel it')))"

definition node_entry :: "ipnet \<Rightarrow> 'p option \<Rightarrow> (ipnet \<times> 'p) list" where
  "node_entry y q = (case q of None \<Rightarrow> [] | Some p \<Rightarrow> [(y, p)])"

fun after :: "'p frame list \<Rightarrow> (ipnet \<times> 'p) list" where
  "after [] = []"
| "after (InLeft y q r # fs) = postorder r @ node_entry y q @ after fs"
| "after (InRight y q l # fs) = node_entry y q @ after fs"

lemma node_entry_simps [simp]: "node_entry y None = []" "node_entry y (Some p) = [(y, p)]"
  by (simp_all add: node_entry_def)

lemma postorder_Node: "postorder (Node y q l r) = postorder l @ postorder r @ node_entry y q"
  by (simp add: node_entry_def)

lemma leftmost_spec:
  "t \<noteq> Null \<Longrightarrow> leftmost t fs = (n, gs) \<Longrightarrow>
    n \<noteq> Null \<and> zip_up n gs = zip_up t fs \<and> postorder t @ after fs = node_entry (k n) (payload n) @ after gs"
  by (induction t fs rule: leftmost.induct) (auto simp: postorder_Node simp del: postorder.simps(2) split: if_splits)

lemma leftmost_suffix: "\<exists>hs. snd (leftmost t fs) = hs @ fs"
  by (induction t fs rule: leftmost.induct) auto

lemma leftmost_append: "leftmost t (gs @ fs) = (fst (leftmost t gs), snd (leftmost t gs) @ fs)"
  by (induction t gs rule: leftmost.induct) auto

lemma parent_step_spec:
  "parent_step t f fs = (n, gs) \<Longrightarrow> n \<noteq> Null \<and> zip_up n gs = zip_up t (f # fs) \<and>
    after (f # fs) = node_entry (k n) (payload n) @ after gs"
proof (cases f)
  case (InLeft y q r)
  assume p: "parent_step t f fs = (n, gs)"
  show ?thesis
  proof (cases "r = Null")
    case False
    then have "leftmost r (InRight y q t # fs) = (n, gs)" using p InLeft by simp
    from leftmost_spec [OF False this] show ?thesis using InLeft by simp
  qed (use p InLeft in auto)
qed auto

lemma parent_step_append:
  "parent_step t f (gs @ fs) = (fst (parent_step t f gs), snd (parent_step t f gs) @ fs)"
proof (cases f)
  case (InLeft y q r)
  then show ?thesis using leftmost_append [of r "InRight y q t # gs" fs] by simp
qed simp

lemma zip_up_keys: "keys t \<subseteq> keys (zip_up t fs)"
  by (induction t fs rule: zip_up.induct) auto

subsection \<open>Stepping inside a subtree\<close>

text \<open>
  An iterator bound to \<open>root\<close> moves inside a subtree all of whose keys are in \<open>root\<close>, and ends when it
  would leave the subtree.
\<close>

definition leaves :: "ipnet \<Rightarrow> 'p trie \<Rightarrow> 'p frame list \<Rightarrow> bool" where
  "leaves rk t fs \<longleftrightarrow> (case fs of
     [] \<Rightarrow> True
   | f # fs' \<Rightarrow> \<not> net_block (k (fst (parent_step t f fs'))) \<subseteq> net_block rk)"

lemma post_next_inside:
  assumes root: "wf_net rk" and ok: "trie_ok S" "\<forall>z \<in> keys S. net_block z \<subseteq> net_block rk"
    and leaves: "leaves rk S fs" and wf: "trie_ok (zip_up S fs)"
  shows "t \<noteq> Null \<Longrightarrow> zip_up t gs = S \<Longrightarrow>
    (case after gs of
       [] \<Rightarrow> post_next rk t (gs @ fs) = Inr None
     | (y, p) # rest \<Rightarrow> \<exists>n hs. post_next rk t (gs @ fs) = Inr (Some (n, hs @ fs)) \<and> n \<noteq> Null \<and> zip_up n hs = S \<and>
         k n = y \<and> payload n = Some p \<and> after hs = rest)"
proof (induction "todo gs" arbitrary: t gs rule: less_induct)
  case less
  show ?case
  proof (cases gs)
    case Nil
    then have t: "t = S" using less.prems by simp
    show ?thesis
    proof (cases fs)
      case outer: (Cons f fs')
      obtain n hs where n: "parent_step t f fs' = (n, hs)" by fastforce
      have "n \<noteq> Null" "zip_up n hs = zip_up S fs" using parent_step_spec [OF n] t outer by auto
      then have "wf_net (k n)" using wf zip_up_keys [of n hs] trie_ok_keys_wf [OF wf, of "k n"] by (auto intro: k_in_keys)
      then show ?thesis
        using leaves n t Nil outer root by (simp add: leaves_def ipnet_contains_ok Let_def)
    qed (simp add: Nil)
  next
    case (Cons f gs')
    obtain n hs where n: "parent_step t f gs' = (n, hs)" by fastforce
    note ps = parent_step_spec [OF n]
    have z: "zip_up n hs = S" using ps less.prems(2) Cons by simp
    have "k n \<in> keys S" using ps zip_up_keys [of n hs] z by (auto intro: k_in_keys)
    then have k: "wf_net (k n)" "net_block (k n) \<subseteq> net_block rk" using ok trie_ok_keys_wf by blast+
    have step: "post_next rk t (gs @ fs) = (if payload n = None then post_next rk n (hs @ fs) else Inr (Some (n, hs @ fs)))"
      using k root n parent_step_append [of t f gs' fs] by (auto simp: Cons ipnet_contains_ok Let_def)
    show ?thesis
    proof (cases "payload n")
      case None
      have "todo hs < todo gs" using todo_parent_step [of t f gs'] n Cons by simp
      note IH = less.hyps [OF this _ z]
      have eq: "post_next rk t (gs @ fs) = post_next rk n (hs @ fs)" using step None by simp
      have a: "after gs = after hs" using ps None Cons by simp
      show ?thesis unfolding eq a using IH ps by simp
    next
      case (Some p)
      then show ?thesis using ps step z Cons by auto
    qed
  qed
qed

definition some_entries :: "(ipnet \<times> 'p) list \<Rightarrow> (ipnet \<times> 'p option) list" where
  "some_entries es = map (\<lambda>(y, p). (y, Some p)) es"

lemma collect_inside:
  assumes root: "wf_net rk" and ok: "trie_ok S" "\<forall>z \<in> keys S. net_block z \<subseteq> net_block rk"
    and leaves: "leaves rk S fs" and wf: "trie_ok (zip_up S fs)"
  shows "t \<noteq> Null \<Longrightarrow> zip_up t gs = S \<Longrightarrow> length (after gs) + 1 < fuel \<Longrightarrow>
    collect fuel \<lparr> cur = Some (t, gs @ fs), iroot = rk \<rparr> = Inr ((k t, payload t) # some_entries (after gs))"
proof (induction fuel arbitrary: t gs)
  case (Suc fuel)
  note next_ = post_next_inside [OF assms Suc.prems(1,2)]
  show ?case
  proof (cases "after gs")
    case Nil
    then obtain f where "fuel = Suc f" using Suc.prems(3) by (cases fuel) auto
    then show ?thesis using next_ Nil by (simp add: iter_next_def some_entries_def)
  next
    case (Cons yp rest)
    then obtain y p n hs where y: "yp = (y, p)" "post_next rk t (gs @ fs) = Inr (Some (n, hs @ fs))" "n \<noteq> Null" "zip_up n hs = S"
      "k n = y" "payload n = Some p" "after hs = rest"
      using next_ by (cases yp) auto
    have "collect fuel \<lparr> cur = Some (n, hs @ fs), iroot = rk \<rparr> = Inr ((k n, payload n) # some_entries (after hs))"
      using Suc.IH [OF y(3,4)] Suc.prems(3) Cons y(7) by simp
    then show ?thesis using y Cons by (simp add: iter_next_def some_entries_def)
  qed
qed simp

lemma leftmost_ok:
  assumes "trie_ok t" "t \<noteq> Null" "leftmost t gs = (n, hs)"
  shows "payload n \<noteq> None"
  using assms by (induction t gs rule: leftmost.induct) (auto split: if_splits)

lemma collect_subtree:
  assumes "wf_net rk" "trie_ok (zip_up S fs)" "S \<noteq> Null" "\<forall>z \<in> keys S. net_block z \<subseteq> net_block rk" "leaves rk S fs"
    and fuel: "length (postorder S) < fuel"
  shows "collect fuel \<lparr> cur = Some (leftmost S fs), iroot = rk \<rparr> = Inr (some_entries (postorder S))"
proof -
  have S: "trie_ok S" using zip_up_trie_ok [OF assms(2)] .
  obtain n hs where n: "leftmost S [] = (n, hs)" by fastforce
  then have l: "leftmost S fs = (n, hs @ fs)" using leftmost_append [of S "[]" fs] by simp
  obtain p where p: "payload n = Some p" using leftmost_ok [OF S assms(3) n] by blast
  have sp: "n \<noteq> Null" "zip_up n hs = S" "postorder S = (k n, p) # after hs"
    using leftmost_spec [OF assms(3) n] p by simp_all
  show ?thesis
    using collect_inside [OF assms(1) S assms(4,5,2) sp(1,2), of fuel] fuel l p sp(3)
    by (simp add: some_entries_def)
qed

subsection \<open>The visiting order\<close>

lemma postorder_sorted:
  "trie_ok t \<Longrightarrow> sorted_wrt (\<lambda>a b. ipnet_less (fst a) (fst b) = Inr True) (postorder t)"
proof (induction t)
  case (Node y q l r)
  have y: "wf_net y" using Node.prems by simp
  have less: "ipnet_less a b = Inr True" if "in_left a y" "in_right b y" "wf_net a" "wf_net b" for a b
  proof -
    have p: "plen y < 32" using that by (simp add: in_left_def)
    have "net_lo a + net_width a \<le> net_lo y + net_width y div 2" "net_lo y + net_width y div 2 \<le> net_lo b"
      using that unfolding in_left_def in_right_def net_subset_bounds halves [OF y p] by auto
    then have "net_hi a < net_hi b" unfolding net_hi_def using net_width_pos(1) [of a] net_width_pos(1) [of b] by linarith
    then show ?thesis using that by (simp add: ipnet_less_ok)
  qed
  have up: "ipnet_less a y = Inr True" if "net_block a \<subset> net_block y" "wf_net a" for a
  proof -
    have "\<not> net_block y \<subseteq> net_block a" "net_block a \<subseteq> net_block y" using that by auto
    then show ?thesis using that y by (simp add: ipnet_less_def ipnet_contains_ok)
  qed
  have l: "in_left a y \<and> wf_net a \<and> net_block a \<subset> net_block y" if "(a, p) \<in> set (postorder l)" for a p
    using that Node.prems postorder_keys [of l] trie_ok_keys_wf [of l a] in_left_subset [OF y] by force
  have r: "in_right a y \<and> wf_net a \<and> net_block a \<subset> net_block y" if "(a, p) \<in> set (postorder r)" for a p
    using that Node.prems postorder_keys [of r] trie_ok_keys_wf [of r a] in_right_subset [OF y] by force
  have lr: "ipnet_less (fst a) (fst b) = Inr True" if "a \<in> set (postorder l)" "b \<in> set (postorder r)" for a b
    using that l [of "fst a" "snd a"] r [of "fst b" "snd b"] by (intro less) simp_all
  have top: "ipnet_less (fst a) y = Inr True" if "a \<in> set (postorder l) \<or> a \<in> set (postorder r)" for a
    using that l [of "fst a" "snd a"] r [of "fst a" "snd a"] by (intro up) auto
  show ?case
    using Node lr top by (cases q) (simp_all add: sorted_wrt_append)
qed simp

lemma sorted_wrt_irrefl_distinct: "sorted_wrt P xs \<Longrightarrow> \<forall>x \<in> set xs. \<not> P x x \<Longrightarrow> distinct xs"
  by (induction xs) auto

lemma postorder_distinct: "trie_ok t \<Longrightarrow> distinct (map fst (postorder t))"
proof -
  assume t: "trie_ok t"
  have irr: "ipnet_less y y \<noteq> Inr True" if "(y, p) \<in> set (postorder t)" for y p
    using that postorder_keys [of t] trie_ok_keys_wf [OF t, of y] by (force simp: ipnet_less_ok)
  have "sorted_wrt (\<lambda>a b. ipnet_less a b = Inr True) (map fst (postorder t))"
    using postorder_sorted [OF t] by (simp add: sorted_wrt_map)
  then show ?thesis by (rule sorted_wrt_irrefl_distinct) (use irr in auto)
qed

lemma length_postorder: "Trie_inv T \<Longrightarrow> length (postorder (root T)) = Trie_size T"
  using distinct_card [OF postorder_distinct, of "root T"]
  by (simp add: Trie_inv_def Trie_size_def Trie_map_def entries_def dom_map_of_conv_image_fst)

lemma wf_default [simp]: "wf_net ipnet_default"
  by (simp add: wf_net_iff ipnet_default_def plen_def net_lo_def net_width_def)

lemma block_default: "wf_net y \<Longrightarrow> net_block y \<subseteq> net_block ipnet_default"
  using net_block_top [of y]
  by (simp add: net_subset_bounds) (simp add: ipnet_default_def plen_def net_lo_def net_width_def)

lemma Trie_begin_collect:
  assumes "Trie_inv T"
  shows "\<exists>it. Trie_begin T = Inr it \<and> collect (Trie_size T + 1) it = Inr (some_entries (postorder (root T)))"
proof (cases "root T = Null")
  case True
  then show ?thesis by (simp add: Trie_begin_def subtree_iter_def some_entries_def)
next
  case False
  have ok: "trie_ok (root T)" using assms by (simp add: Trie_inv_def)
  have "collect (Trie_size T + 1) \<lparr> cur = Some (leftmost (root T) []), iroot = ipnet_default \<rparr>
      = Inr (some_entries (postorder (root T)))"
    using False ok block_default trie_ok_keys_wf [OF ok] length_postorder [OF assms]
    by (intro collect_subtree) (simp_all add: leaves_def)
  then show ?thesis using False by (simp add: Trie_begin_def subtree_iter_def post_begin_def)
qed

subsection \<open>The subtree of a key\<close>

fun frame_key :: "'p frame \<Rightarrow> ipnet" where
  "frame_key (InLeft y q r) = y"
| "frame_key (InRight y q l) = y"

definition above :: "ipnet \<Rightarrow> 'p frame list \<Rightarrow> bool" where
  "above key fs \<longleftrightarrow> (case fs of [] \<Rightarrow> True | f # _ \<Rightarrow> net_block key \<subset> net_block (frame_key f))"

definition subtree_spec :: "ipnet \<Rightarrow> 'p trie \<Rightarrow> 'p frame list \<Rightarrow> 'p loc option \<Rightarrow> 'p loc option \<Rightarrow> bool" where
  "subtree_spec key t fs cand found \<longleftrightarrow>
     (found = cand \<and> (\<forall>y \<in> keys t. \<not> net_block y \<subseteq> net_block key)) \<or>
     (\<exists>S gs. found = Some (S, gs) \<and> S \<noteq> Null \<and> zip_up S gs = zip_up t fs \<and> above key gs \<and>
        net_block (k S) \<subseteq> net_block key \<and> (\<forall>y \<in> keys t. net_block y \<subseteq> net_block key \<longrightarrow> y \<in> keys S))"

lemma child_within_ok:
  "trie_ok t \<Longrightarrow> wf_net key \<Longrightarrow> child_within key t = Inr (t \<noteq> Null \<and> net_block (k t) \<subseteq> net_block key)"
  by (cases t) (simp_all add: ipnet_contains_ok)

lemma key_in_one_half:
  assumes "wf_net key" "wf_net y" "net_block key \<subset> net_block y" "in_left a y" "in_right b y"
  shows "\<not> (net_block a \<subseteq> net_block key \<and> net_block b \<subseteq> net_block key)"
  using strict_subnet_half [OF assms(1-3)] in_left_right_disjoint [OF assms(2), of key b]
    in_left_right_disjoint [OF assms(2,4), of key] assms(5) net_block_not_empty(1) [of a] net_block_not_empty(1) [of b]
  by blast

lemma child_keys_outside:
  assumes "trie_ok t" "t \<noteq> Null" "wf_net key" "y \<in> keys t" "net_block y \<subseteq> net_block key"
  shows "net_block key \<subset> net_block (k t) \<or> net_block (k t) \<subseteq> net_block key"
proof -
  have "net_block y \<subseteq> net_block (k t)" using keys_within_k [OF assms(1,4)] .
  moreover have "wf_net (k t)" using trie_ok_keys_wf [OF assms(1)] assms(2) by simp
  ultimately show ?thesis
    using net_nested_or_disjoint [OF assms(3) \<open>wf_net (k t)\<close>] net_nested_or_disjoint [OF \<open>wf_net (k t)\<close> assms(3)]
      assms(5) net_block_not_empty(1) [of y] by (metis Int_greatest linear psubsetI subset_empty)
qed

lemma block_in_disjoint: "A \<inter> B = {} \<Longrightarrow> net_block z \<subseteq> A \<Longrightarrow> net_block z \<subseteq> B \<Longrightarrow> False"
  using net_lo_in_block [of z] by blast

lemma subtree_spec_child:
  assumes "subtree_spec key c (f # fs) cand found" "zip_up c (f # fs) = zip_up t fs"
    and "\<And>z. z \<in> keys t \<Longrightarrow> net_block z \<subseteq> net_block key \<Longrightarrow> z \<in> keys c"
  shows "subtree_spec key t fs cand found"
  using assms unfolding subtree_spec_def by auto

lemma subtree_spec_here:
  assumes "c \<noteq> Null" "zip_up c (f # fs) = zip_up t fs" "above key (f # fs)" "net_block (k c) \<subseteq> net_block key"
    and "\<And>z. z \<in> keys t \<Longrightarrow> net_block z \<subseteq> net_block key \<Longrightarrow> z \<in> keys c"
  shows "subtree_spec key t fs cand (Some (c, f # fs))"
  using assms unfolding subtree_spec_def by blast

lemma find_subtree_loop_ok:
  assumes key: "wf_net key"
  shows "trie_ok t \<Longrightarrow> t \<noteq> Null \<Longrightarrow> net_block key \<subseteq> net_block (k t) \<Longrightarrow> above key fs \<Longrightarrow>
    \<exists>found. find_subtree_loop key t fs cand = Inr found \<and> subtree_spec key t fs cand found"
proof (induction t arbitrary: fs)
  case (Node y q l r)
  let ?t = "Node y q l r"
  have y: "wf_net y" "trie_ok l" "trie_ok r" and ky: "net_block key \<subseteq> net_block y" using Node.prems by simp_all
  have kl: "wf_net (k l)" if "l \<noteq> Null" using that y trie_ok_keys_wf [of l "k l"] by simp
  have kr: "wf_net (k r)" if "r \<noteq> Null" using that y trie_ok_keys_wf [of r "k r"] by simp
  show ?case
  proof (cases "net_block y \<subseteq> net_block key")
    case True
    then have "subtree_spec key ?t fs cand (Some (?t, fs))"
      using Node.prems unfolding subtree_spec_def by auto
    then show ?thesis using True ky y key by (simp add: ipnet_contains_ok)
  next
    case False
    then have strict: "net_block key \<subset> net_block y" using ky by blast
    have upl: "above key (InLeft y q r # fs)" "above key (InRight y q l # fs)" using strict by (simp_all add: above_def)
    have step: "find_subtree_loop key ?t fs cand =
        (if l \<noteq> Null \<and> net_block key \<subseteq> net_block (k l) then find_subtree_loop key l (InLeft y q r # fs) cand
         else if r \<noteq> Null \<and> net_block key \<subseteq> net_block (k r) then find_subtree_loop key r (InRight y q l # fs) cand
         else if l \<noteq> Null \<and> net_block (k l) \<subseteq> net_block key then Inr (Some (l, InLeft y q r # fs))
         else if r \<noteq> Null \<and> net_block (k r) \<subseteq> net_block key then Inr (Some (r, InRight y q l # fs))
         else Inr cand)"
      using ky False y key by (simp add: ipnet_contains_ok child_contains_ok child_within_ok)
    have one: "\<not> (z \<in> keys r \<and> net_block z \<subseteq> net_block key)" if "a \<in> keys l" "net_block a \<subseteq> net_block key" for a z
      using that key_in_one_half [OF key y(1) strict, of a z] Node.prems(1) by auto
    have two: "\<not> (z \<in> keys r \<and> net_block z \<subseteq> net_block key)" if l: "l \<noteq> Null" "net_block key \<subseteq> net_block (k l)" for z
    proof
      assume z: "z \<in> keys r \<and> net_block z \<subseteq> net_block key"
      then have "net_block (k l) \<inter> net_block z = {}" using in_left_right_disjoint [OF y(1)] l(1) Node.prems(1) by auto
      moreover have "net_block z \<subseteq> net_block (k l)" using z l(2) by (blast intro: subset_trans)
      ultimately show False using block_in_disjoint by blast
    qed
    have three: "\<not> (z \<in> keys l \<and> net_block z \<subseteq> net_block key)" if r: "r \<noteq> Null" "net_block key \<subseteq> net_block (k r)" for z
    proof
      assume z: "z \<in> keys l \<and> net_block z \<subseteq> net_block key"
      then have "net_block z \<inter> net_block (k r) = {}" using in_left_right_disjoint [OF y(1)] r(1) Node.prems(1) by auto
      moreover have "net_block z \<subseteq> net_block (k r)" using z r(2) by (blast intro: subset_trans)
      ultimately show False using block_in_disjoint by blast
    qed
    have four: "net_block key \<subset> net_block (k l) \<or> net_block (k l) \<subseteq> net_block key" if "z \<in> keys l" "net_block z \<subseteq> net_block key" for z
    proof -
      have "l \<noteq> Null" using that by auto
      from child_keys_outside [OF y(2) this key that] show ?thesis .
    qed
    have five: "net_block key \<subset> net_block (k r) \<or> net_block (k r) \<subseteq> net_block key" if "z \<in> keys r" "net_block z \<subseteq> net_block key" for z
    proof -
      have "r \<noteq> Null" using that by auto
      from child_keys_outside [OF y(3) this key that] show ?thesis .
    qed
    consider (a) "l \<noteq> Null" "net_block key \<subseteq> net_block (k l)"
      | (b) "\<not> (l \<noteq> Null \<and> net_block key \<subseteq> net_block (k l))" "r \<noteq> Null" "net_block key \<subseteq> net_block (k r)"
      | (c) "\<not> (l \<noteq> Null \<and> net_block key \<subseteq> net_block (k l))" "\<not> (r \<noteq> Null \<and> net_block key \<subseteq> net_block (k r))"
          "l \<noteq> Null" "net_block (k l) \<subseteq> net_block key"
      | (d) "\<not> (l \<noteq> Null \<and> net_block key \<subseteq> net_block (k l))" "\<not> (r \<noteq> Null \<and> net_block key \<subseteq> net_block (k r))"
          "\<not> (l \<noteq> Null \<and> net_block (k l) \<subseteq> net_block key)" "r \<noteq> Null" "net_block (k r) \<subseteq> net_block key"
      | (e) "\<not> (l \<noteq> Null \<and> net_block key \<subseteq> net_block (k l))" "\<not> (r \<noteq> Null \<and> net_block key \<subseteq> net_block (k r))"
          "\<not> (l \<noteq> Null \<and> net_block (k l) \<subseteq> net_block key)" "\<not> (r \<noteq> Null \<and> net_block (k r) \<subseteq> net_block key)"
      by blast
    then show ?thesis
    proof cases
      case a
      obtain found where f: "find_subtree_loop key l (InLeft y q r # fs) cand = Inr found"
        "subtree_spec key l (InLeft y q r # fs) cand found" using Node.IH(1) [OF y(2) a upl(1)] by blast
      have "subtree_spec key ?t fs cand found"
        by (rule subtree_spec_child [OF f(2)]) (use two [OF a] False in auto)
      then show ?thesis using f(1) a unfolding step by auto
    next
      case b
      obtain found where f: "find_subtree_loop key r (InRight y q l # fs) cand = Inr found"
        "subtree_spec key r (InRight y q l # fs) cand found" using Node.IH(2) [OF y(3) b(2,3) upl(2)] by blast
      have "subtree_spec key ?t fs cand found"
        by (rule subtree_spec_child [OF f(2)]) (use three [OF b(2,3)] False in auto)
      then show ?thesis using f(1) b unfolding step by auto
    next
      case c
      have "subtree_spec key ?t fs cand (Some (l, InLeft y q r # fs))"
        by (rule subtree_spec_here) (use c one [of "k l"] upl False in auto)
      then show ?thesis using c unfolding step by auto
    next
      case d
      have "subtree_spec key ?t fs cand (Some (r, InRight y q l # fs))"
        by (rule subtree_spec_here) (use d four upl False in \<open>auto simp: psubset_eq\<close>)
      then show ?thesis using d unfolding step by auto
    next
      case e
      have "subtree_spec key ?t fs cand cand"
        using e four five False unfolding subtree_spec_def psubset_eq by auto
      then show ?thesis using e unfolding step by auto
    qed
  qed
qed simp

lemma find_subtree_ok:
  assumes "trie_ok t" "t \<noteq> Null" "wf_net key"
  shows "\<exists>found. find_subtree key t = Inr found \<and> subtree_spec key t [] None found"
proof (cases "net_block key \<subseteq> net_block (k t)")
  case True
  let ?c = "if net_block (k t) \<subseteq> net_block key then Some (t, []) else None"
  have "above key []" by (simp add: above_def)
  from find_subtree_loop_ok [OF assms(3,1,2) True this, of ?c]
  obtain found where f: "find_subtree_loop key t [] ?c = Inr found" "subtree_spec key t [] ?c found" by blast
  have "subtree_spec key t [] None found"
    using f(2) k_in_keys [OF assms(2)] unfolding subtree_spec_def by (auto split: if_splits)
  then show ?thesis using f(1) assms by (simp add: find_subtree_def child_within_ok)
next
  case False
  let ?c = "if net_block (k t) \<subseteq> net_block key then Some (t, []) else None"
  obtain y q l r where t: "t = Node y q l r" using assms(2) by (cases t) auto
  have "find_subtree_loop key t [] ?c = Inr ?c"
    using False assms t by (simp add: ipnet_contains_ok)
  moreover have "\<not> net_block z \<subseteq> net_block key" if "\<not> net_block (k t) \<subseteq> net_block key" "z \<in> keys t" for z
    using child_keys_outside [OF assms(1,2,3) that(2)] that(1) False by blast
  then have "subtree_spec key t [] None ?c"
    using assms keys_within_k [OF assms(1)] unfolding subtree_spec_def by (auto simp: above_def)
  ultimately show ?thesis using assms by (simp add: find_subtree_def child_within_ok)
qed

lemma above_leaves:
  assumes ok: "trie_ok (zip_up S gs)" and S: "S \<noteq> Null" "net_block (k S) \<subseteq> net_block key" and key: "wf_net key" "above key gs"
  shows "leaves key S gs"
proof (cases gs)
  case (Cons f fs)
  have strict: "net_block key \<subset> net_block (frame_key f)" using key(2) Cons by (simp add: above_def)
  show ?thesis
  proof (cases f)
    case (InLeft y q r)
    have okN: "trie_ok (Node y q S r)" using ok Cons InLeft zip_up_trie_ok [of "Node y q S r" fs] by simp
    show ?thesis
    proof (cases "r = Null")
      case False
      obtain n hs where n: "leftmost r (InRight y q S # fs) = (n, hs)" by fastforce
      obtain hs' where "leftmost r [] = (n, hs')" using leftmost_append [of r "[]" "InRight y q S # fs"] n by (cases "leftmost r []") auto
      then have "n \<noteq> Null" "zip_up n hs' = r" using leftmost_spec [OF False] by auto
      then have "k n \<in> keys r" using zip_up_keys [of n hs'] by (auto intro: k_in_keys)
      then have "in_right (k n) y" "in_left (k S) y" "wf_net y" using okN S(1) by auto
      then have "\<not> net_block (k n) \<subseteq> net_block key"
        using key_in_one_half [OF key(1) _ _, of y "k S" "k n"] strict S(2) InLeft by auto
      then show ?thesis using n False Cons InLeft by (simp add: leaves_def)
    qed (use strict Cons InLeft in \<open>auto simp: leaves_def\<close>)
  qed (use strict Cons in \<open>auto simp: leaves_def\<close>)
qed (simp add: leaves_def)

lemma post_begin_above:
  assumes "trie_ok (zip_up S gs)" "S \<noteq> Null" "wf_net key" "above key gs"
  shows "post_begin key (S, gs) = Inr (leftmost S gs)"
proof (cases gs)
  case (Cons f fs)
  have "wf_net (frame_key f)"
  proof (cases f)
    case (InLeft y q r)
    then show ?thesis using zip_up_trie_ok [of "Node y q S r" fs] assms(1) Cons by simp
  next
    case (InRight y q l)
    then show ?thesis using zip_up_trie_ok [of "Node y q l S" fs] assms(1) Cons by simp
  qed
  then have "ipnet_contains key (frame_key f) = Inr False"
    using assms(3,4) Cons by (auto simp: ipnet_contains_ok above_def)
  then show ?thesis using Cons by (cases f) (simp_all add: post_begin_def)
qed (simp add: post_begin_def)

lemma Trie_search_subtree_collect:
  assumes T: "Trie_inv T" and key: "wf_net key"
  shows "\<exists>it es. Trie_search_subtree T key = Inr it \<and> collect (Trie_size T + 1) it = Inr (some_entries es) \<and>
    sorted_wrt (\<lambda>a b. ipnet_less (fst a) (fst b) = Inr True) es \<and> distinct (map fst es) \<and>
    map_of es = Trie_map T |` {y. net_block y \<subseteq> net_block key}"
proof (cases "root T = Null")
  case True
  then show ?thesis
    by (intro exI [of _ "exact_iter None"] exI [of _ "[]"]) (simp add: Trie_search_subtree_def some_entries_def Trie_map_def)
next
  case ne: False
  have ok: "trie_ok (root T)" using T by (simp add: Trie_inv_def)
  obtain found where f: "find_subtree key (root T) = Inr found" "subtree_spec key (root T) [] None found"
    using find_subtree_ok [OF ok ne key] by blast
  from f(2) consider "found = None" "\<forall>y \<in> keys (root T). \<not> net_block y \<subseteq> net_block key"
    | S gs where "found = Some (S, gs)" "S \<noteq> Null" "zip_up S gs = root T" "above key gs"
        "net_block (k S) \<subseteq> net_block key" "\<forall>y \<in> keys (root T). net_block y \<subseteq> net_block key \<longrightarrow> y \<in> keys S"
    unfolding subtree_spec_def by auto
  then show ?thesis
  proof cases
    case 1
    have "Trie_map T |` {y. net_block y \<subseteq> net_block key} = Map.empty"
      using 1(2) by (intro ext) (auto simp: restrict_map_def Trie_map_def intro!: entries_None)
    then show ?thesis
      using 1 f(1) ne by (intro exI [of _ "\<lparr> cur = None, iroot = key \<rparr>"] exI [of _ "[]"])
        (simp add: Trie_search_subtree_def subtree_iter_def some_entries_def)
  next
    case (2 S gs)
    have z: "trie_ok (zip_up S gs)" using ok 2(3) by simp
    have S: "trie_ok S" using zip_up_trie_ok [OF z] .
    have it: "Trie_search_subtree T key = Inr \<lparr> cur = Some (leftmost S gs), iroot = key \<rparr>"
      using f(1) 2 ne post_begin_above [OF z 2(2) key 2(4)] by (simp add: Trie_search_subtree_def subtree_iter_def)
    have keysS: "\<forall>y \<in> keys S. net_block y \<subseteq> net_block key"
      using keys_within_k [OF S] 2(5) by blast
    have m: "map_of (postorder S) = Trie_map T |` {y. net_block y \<subseteq> net_block key}"
    proof
      fix y
      have "entries S y = Trie_map T y" if "net_block y \<subseteq> net_block key"
      proof (cases "net_block y \<subseteq> net_block (k S)")
        case True
        then show ?thesis using entries_zip_within [OF z 2(2)] 2(3) by (simp add: Trie_map_def)
      next
        case False
        then have "y \<notin> keys S" using keys_within_k [OF S] by blast
        then have "y \<notin> keys (root T)" using 2(6) that by blast
        with \<open>y \<notin> keys S\<close> show ?thesis by (simp add: entries_None Trie_map_def)
      qed
      moreover have "entries S y = None" if "\<not> net_block y \<subseteq> net_block key"
        using keysS that by (intro entries_None) blast
      ultimately show "map_of (postorder S) y = (Trie_map T |` {y. net_block y \<subseteq> net_block key}) y"
        by (simp add: restrict_map_def entries_def [symmetric])
    qed
    have "length (postorder S) = card (dom (map_of (postorder S)))"
      using distinct_card [OF postorder_distinct [OF S]] by (simp add: dom_map_of_conv_image_fst)
    also have "\<dots> \<le> card (dom (Trie_map T))" unfolding m by (intro card_mono) auto
    finally have "length (postorder S) < Trie_size T + 1" using T by (simp add: Trie_inv_def Trie_size_def)
    from collect_subtree [OF key z 2(2) keysS above_leaves [OF z 2(2,5) key 2(4)] this]
    show ?thesis using it m postorder_sorted [OF S] postorder_distinct [OF S] by blast
  qed
qed

subsection \<open>Properties\<close>

text \<open>
  C11: the iteration from \<open>begin\<close> ends, visits every entry of the trie exactly once, and visits the
  prefixes in strictly ascending order of \<open>IPNet::operator<\<close>.
\<close>

theorem Trie_iteration_complete:
  assumes "Trie_inv T"
  shows "\<exists>it es. Trie_begin T = Inr it \<and> collect (Trie_size T + 1) it = Inr (some_entries es) \<and>
    map_of es = Trie_map T \<and> length es = Trie_size T \<and>
    sorted_wrt (\<lambda>a b. ipnet_less (fst a) (fst b) = Inr True) es"
  using Trie_begin_collect [OF assms] length_postorder [OF assms] postorder_sorted [of "root T"] assms
  by (auto simp: Trie_inv_def Trie_map_def entries_def)

lemma one_route_trie:
  obtains T where "Trie_insert Trie_empty (example_net 0x0a000000 8) (7::nat) = Inr T" "Trie_inv T"
    "Trie_map T = [example_net 0x0a000000 8 \<mapsto> 7]" "Trie_size T = 1"
proof -
  have "wf_net (example_net 0x0a000000 8)" by (simp add: example_net_wf)
  then obtain T where "Trie_insert Trie_empty (example_net 0x0a000000 8) (7::nat) = Inr T" "Trie_inv T"
    "Trie_map T = [example_net 0x0a000000 8 \<mapsto> 7]" using Trie_insert_ok [of Trie_empty _ 7] by auto
  then show ?thesis using that by (simp add: Trie_inv_def Trie_size_def)
qed

lemma one_entry: "map_of es = [y \<mapsto> p] \<Longrightarrow> length es = 1 \<Longrightarrow> es = [(y, p)]"
proof -
  assume m: "map_of es = [y \<mapsto> p]" and "length es = 1"
  then obtain a b where es: "es = [(a, b)]" by (cases es) auto
  have "(if y = a then Some b else None) = Some p" using fun_cong [OF m, of y] unfolding es by simp
  then show ?thesis using es by (simp split: if_splits)
qed

theorem Trie_iteration_complete_witness:
  "\<exists>T it. Trie_insert Trie_empty (example_net 0x0a000000 8) (7::nat) = Inr T \<and> Trie_begin T = Inr it \<and>
    collect 2 it = Inr [(example_net 0x0a000000 8, Some 7)]"
proof -
  obtain T where T: "Trie_insert Trie_empty (example_net 0x0a000000 8) (7::nat) = Inr T" "Trie_inv T"
    "Trie_map T = [example_net 0x0a000000 8 \<mapsto> 7]" "Trie_size T = 1" by (rule one_route_trie)
  from Trie_iteration_complete [OF T(2)] obtain it es where it: "Trie_begin T = Inr it"
    "collect (Trie_size T + 1) it = Inr (some_entries es)" "map_of es = Trie_map T" "length es = Trie_size T" by blast
  then have "es = [(example_net 0x0a000000 8, 7)]" using T by (intro one_entry) simp_all
  then show ?thesis using T(1,4) it by (simp add: some_entries_def numeral_2_eq_2)
qed

text \<open>
  C25: the iteration from \<open>search_subtree\<close> visits, in ascending order, exactly the entries whose prefix
  is contained in the key.
\<close>

theorem Trie_search_subtree_complete:
  assumes "Trie_inv T" "wf_net key"
  shows "\<exists>it es. Trie_search_subtree T key = Inr it \<and> collect (Trie_size T + 1) it = Inr (some_entries es) \<and>
    sorted_wrt (\<lambda>a b. ipnet_less (fst a) (fst b) = Inr True) es \<and>
    (\<forall>y p. (y, p) \<in> set es \<longleftrightarrow> Trie_map T y = Some p \<and> ipnet_contains key y = Inr True)"
proof -
  obtain it es where es: "Trie_search_subtree T key = Inr it" "collect (Trie_size T + 1) it = Inr (some_entries es)"
    "sorted_wrt (\<lambda>a b. ipnet_less (fst a) (fst b) = Inr True) es" "distinct (map fst es)"
    "map_of es = Trie_map T |` {y. net_block y \<subseteq> net_block key}"
    using Trie_search_subtree_collect [OF assms] by blast
  have "(y, p) \<in> set es \<longleftrightarrow> Trie_map T y = Some p \<and> ipnet_contains key y = Inr True" for y p
  proof -
    have "(y, p) \<in> set es \<longleftrightarrow> map_of es y = Some p" using es(4) by (simp add: map_of_eq_Some_iff)
    moreover have "ipnet_contains key y = Inr (net_block y \<subseteq> net_block key)" if "Trie_map T y = Some p"
      using that Trie_map_wf [OF assms(1), of y] assms(2) by (simp add: ipnet_contains_ok domI)
    ultimately show ?thesis using es(5) by (auto simp: restrict_map_def)
  qed
  then show ?thesis using es(1-3) by blast
qed

theorem Trie_search_subtree_complete_witness:
  "\<exists>T it es. Trie_insert Trie_empty (example_net 0x0a000000 8) (7::nat) = Inr T \<and>
    Trie_search_subtree T (example_net 0x0a000000 7) = Inr it \<and> collect 2 it = Inr (some_entries es) \<and>
    (example_net 0x0a000000 8, 7) \<in> set es"
proof -
  let ?n = "example_net 0x0a000000 8" and ?key = "example_net 0x0a000000 7"
  obtain T where T: "Trie_insert Trie_empty ?n (7::nat) = Inr T" "Trie_inv T"
    "Trie_map T = [?n \<mapsto> 7]" "Trie_size T = 1" by (rule one_route_trie)
  have wf: "wf_net ?n" "wf_net ?key" by (simp_all add: example_net_wf)
  then have "ipnet_contains ?key ?n = Inr True" by (simp add: ipnet_contains_ok net_subset_bounds)
  moreover have sz: "Trie_size T + 1 = 2" using T(4) by simp
  moreover obtain it es where "Trie_search_subtree T ?key = Inr it" "collect 2 it = Inr (some_entries es)"
    "\<forall>y p. (y, p) \<in> set es \<longleftrightarrow> Trie_map T y = Some p \<and> ipnet_contains ?key y = Inr True"
    using Trie_search_subtree_complete [OF T(2) wf(2)] unfolding sz by blast
  moreover have "Trie_map T ?n = Some 7" using T(3) by simp
  ultimately show ?thesis using T(1) by blast
qed

text \<open>Two small tries, as insertion builds them.\<close>

definition leaf :: "ipnet \<Rightarrow> nat trie" where
  "leaf n = Node n (Some 1) Null Null"

definition bounds_example :: "nat Trie" where
  "bounds_example = \<lparr> root = Node (net_of 0 0) (Some 0)
      (Node (net_of 0x0a000000 8) None (leaf (net_of 0x0a000000 16)) (leaf (net_of 0x0a800000 16)))
      (leaf (net_of 0xc0000000 8)),
     payload_count = 4 \<rparr>"

definition lower_bound_example :: "nat Trie" where
  "lower_bound_example = \<lparr> root = Node (net_of 0 3) None
      (Node (net_of 0x0a000000 8) None (leaf (net_of 0x0a000000 16)) (leaf (net_of 0x0a800000 16)))
      (Node (net_of 0x14000000 8) None (leaf (net_of 0x14000000 16)) (leaf (net_of 0x14800000 16))),
     payload_count = 4 \<rparr>"

lemma hval_masked_addr: "hval (masked_addr n) = net_lo n"
  by (simp add: net_lo_def)

lemmas halves_eval = in_left_def in_right_def left_half_def right_half_def net_subset_bounds

lemma examples_ok: "trie_ok (root bounds_example)" "trie_ok (root lower_bound_example)"
  by (simp_all add: bounds_example_def lower_bound_example_def leaf_def halves_eval)

lemma net_of_eq_iff:
  "m \<le> 32 \<Longrightarrow> n \<le> 32 \<Longrightarrow> v < 4294967296 \<Longrightarrow> w < 4294967296 \<Longrightarrow>
    net_of v m = net_of w n \<longleftrightarrow> m = n \<and> v div 2 ^ (32 - m) = w div 2 ^ (32 - n)"
  by (metis plen_net_of net_lo_net_of ipnet_eqI nonzero_mult_div_cancel_right power_not_zero zero_neq_numeral)

lemma bounds_example_map: "Trie_map bounds_example = [net_of 0 0 \<mapsto> 0, net_of 0x0a000000 16 \<mapsto> 1, net_of 0x0a800000 16 \<mapsto> 1, net_of 0xc0000000 8 \<mapsto> 1]"
  unfolding Trie_map_def bounds_example_def leaf_def entries_def
  by (simp add: net_of_eq_iff fun_eq_iff)

lemma lower_bound_example_map: "Trie_map lower_bound_example =
    [net_of 0x0a000000 16 \<mapsto> 1, net_of 0x0a800000 16 \<mapsto> 1, net_of 0x14000000 16 \<mapsto> 1, net_of 0x14800000 16 \<mapsto> 1]"
  unfolding Trie_map_def lower_bound_example_def leaf_def entries_def
  by (simp add: net_of_eq_iff fun_eq_iff)

lemma examples_inv: "Trie_inv bounds_example" "Trie_inv lower_bound_example"
  using examples_ok unfolding Trie_inv_def bounds_example_map lower_bound_example_map
  by (simp_all add: net_of_eq_iff) (simp_all add: bounds_example_def lower_bound_example_def)

lemma find_host:
  "node_find (net_of 180879361 32) (root bounds_example) = Inr (Some (root bounds_example, []))"
  "node_find (net_of 3221225473 32) (root bounds_example) = Inr (Some (leaf (net_of 0xc0000000 8), [InRight (net_of 0 0) (Some 0) (left (root bounds_example))]))"
  by (simp_all add: node_find_def bounds_example_def leaf_def Let_def ipnet_contains_ok net_subset_bounds)

lemma find_bounds_eval: "\<exists>lo hi. Trie_find_bounds bounds_example (of_hval 0x0ac80001) = Inr (lo, hi) \<and>
   hval lo = 0x0a810000 \<and> hval hi = 0xffffffff"
  unfolding Trie_find_bounds_def node_find_bounds_def
  by (simp add: mk_ipnet_eq find_host del: res_bind_Inr_iff)
    (simp add: bounds_example_def top_addr_ok net_hi_def leaf_def Let_def less_ipv4_iff less_eq_ipv4_iff
      hval_masked_addr hval_inc del: res_bind_Inr_iff res_map_Inr_iff)

lemma lower_bound_eval:
  "\<exists>it. Trie_lower_bound lower_bound_example (net_of 0x14000000 8) = Inr it \<and> iter_entry it = Some (net_of 0x0a800000 16, 1)"
  unfolding Trie_lower_bound_def node_lower_bound_def
  by (simp add: lower_bound_example_def leaf_def Let_def ipnet_contains_ok net_subset_bounds del: res_bind_Inr_iff res_map_Inr_iff)
    (simp add: subtree_iter_def post_begin_def iter_next_def ipnet_contains_ok block_default iter_entry_def
      del: res_bind_Inr_iff res_map_Inr_iff)

text \<open>
  \<open>find_bounds\<close> can return a range that is too wide: on the well-formed trie with the routes
  0.0.0.0/0, 10.0.0.0/16, 10.128.0.0/16 and 192.0.0.0/8, the range returned for the address 10.200.0.1
  contains 192.0.0.1, which matches another route.
\<close>

theorem find_bounds_too_wide:
  "Trie_inv bounds_example \<and>
   (\<exists>lo hi. Trie_find_bounds bounds_example (of_hval 0x0ac80001) = Inr (lo, hi) \<and>
      lo \<le> of_hval 0xc0000001 \<and> of_hval 0xc0000001 \<le> hi) \<and>
   table_best bounds_example (net_of 0x0ac80001 32) = Inr (Some (net_of 0 0, 0)) \<and>
   table_best bounds_example (net_of 0xc0000001 32) = Inr (Some (net_of 0xc0000000 8, 1))"
proof (intro conjI)
  show "\<exists>lo hi. Trie_find_bounds bounds_example (of_hval 0x0ac80001) = Inr (lo, hi) \<and>
      lo \<le> of_hval 0xc0000001 \<and> of_hval 0xc0000001 \<le> hi"
    using find_bounds_eval by (auto simp: less_eq_ipv4_iff)
  show "table_best bounds_example (net_of 0x0ac80001 32) = Inr (Some (net_of 0 0, 0))"
    "table_best bounds_example (net_of 0xc0000001 32) = Inr (Some (net_of 0xc0000000 8, 1))"
    by (simp_all add: table_best_def Trie_find_def find_host)
      (simp_all add: bounds_example_def leaf_def iter_entry_def)
qed (rule examples_inv)

text \<open>
  \<open>lower_bound\<close> on the key of a node without payload can return an entry that precedes the key:
  on the well-formed trie with the routes 10.0.0.0/16, 10.128.0.0/16, 20.0.0.0/16 and 20.128.0.0/16 the
  lower bound of 20.0.0.0/8 is 10.128.0.0/16.
\<close>

theorem lower_bound_precedes_key:
  "Trie_inv lower_bound_example \<and>
   (\<exists>it. Trie_lower_bound lower_bound_example (net_of 0x14000000 8) = Inr it \<and>
      iter_entry it = Some (net_of 0x0a800000 16, 1)) \<and>
   ipnet_less (net_of 0x0a800000 16) (net_of 0x14000000 8) = Inr True"
  using examples_inv(2) lower_bound_eval by (simp add: ipnet_less_ok net_hi_def)

end
