(* ===== verification/As_Number.thy ===== *)
theory As_Number
  imports Decimal
begin

text \<open>
  Autonomous system numbers (\<open>class AsNum\<close> of \<open>libxorp/asnum.hh\<close>): a 32-bit value with the
  two-byte view \<open>as()\<close> that replaces an extended number by \<open>AS_TRAN\<close>, the raw copies in network
  order, and the text forms \<open>%u\<close> and \<open>%u.%u\<close> with the constructor that reads them.
\<close>

datatype as_num = AsNum (as4: u32)

definition AS_INVALID :: u16 where "AS_INVALID = 0"
definition AS_TRAN :: u16 where "AS_TRAN = 23456"

definition AsNum_uint16 :: "u16 \<Rightarrow> as_num" where
  "AsNum_uint16 v = AsNum (ucast v)"

definition AsNum_int :: "int \<Rightarrow> as_num res" where
  "AsNum_int v = (if 0 \<le> v \<and> v \<le> 0xffff then Inr (AsNum (of_int v)) else Inl Abort)"

fun AsNum_bytes :: "u8 list \<Rightarrow> as_num res" where
  "AsNum_bytes (a # b # ds) = Inr (AsNum (push_bit 8 (ucast a) + ucast b))"
| "AsNum_bytes ds = Inl OutOfBounds"

fun AsNum_bytes_fourbyte :: "u8 list \<Rightarrow> bool \<Rightarrow> as_num res" where
  "AsNum_bytes_fourbyte (a # b # c # d # ds) True = Inr (AsNum (htonl (of_le_bytes a b c d)))"
| "AsNum_bytes_fourbyte ds True = Inl OutOfBounds"
| "AsNum_bytes_fourbyte ds False = AsNum_bytes ds"

definition extended :: "as_num \<Rightarrow> bool" where
  "extended n \<longleftrightarrow> as4 n > 0xffff"

definition as_of :: "as_num \<Rightarrow> u16" where
  "as_of n = (if extended n then AS_TRAN else ucast (as4 n))"

definition as_copy_out :: "as_num \<Rightarrow> u8 list" where
  "as_copy_out n = (let x = as_of n in [ucast (drop_bit 8 x AND 0xff), ucast (x AND 0xff)])"

definition as_copy_out4 :: "as_num \<Rightarrow> u8 list" where
  "as_copy_out4 n = le_bytes (htonl (as4 n))"

text \<open>The order of AS numbers is \<open>operator<\<close>: the numeric order of the 32-bit values.\<close>

definition as_less :: "as_num \<Rightarrow> as_num \<Rightarrow> bool" where
  "as_less a b \<longleftrightarrow> as4 a < as4 b"

instantiation as_num :: linorder
begin

definition less_as_num :: "as_num \<Rightarrow> as_num \<Rightarrow> bool" where
  "less_as_num a b \<longleftrightarrow> as_less a b"

definition less_eq_as_num :: "as_num \<Rightarrow> as_num \<Rightarrow> bool" where
  "less_eq_as_num a b \<longleftrightarrow> as4 a \<le> as4 b"

instance
  by standard (auto simp: less_as_num_def as_less_def less_eq_as_num_def as_num.expand)

end

subsection \<open>Text forms\<close>

definition as_dotted :: "as_num \<Rightarrow> string" where
  "as_dotted n = dec (unat (drop_bit 16 (as4 n) AND 0xffff)) @ ''.'' @ dec (unat (as4 n AND 0xffff))"

definition as_short_str :: "as_num \<Rightarrow> string" where
  "as_short_str n = (if extended n then as_dotted n else dec (unat (as4 n)))"

definition as_str :: "as_num \<Rightarrow> string" where
  "as_str n = ''AS/'' @ as_short_str n"

definition fourbyte_str :: "as_num \<Rightarrow> string" where
  "fourbyte_str n = as_dotted n"

text \<open>
  The scan of the constructor: it returns whether a dot was seen and whether a digit was seen
  after it. The conversions are those of the C library with a 64-bit \<open>long\<close>: \<open>strtol\<close> and
  \<open>strtoul\<close> saturate, and the results are cut to 32 bits.
\<close>

fun as_scan :: "string \<Rightarrow> bool \<Rightarrow> bool \<Rightarrow> (bool \<times> bool) option" where
  "as_scan [] four_byte seen_digit = Some (four_byte, seen_digit)"
| "as_scan (c # cs) four_byte seen_digit =
     (if c = CHR ''.'' then
        (if four_byte \<or> \<not> seen_digit then None else as_scan cs True False)
      else if \<not> is_digit c then None
      else as_scan cs four_byte True)"

definition atoi_u32 :: "string \<Rightarrow> u32" where
  "atoi_u32 s = of_int (atoi_long s)"

definition strtoul_u32 :: "string \<Rightarrow> u32" where
  "strtoul_u32 s = of_nat (min 18446744073709551615 (dec_acc 0 s))"

definition bad_as_number :: "string \<Rightarrow> xorp_error" where
  "bad_as_number s = InvalidString (''Bad AS number '' @ [char_of (34::nat)] @ s @ [char_of (34::nat)])"

definition AsNum_string :: "string \<Rightarrow> as_num res" where
  "AsNum_string s = (case as_scan s False False of
     None \<Rightarrow> Inl (bad_as_number s)
   | Some (four_byte, seen_digit) \<Rightarrow>
       if \<not> seen_digit then Inl (bad_as_number s)
       else if \<not> four_byte then
         (let v = atoi_u32 s in
          if v < 1 \<or> v > 65535 then Inl (bad_as_number s) else Inr (AsNum v))
       else
         (let upper = strtoul_u32 s; lower = strtoul_u32 (tl (dropWhile (\<lambda>c. c \<noteq> CHR ''.'') s)) in
          if upper > 65535 \<or> lower > 65535 then Inl (bad_as_number s)
          else Inr (AsNum (push_bit 16 upper OR lower))))"

subsection \<open>The two-byte view\<close>

text \<open>\<open>squash n\<close> is what a two-byte peer sees of \<open>n\<close>.\<close>

definition squash :: "as_num \<Rightarrow> as_num" where
  "squash n = AsNum (ucast (as_of n))"

lemma not_extended_iff: "\<not> extended n \<longleftrightarrow> unat (as4 n) < 65536"
  by (simp add: extended_def word_less_nat_alt not_less) linarith

lemma squash_id:
  assumes "\<not> extended n"
  shows "squash n = n"
proof -
  from assms have "unat (take_bit 16 (as4 n)) = unat (as4 n)"
    by (simp add: not_extended_iff unsigned_take_bit_eq take_bit_nat_eq_self)
  then have "take_bit 16 (as4 n) = as4 n" by (simp only: word_unat_eq_iff)
  moreover have "ucast (ucast (as4 n) :: u16) = take_bit 16 (as4 n)"
    by (rule bit_word_eqI) (auto simp: bit_simps)
  ultimately show ?thesis using assms by (simp add: squash_def as_of_def)
qed

lemma squash_extended: "extended n \<Longrightarrow> squash n = AsNum 23456"
  by (simp add: squash_def as_of_def AS_TRAN_def)

lemma not_extended_squash [simp]: "\<not> extended (squash n)"
  by (cases "extended n") (simp_all add: squash_id squash_extended, simp add: extended_def)

lemma squash_squash [simp]: "squash (squash n) = squash n"
  by (simp add: squash_id)

lemma as_of_squash [simp]: "as_of (squash n) = as_of n"
  by (cases "extended n") (simp_all add: squash_extended squash_id,
      simp add: as_of_def extended_def AS_TRAN_def)

lemma as_of_eq_iff: "as_of m = as_of n \<longleftrightarrow> squash m = squash n"
proof
  assume "squash m = squash n"
  then have "as_of (squash m) = as_of (squash n)" by simp
  then show "as_of m = as_of n" by simp
qed (simp add: squash_def)

lemma two_bytes_join: "push_bit 8 (ucast (ucast (drop_bit 8 x AND 0xff) :: u8)) + ucast (ucast (x AND 0xff) :: u8)
    = (ucast (x :: u16) :: u32)"
proof -
  have "push_bit 8 (ucast (ucast (drop_bit 8 x AND mask 8) :: u8)) + ucast (ucast (x AND mask 8) :: u8)
    = push_bit 8 (ucast (ucast (drop_bit 8 x AND mask 8) :: u8)) OR (ucast (ucast (x AND mask 8) :: u8) :: u32)"
    by (rule disjunctive_add) (auto simp: bit_simps)
  also have "\<dots> = ucast x"
    by (rule bit_word_eqI) (auto simp: bit_simps dest: bit_imp_le_length)
  finally show ?thesis by (simp add: mask_eq_exp_minus_1)
qed

lemma AsNum_bytes_copy_out [simp]: "AsNum_bytes (as_copy_out n @ ds) = Inr (squash n)"
  by (simp add: as_copy_out_def Let_def squash_def two_bytes_join)

lemma length_copy_out [simp]: "length (as_copy_out n) = 2" "length (as_copy_out4 n) = 4"
  by (simp_all add: as_copy_out_def as_copy_out4_def Let_def le_bytes_def)

lemma AsNum_bytes_copy_out4 [simp]: "AsNum_bytes_fourbyte (as_copy_out4 n @ ds) True = Inr n"
  by (simp add: as_copy_out4_def le_bytes_def)

subsection \<open>Reading back what was printed\<close>

lemma as_scan_digits:
  "list_all is_digit ds \<Longrightarrow> as_scan (ds @ cs) f seen = as_scan cs f (seen \<or> ds \<noteq> [])"
proof (induction ds arbitrary: seen)
  case (Cons d ds)
  then have "d \<noteq> CHR ''.''" by (auto simp: is_digit_def)
  with Cons show ?case by simp
qed simp

lemma dot_not_digit [simp]: "\<not> is_digit CHR ''.''"
  by (simp add: is_digit_def)

lemma strtoul_u32_dec:
  "n < 4294967296 \<Longrightarrow> cs = [] \<or> \<not> is_digit (hd cs) \<Longrightarrow> strtoul_u32 (dec n @ cs) = of_nat n"
  by (simp add: strtoul_u32_def dec_acc_append is_digit_of_digit_list)

lemma dropWhile_dotted: "dropWhile (\<lambda>c. c \<noteq> CHR ''.'') (dec n @ CHR ''.'' # cs) = CHR ''.'' # cs"
proof -
  have "\<forall>c \<in> set (dec n). c \<noteq> CHR ''.''" using dec_digits by fastforce
  then show ?thesis by (simp add: dropWhile_append1 dropWhile_append2)
qed

lemma halves_join: "push_bit 16 (drop_bit 16 w AND 0xffff) OR (w AND 0xffff) = (w :: u32)"
proof -
  have "push_bit 16 (drop_bit 16 w AND mask 16) OR (w AND mask 16) = w"
    by (rule bit_word_eqI) (auto simp: bit_simps)
  then show ?thesis by (simp add: mask_eq_exp_minus_1)
qed

lemma and_ffff_le: "unat (w AND 0xffff :: u32) \<le> 65535" "(w AND 0xffff :: u32) \<le> 65535"
proof -
  show "(w AND 0xffff :: u32) \<le> 65535" by (rule word_and_le1)
  then show "unat (w AND 0xffff :: u32) \<le> 65535" by (simp add: word_le_nat_alt)
qed

lemma AsNum_string_dotted: "AsNum_string (as_dotted n) = Inr n"
proof -
  let ?u = "drop_bit 16 (as4 n) AND 0xffff" and ?l = "as4 n AND 0xffff"
  have b: "unat ?u < 4294967296" "unat ?l < 4294967296" "?u \<le> 65535" "?l \<le> 65535"
    using and_ffff_le [of "drop_bit 16 (as4 n)"] and_ffff_le [of "as4 n"] by linarith+
  have scan: "as_scan (as_dotted n) False False = Some (True, True)"
    using as_scan_digits [OF is_digit_of_digit_list, of _ "[]" True False]
    by (simp add: as_dotted_def as_scan_digits is_digit_of_digit_list)
  have l: "tl (dropWhile (\<lambda>c. c \<noteq> CHR ''.'') (as_dotted n)) = dec (unat ?l)"
    by (simp add: as_dotted_def dropWhile_dotted)
  have u: "strtoul_u32 (as_dotted n) = ?u"
    using b strtoul_u32_dec [of "unat ?u" "''.'' @ dec (unat ?l)"] by (simp add: as_dotted_def)
  have l': "strtoul_u32 (dec (unat ?l)) = ?l"
    using b strtoul_u32_dec [of "unat ?l" "[]"] by simp
  show ?thesis
    unfolding AsNum_string_def scan Let_def u l l' using b
    by (simp only: halves_join not_less [symmetric] option.case prod.case as_num.collapse
        not_True_eq_False if_False simp_thms)
qed

lemma AsNum_string_plain:
  assumes "0 < k" "k \<le> 65535"
  shows "AsNum_string (dec k) = Inr (AsNum (of_nat k))"
proof -
  have scan: "as_scan (dec k) False False = Some (False, True)"
    using as_scan_digits [OF is_digit_of_digit_list, of k "[]" False False] by simp
  have v: "atoi_u32 (dec k) = of_nat k"
    using atoi_dec [of "[]" k] assms by (simp add: atoi_u32_def atoi_long_def)
  have "unat (of_nat k :: u32) = k"
    using assms by (simp add: unat_of_nat)
  with assms have "\<not> (of_nat k :: u32) < 1" "\<not> (of_nat k :: u32) > 65535"
    by (simp_all add: word_less_nat_alt del: unsigned_of_nat)
  then show ?thesis
    unfolding AsNum_string_def scan v Let_def by simp
qed

lemma AsNum_string_short_str:
  assumes "as4 n \<noteq> 0"
  shows "AsNum_string (as_short_str n) = Inr n"
proof (cases "extended n")
  case True
  then show ?thesis by (simp add: as_short_str_def AsNum_string_dotted)
next
  case False
  then have "unat (as4 n) \<le> 65535" by (simp add: not_extended_iff)
  moreover from assms have "0 < unat (as4 n)" by (simp add: unat_gt_0)
  ultimately show ?thesis
    using AsNum_string_plain [of "unat (as4 n)"] False by (simp add: as_short_str_def)
qed

end
