(* ===== verification/As_Path.thy ===== *)
theory As_Path
  imports As_Number "HOL-Library.Sublist"
begin

text \<open>
  BGP AS paths (\<open>bgp/aspath.hh\<close>, \<open>bgp/aspath.cc\<close>): segments of AS numbers, the path with its two
  counters \<open>_num_segments\<close> and \<open>_path_len\<close>, the two-byte wire format, the text parser, the
  comparison operators, confederation handling and aggregation. The counters are kept apart from
  the list of segments, as the code keeps them, so that an operation that forgets one of them
  shows. An index or iterator past the end of a list is the error \<open>OutOfBounds\<close>.
\<close>

subsection \<open>Segments\<close>

datatype as_seg_type = AS_NONE | AS_SET | AS_SEQUENCE | AS_CONFED_SEQUENCE | AS_CONFED_SET

fun seg_type_code :: "as_seg_type \<Rightarrow> u8" where
  "seg_type_code AS_NONE = 0"
| "seg_type_code AS_SET = 1"
| "seg_type_code AS_SEQUENCE = 2"
| "seg_type_code AS_CONFED_SEQUENCE = 3"
| "seg_type_code AS_CONFED_SET = 4"

definition UPDATEMSGERR :: nat where "UPDATEMSGERR = 3"
definition MALASPATH :: nat where "MALASPATH = 11"

definition seg_type_of_code :: "u8 \<Rightarrow> as_seg_type res" where
  "seg_type_of_code b =
     (if b = 0 then Inr AS_NONE
      else if b = 1 then Inr AS_SET
      else if b = 2 then Inr AS_SEQUENCE
      else if b = 4 then Inr AS_CONFED_SET
      else if b = 3 then Inr AS_CONFED_SEQUENCE
      else Inl (CorruptMessage UPDATEMSGERR MALASPATH []))"

record as_segment =
  seg_type :: as_seg_type
  aslist :: "as_num list"

definition new_segment :: "as_seg_type \<Rightarrow> as_segment" where
  "new_segment t = \<lparr>seg_type = t, aslist = []\<rparr>"

definition clear_segment :: "as_segment \<Rightarrow> as_segment" where
  "clear_segment s = s\<lparr>seg_type := AS_NONE, aslist := []\<rparr>"

definition set_type :: "as_segment \<Rightarrow> as_seg_type \<Rightarrow> as_segment" where
  "set_type s t = s\<lparr>seg_type := t\<rparr>"

definition seg_path_length :: "as_segment \<Rightarrow> nat" where
  "seg_path_length s =
     (if seg_type s = AS_SET \<or> seg_type s = AS_CONFED_SET then 1
      else if seg_type s = AS_SEQUENCE \<or> seg_type s = AS_CONFED_SEQUENCE then length (aslist s)
      else 0)"

definition as_size :: "as_segment \<Rightarrow> nat" where
  "as_size s = length (aslist s)"

definition add_as :: "as_segment \<Rightarrow> as_num \<Rightarrow> as_segment" where
  "add_as s n = s\<lparr>aslist := aslist s @ [n]\<rparr>"

definition seg_prepend_as :: "as_segment \<Rightarrow> as_num \<Rightarrow> as_segment" where
  "seg_prepend_as s n = s\<lparr>aslist := n # aslist s\<rparr>"

definition seg_contains :: "as_segment \<Rightarrow> as_num \<Rightarrow> bool" where
  "seg_contains s n = list_ex (\<lambda>a. a = n) (aslist s)"

definition seg_first_asnum :: "as_segment \<Rightarrow> as_num res" where
  "seg_first_asnum s = (case aslist s of [] \<Rightarrow> Inl XlogAssert | a # as \<Rightarrow> Inr a)"

definition seg_as_num :: "as_segment \<Rightarrow> nat \<Rightarrow> as_num res" where
  "seg_as_num s n = (if n < length (aslist s) then Inr (aslist s ! n) else Inl OutOfBounds)"

definition seg_wire_size :: "as_segment \<Rightarrow> nat" where
  "seg_wire_size s = 2 + 2 * length (aslist s)"

text \<open>
  \<open>decode(d)\<close> takes the type from \<open>d[0]\<close> and the count from \<open>d[1]\<close>; \<open>encode\<close> gets either no buffer
  (it allocates one) or a buffer of \<open>len\<close> bytes, which it asserts to be large enough.
\<close>

fun seg_decode_as :: "nat \<Rightarrow> u8 list \<Rightarrow> as_segment \<Rightarrow> as_segment res" where
  "seg_decode_as 0 d s = Inr s"
| "seg_decode_as (Suc n) d s = res_bind (AsNum_bytes d) (\<lambda>a. seg_decode_as n (drop 2 d) (add_as s a))"

fun seg_decode :: "u8 list \<Rightarrow> as_segment res" where
  "seg_decode (d0 # d1 # d) =
     res_bind (seg_type_of_code d0) (\<lambda>t. seg_decode_as (unat d1) d (new_segment t))"
| "seg_decode d = Inl OutOfBounds"

definition seg_encode :: "as_segment \<Rightarrow> nat option \<Rightarrow> u8 list res" where
  "seg_encode s room =
     (if \<not> length (aslist s) \<le> 255 then Inl XlogAssert
      else if (case room of None \<Rightarrow> False | Some len \<Rightarrow> \<not> len \<ge> seg_wire_size s) then Inl XlogAssert
      else Inr (seg_type_code (seg_type s) # of_nat (length (aslist s)) # concat (map as_copy_out (aslist s))))"

definition seg_encode_for_mib :: "as_segment \<Rightarrow> nat \<Rightarrow> u8 list res" where
  "seg_encode_for_mib s buf_size =
     (if \<not> buf_size \<ge> 2 + length (aslist s) * 2 then Inl XlogAssert
      else Inr (seg_type_code (seg_type s) # of_nat (length (aslist s)) # concat (map as_copy_out (aslist s))))"

definition seg_two_byte_compatible :: "as_segment \<Rightarrow> bool" where
  "seg_two_byte_compatible s = list_all (\<lambda>a. \<not> extended a) (aslist s)"

fun seg_open :: "as_seg_type \<Rightarrow> string" where
  "seg_open AS_NONE = ''''"
| "seg_open AS_SET = ''{''"
| "seg_open AS_SEQUENCE = ''[''"
| "seg_open AS_CONFED_SEQUENCE = ''(''"
| "seg_open AS_CONFED_SET = ''<''"

text \<open>
  Both printing loops put \<open>sep\<close> before each number and change it after the first one; for
  \<open>AS_NONE\<close> the second \<open>switch\<close> leaves \<open>sep\<close> as it is, so the last separator is appended.
\<close>

fun seg_close :: "as_seg_type \<Rightarrow> string \<Rightarrow> string" where
  "seg_close AS_NONE sep = sep"
| "seg_close AS_SET sep = ''}''"
| "seg_close AS_SEQUENCE sep = '']''"
| "seg_close AS_CONFED_SEQUENCE sep = '')''"
| "seg_close AS_CONFED_SET sep = ''>''"

fun seg_items :: "(as_num \<Rightarrow> string) \<Rightarrow> string \<Rightarrow> string \<Rightarrow> as_num list \<Rightarrow> string \<times> string" where
  "seg_items item sep next [] = ('''', sep)"
| "seg_items item sep next (a # as) =
     (case seg_items item next next as of (s, end_sep) \<Rightarrow> (sep @ item a @ s, end_sep))"

definition seg_str :: "as_segment \<Rightarrow> string" where
  "seg_str s = (case seg_items as_str (seg_open (seg_type s)) '', '' (aslist s) of
     (body, sep) \<Rightarrow> body @ seg_close (seg_type s) sep)"

definition seg_short_str :: "as_segment \<Rightarrow> string" where
  "seg_short_str s =
     (let sep0 = (if seg_type s = AS_SEQUENCE then '''' else seg_open (seg_type s)) in
      case seg_items as_short_str sep0 '' '' (aslist s) of
        (body, sep) \<Rightarrow> body @ (if seg_type s = AS_SEQUENCE then '''' else seg_close (seg_type s) sep))"

text \<open>The comparison operators look at the AS numbers only, not at the type of the segment.\<close>

fun as_list_eq :: "as_num list \<Rightarrow> as_num list \<Rightarrow> bool" where
  "as_list_eq (a # as) (b # bs) = (if a = b then as_list_eq as bs else False)"
| "as_list_eq _ _ = True"

definition seg_eq :: "as_segment \<Rightarrow> as_segment \<Rightarrow> bool" where
  "seg_eq s t \<longleftrightarrow> length (aslist s) = length (aslist t) \<and> as_list_eq (aslist s) (aslist t)"

fun as_list_less :: "as_num list \<Rightarrow> as_num list \<Rightarrow> bool" where
  "as_list_less (a # as) (b # bs) = (if a = b then as_list_less as bs else a < b)"
| "as_list_less _ _ = False"

definition seg_less :: "as_segment \<Rightarrow> as_segment \<Rightarrow> bool" where
  "seg_less s t =
     (if length (aslist s) < length (aslist t) then True
      else if length (aslist s) > length (aslist t) then False
      else as_list_less (aslist s) (aslist t))"

subsection \<open>Paths\<close>

record as_path =
  segments :: "as_segment list"
  num_segments :: u64
  path_len :: u64

definition empty_path :: as_path where
  "empty_path = \<lparr>segments = [], num_segments = 0, path_len = 0\<rparr>"

definition add_segment :: "as_path \<Rightarrow> as_segment \<Rightarrow> as_path" where
  "add_segment p s = p\<lparr>segments := segments p @ [s], num_segments := num_segments p + 1,
     path_len := path_len p + of_nat (seg_path_length s)\<rparr>"

definition prepend_segment :: "as_path \<Rightarrow> as_segment \<Rightarrow> as_path" where
  "prepend_segment p s = p\<lparr>segments := s # segments p, num_segments := num_segments p + 1,
     path_len := path_len p + of_nat (seg_path_length s)\<rparr>"

definition path_contains :: "as_path \<Rightarrow> as_num \<Rightarrow> bool" where
  "path_contains p n = list_ex (\<lambda>s. seg_contains s n) (segments p)"

definition path_first_asnum :: "as_path \<Rightarrow> as_num res" where
  "path_first_asnum p = (case segments p of [] \<Rightarrow> Inl XlogAssert | s # ss \<Rightarrow> seg_first_asnum s)"

definition segment :: "as_path \<Rightarrow> nat \<Rightarrow> as_segment res" where
  "segment p n =
     (if n < unat (num_segments p) then
        (if n < length (segments p) then Inr (segments p ! n) else Inl OutOfBounds)
      else Inl XlogFatal)"

definition path_str :: "as_path \<Rightarrow> string" where
  "path_str p = ''ASPath:'' @ concat (map (\<lambda>s. '' '' @ seg_str s) (segments p))"

fun path_short_items :: "as_segment list \<Rightarrow> string" where
  "path_short_items [] = ''''"
| "path_short_items (s # ss) = '' '' @ seg_short_str s @ path_short_items ss"

definition path_short_str :: "as_path \<Rightarrow> string" where
  "path_short_str p = (case segments p of [] \<Rightarrow> '''' | s # ss \<Rightarrow> seg_short_str s @ path_short_items ss)"

definition path_wire_size :: "as_path \<Rightarrow> nat" where
  "path_wire_size p = sum_list (map seg_wire_size (segments p))"

text \<open>The loop of \<open>encode\<close>, over the encoder of one segment (two-byte or four-byte numbers).\<close>

fun encode_segments :: "(as_segment \<Rightarrow> u8 list res) \<Rightarrow> as_segment list \<Rightarrow> u8 list res" where
  "encode_segments enc [] = Inr []"
| "encode_segments enc (s # ss) = res_bind (enc s) (\<lambda>b. res_map ((@) b) (encode_segments enc ss))"

definition path_encode :: "as_path \<Rightarrow> nat option \<Rightarrow> u8 list res" where
  "path_encode p room =
     (if num_segments p \<noteq> of_nat (length (segments p)) then Inl XlogAssert
      else if (case room of None \<Rightarrow> False | Some len \<Rightarrow> \<not> len \<ge> path_wire_size p) then Inl XlogAssert
      else encode_segments (\<lambda>s. seg_encode s (Some (seg_wire_size s))) (segments p))"

function path_decode_loop :: "u8 list \<Rightarrow> nat \<Rightarrow> as_path \<Rightarrow> as_path res" where
  "path_decode_loop d l p =
     (if l = 0 then Inr p
      else if length d < 2 then Inl OutOfBounds
      else let len = 2 + unat (d ! 1) * 2 in
        if len > l then Inl (CorruptMessage UPDATEMSGERR MALASPATH [])
        else res_bind (seg_decode d) (\<lambda>s. path_decode_loop (drop len d) (l - len) (add_segment p s)))"
  by pat_completeness auto
termination by (relation "measure (\<lambda>(d, l, p). l)") auto

definition path_decode :: "u8 list \<Rightarrow> nat \<Rightarrow> as_path res" where
  "path_decode d l = path_decode_loop d l empty_path"

definition path_prepend_as :: "as_path \<Rightarrow> as_num \<Rightarrow> as_path res" where
  "path_prepend_as p asn = (case segments p of
     [] \<Rightarrow> Inr (p\<lparr>segments := [add_as (new_segment AS_SEQUENCE) asn],
                 num_segments := num_segments p + 1, path_len := path_len p + 1\<rparr>)
   | s # ss \<Rightarrow>
       if seg_type s = AS_SET then
         Inr (p\<lparr>segments := add_as (new_segment AS_SEQUENCE) asn # segments p,
                num_segments := num_segments p + 1, path_len := path_len p + 1\<rparr>)
       else if seg_type s \<noteq> AS_SEQUENCE then Inl XlogAssert
       else Inr (p\<lparr>segments := seg_prepend_as s asn # ss, path_len := path_len p + 1\<rparr>))"

definition path_prepend_confed_as :: "as_path \<Rightarrow> as_num \<Rightarrow> as_path res" where
  "path_prepend_confed_as p asn = (case segments p of
     [] \<Rightarrow> Inr (p\<lparr>segments := [add_as (new_segment AS_CONFED_SEQUENCE) asn],
                 num_segments := num_segments p + 1, path_len := path_len p + 1\<rparr>)
   | s # ss \<Rightarrow>
       if seg_type s = AS_SET \<or> seg_type s = AS_SEQUENCE then
         Inr (p\<lparr>segments := add_as (new_segment AS_CONFED_SEQUENCE) asn # segments p,
                num_segments := num_segments p + 1, path_len := path_len p + 1\<rparr>)
       else if seg_type s \<noteq> AS_CONFED_SEQUENCE then Inl XlogAssert
       else Inr (p\<lparr>segments := seg_prepend_as s asn # ss, path_len := path_len p + 1\<rparr>))"

definition is_confed :: "as_segment \<Rightarrow> bool" where
  "is_confed s \<longleftrightarrow> seg_type s = AS_CONFED_SEQUENCE \<or> seg_type s = AS_CONFED_SET"

text \<open>
  \<open>remove_confed_segments\<close> calls \<open>list::remove\<close> with the value of the segment, which erases every
  segment that \<open>operator==\<close> finds equal to it, and goes on with an iterator to the next element
  that it took before. The arguments are the segments before that iterator and those from it on.
\<close>

function remove_confed_loop :: "as_segment list \<Rightarrow> as_segment list \<Rightarrow> as_path \<Rightarrow> as_path res" where
  "remove_confed_loop before [] p = Inr (p\<lparr>segments := before\<rparr>)"
| "remove_confed_loop before (s # ss) p =
     (if is_confed s then
        (let before' = filter (\<lambda>t. \<not> seg_eq t s) before; ss' = filter (\<lambda>t. \<not> seg_eq t s) ss;
             p' = p\<lparr>num_segments := num_segments p - 1, path_len := path_len p - 1\<rparr> in
         if ss \<noteq> [] \<and> seg_eq (hd ss) s then Inl DanglingIterator
         else remove_confed_loop before' ss' p')
      else remove_confed_loop (before @ [s]) ss p)"
  by pat_completeness auto
termination
  by (relation "measure (\<lambda>(b, ss, p). length ss)") (auto simp: le_imp_less_Suc)

definition remove_confed_segments :: "as_path \<Rightarrow> as_path res" where
  "remove_confed_segments p = remove_confed_loop [] (segments p) p"

definition contains_confed_segments :: "as_path \<Rightarrow> bool" where
  "contains_confed_segments p = list_ex is_confed (segments p)"

text \<open>\<open>operator=\<close> copies the segments only.\<close>

definition path_assign :: "as_path \<Rightarrow> as_path \<Rightarrow> as_path" where
  "path_assign p him = p\<lparr>segments := segments him\<rparr>"

fun segments_eq :: "as_segment list \<Rightarrow> as_segment list \<Rightarrow> bool res" where
  "segments_eq [] ts = Inr True"
| "segments_eq (s # ss) [] = Inl OutOfBounds"
| "segments_eq (s # ss) (t # ts) = (if \<not> seg_eq s t then Inr False else segments_eq ss ts)"

definition path_eq :: "as_path \<Rightarrow> as_path \<Rightarrow> bool res" where
  "path_eq p q = (if num_segments p \<noteq> num_segments q then Inr False
     else segments_eq (segments p) (segments q))"

fun segments_less :: "as_segment list \<Rightarrow> as_segment list \<Rightarrow> bool res" where
  "segments_less [] ts = Inr False"
| "segments_less (s # ss) [] = Inl OutOfBounds"
| "segments_less (s # ss) (t # ts) =
     (if seg_less s t then Inr True else if seg_less t s then Inr False else segments_less ss ts)"

definition path_less :: "as_path \<Rightarrow> as_path \<Rightarrow> bool res" where
  "path_less p q =
     (if num_segments p < num_segments q then Inr True
      else if num_segments p > num_segments q then Inr False
      else segments_less (segments p) (segments q))"

fun encode_mib_segments :: "as_segment list \<Rightarrow> nat \<Rightarrow> u8 list res" where
  "encode_mib_segments [] room = Inr []"
| "encode_mib_segments (s # ss) room =
     res_bind (seg_encode_for_mib s room)
       (\<lambda>b. res_map ((@) b) (encode_mib_segments ss (room - (2 + length (aslist s) * 2))))"

definition path_encode_for_mib :: "as_path \<Rightarrow> u8 list res" where
  "path_encode_for_mib p =
     (let buf_size = path_wire_size p in
      if buf_size > 2 then encode_mib_segments (segments p) buf_size else Inr [0, 0])"

definition path_two_byte_compatible :: "as_path \<Rightarrow> bool" where
  "path_two_byte_compatible p = list_all seg_two_byte_compatible (segments p)"

subsection \<open>Aggregation\<close>

text \<open>
  The constructor from two paths copies the common leading segments and puts the rest in one
  \<open>AS_SET\<close>. Its inner loops index \<open>segment(curseg)\<close> where the bounds come from \<open>segment(curseg1)\<close>.
\<close>

fun match_elems :: "as_segment \<Rightarrow> as_segment \<Rightarrow> nat \<Rightarrow> nat \<Rightarrow> nat res" where
  "match_elems s t m 0 = Inr m"
| "match_elems s t m (Suc j) =
     res_bind (seg_as_num s m) (\<lambda>a. res_bind (seg_as_num t m) (\<lambda>b.
       if a \<noteq> b then Inr m else match_elems s t (Suc m) j))"

function aggregate_loop :: "as_path \<Rightarrow> as_path \<Rightarrow> nat \<Rightarrow> nat \<Rightarrow> as_path \<Rightarrow> (nat \<times> nat \<times> bool \<times> as_path) res" where
  "aggregate_loop asp1 asp2 curseg matchelem p =
     (if curseg < unat (num_segments asp1) \<and> curseg < unat (num_segments asp2) then
        res_bind (segment asp1 curseg) (\<lambda>s. res_bind (segment asp2 curseg) (\<lambda>t.
          if seg_type s \<noteq> seg_type t then Inr (curseg, matchelem, True, p)
          else res_bind (match_elems s t 0 (min (seg_path_length s) (seg_path_length t))) (\<lambda>m.
            let p' = (if m \<noteq> 0 then add_segment p (foldl add_as (new_segment (seg_type s)) (take m (aslist s)))
                      else p) in
            if m < seg_path_length s \<or> m < seg_path_length t then Inr (curseg, m, False, p')
            else aggregate_loop asp1 asp2 (curseg + 1) m p')))
      else Inr (curseg, matchelem, True, p))"
  by pat_completeness auto
termination by (relation "measure (\<lambda>(p1, p2, c, m, p). unat (num_segments p1) - c)") auto

fun aggregate_elems :: "as_segment \<Rightarrow> nat list \<Rightarrow> as_segment \<Rightarrow> as_segment res" where
  "aggregate_elems s [] new_asset = Inr new_asset"
| "aggregate_elems s (elem # elems) new_asset =
     res_bind (seg_as_num s elem) (\<lambda>asn.
       aggregate_elems s elems (if seg_contains new_asset asn then new_asset else add_as new_asset asn))"

fun aggregate_segs :: "as_path \<Rightarrow> nat \<Rightarrow> nat list \<Rightarrow> nat \<Rightarrow> as_segment \<Rightarrow> as_segment res" where
  "aggregate_segs asp curseg [] startelem new_asset = Inr new_asset"
| "aggregate_segs asp curseg (curseg1 # rest) startelem new_asset =
     res_bind (segment asp curseg1) (\<lambda>s1. res_bind (segment asp curseg) (\<lambda>s.
       res_bind (aggregate_elems s [startelem ..< seg_path_length s1] new_asset) (\<lambda>new_asset'.
         aggregate_segs asp curseg rest 0 new_asset')))"

definition aggregate :: "as_path \<Rightarrow> as_path \<Rightarrow> as_path res" where
  "aggregate asp1 asp2 =
     res_bind (aggregate_loop asp1 asp2 0 0 empty_path) (\<lambda>(curseg, matchelem, fullmatch, p).
       if fullmatch then Inr p
       else
         res_bind (aggregate_segs asp1 curseg [curseg ..< unat (num_segments asp1)] matchelem
             (new_segment AS_SET)) (\<lambda>set1.
         res_bind (aggregate_segs asp2 curseg [curseg ..< unat (num_segments asp2)] matchelem set1) (\<lambda>set2.
           Inr (add_segment p set2))))"

subsection \<open>Parsing a path from text\<close>

function remove_spaces :: "string \<Rightarrow> string" where
  "remove_spaces path =
     (if CHR '' '' \<in> set path
      then remove_spaces (takeWhile (\<lambda>c. c \<noteq> CHR '' '') path @ tl (dropWhile (\<lambda>c. c \<noteq> CHR '' '') path))
      else path)"
  by pat_completeness auto
termination
proof (relation "measure length", goal_cases)
  case (2 path)
  then have "dropWhile (\<lambda>c. c \<noteq> CHR '' '') path \<noteq> []" by (auto simp: dropWhile_eq_Nil_conv)
  moreover have "length path = length (takeWhile (\<lambda>c. c \<noteq> CHR '' '') path) + length (dropWhile (\<lambda>c. c \<noteq> CHR '' '') path)"
    by (metis length_append takeWhile_dropWhile_id)
  ultimately show ?case by simp
qed simp

definition illegal_character :: "char \<Rightarrow> string \<Rightarrow> xorp_error" where
  "illegal_character c path = InvalidString (''Illegal character: <'' @ [c] @ ''> '' @ path)"

definition open_segment :: "string \<Rightarrow> char \<Rightarrow> as_seg_type \<Rightarrow> as_segment \<Rightarrow> as_path \<Rightarrow> (as_segment \<times> as_path) res" where
  "open_segment path c t seg p =
     (if seg_type seg = AS_SEQUENCE then Inr (set_type (clear_segment seg) t, add_segment p seg)
      else if seg_type seg \<noteq> AS_NONE then Inl (illegal_character c path)
      else Inr (set_type seg t, p))"

definition close_segment :: "string \<Rightarrow> char \<Rightarrow> as_seg_type \<Rightarrow> as_segment \<Rightarrow> as_path \<Rightarrow> (as_segment \<times> as_path) res" where
  "close_segment path c t seg p =
     (if seg_type seg = t then Inr (clear_segment seg, add_segment p seg)
      else Inl (illegal_character c path))"

definition as_text_char :: "char \<Rightarrow> bool" where
  "as_text_char c \<longleftrightarrow> is_digit c \<or> c = CHR ''.''"

definition bracket_step :: "string \<Rightarrow> char \<Rightarrow> as_segment \<Rightarrow> as_path \<Rightarrow> (as_segment \<times> as_path) res" where
  "bracket_step path c seg p =
     (if c = CHR ''['' then open_segment path c AS_SEQUENCE seg p
      else if c = CHR '']'' then close_segment path c AS_SEQUENCE seg p
      else if c = CHR ''{'' then open_segment path c AS_SET seg p
      else if c = CHR ''}'' then close_segment path c AS_SET seg p
      else if c = CHR ''('' then open_segment path c AS_CONFED_SEQUENCE seg p
      else if c = CHR '')'' then close_segment path c AS_CONFED_SEQUENCE seg p
      else if c = CHR ''<'' then open_segment path c AS_CONFED_SET seg p
      else if c = CHR ''>'' then close_segment path c AS_CONFED_SET seg p
      else if c = CHR '','' then Inr (seg, p)
      else if c = CHR '' '' \<or> c = CHR 0x09 then Inr (seg, p)
      else Inl (illegal_character c path))"

function parse_loop :: "string \<Rightarrow> string \<Rightarrow> as_segment \<Rightarrow> as_path \<Rightarrow> (as_segment \<times> as_path) res" where
  "parse_loop path [] seg p = Inr (seg, p)"
| "parse_loop path (c # cs) seg p =
     (if is_digit c then
        (let seg' = (if seg_type seg = AS_NONE then set_type seg AS_SEQUENCE else seg) in
         res_bind (AsNum_string (c # takeWhile as_text_char cs)) (\<lambda>n.
           parse_loop path (dropWhile as_text_char cs) (add_as seg' n) p))
      else res_bind (bracket_step path c seg p) (\<lambda>(seg', p'). parse_loop path cs seg' p'))"
  by pat_completeness auto
termination
  by (relation "measure (\<lambda>(path, cs, seg, p). length cs)")
    (auto intro: le_imp_less_Suc length_dropWhile_le)

definition ASPath_string :: "string \<Rightarrow> as_path res" where
  "ASPath_string as_path =
     (let path = remove_spaces as_path in
      res_bind (parse_loop path path (new_segment AS_NONE) empty_path) (\<lambda>(seg, p).
        if seg_type seg = AS_SEQUENCE then Inr (add_segment p seg)
        else if seg_type seg = AS_SET then Inl (InvalidString (''Unterminated ASSet: '' @ path))
        else Inr p))"

declare path_decode_loop.simps [simp del] aggregate_loop.simps [simp del] remove_spaces.simps [simp del]

subsection \<open>The counters\<close>

definition path_of :: "as_segment list \<Rightarrow> as_path" where
  "path_of ss = \<lparr>segments = ss, num_segments = of_nat (length ss),
     path_len = of_nat (sum_list (map seg_path_length ss))\<rparr>"

definition path_ok :: "as_path \<Rightarrow> bool" where
  "path_ok p \<longleftrightarrow> num_segments p = of_nat (length (segments p))
     \<and> path_len p = of_nat (sum_list (map seg_path_length (segments p)))"

lemma path_of_sel [simp]:
  "segments (path_of ss) = ss" "num_segments (path_of ss) = of_nat (length ss)"
  "path_len (path_of ss) = of_nat (sum_list (map seg_path_length ss))"
  by (simp_all add: path_of_def)

lemma path_ok_path_of [simp]: "path_ok (path_of ss)"
  by (simp add: path_ok_def)

lemma path_ok_iff: "path_ok p \<longleftrightarrow> p = path_of (segments p)"
  by (cases p) (simp add: path_ok_def path_of_def)

lemma empty_path_eq: "empty_path = path_of []"
  by (simp add: empty_path_def path_of_def)

lemma add_segment_path_of [simp]: "add_segment (path_of ss) s = path_of (ss @ [s])"
  by (simp add: add_segment_def path_of_def)

lemma prepend_segment_path_of [simp]: "prepend_segment (path_of ss) s = path_of (s # ss)"
  by (simp add: prepend_segment_def path_of_def)

lemma foldl_add_segment [simp]: "foldl add_segment (path_of ss) ts = path_of (ss @ ts)"
  by (induction ts arbitrary: ss) simp_all

lemma seg_sel_simps [simp]:
  "seg_type (new_segment t) = t" "aslist (new_segment t) = []"
  "seg_type (add_as s a) = seg_type s" "aslist (add_as s a) = aslist s @ [a]"
  "seg_type (seg_prepend_as s a) = seg_type s" "aslist (seg_prepend_as s a) = a # aslist s"
  "seg_type (set_type s t) = t" "aslist (set_type s t) = aslist s"
  "clear_segment s = new_segment AS_NONE" "set_type (new_segment u) t = new_segment t"
  by (simp_all add: new_segment_def add_as_def seg_prepend_as_def set_type_def clear_segment_def)

lemma foldl_add_as: "foldl add_as s as = s\<lparr>aslist := aslist s @ as\<rparr>"
  by (induction as arbitrary: s) (simp_all add: add_as_def)

lemma path_ok_add_segment: "path_ok p \<Longrightarrow> path_ok (add_segment p s)"
  unfolding path_ok_def add_segment_def by simp

lemma path_ok_prepend_segment: "path_ok p \<Longrightarrow> path_ok (prepend_segment p s)"
  unfolding path_ok_def prepend_segment_def by simp

lemma path_prepend_as_ok: "path_ok p \<Longrightarrow> path_prepend_as p a = Inr q \<Longrightarrow> path_ok q"
  by (auto simp: path_prepend_as_def path_ok_def seg_path_length_def split: list.splits if_splits)

lemma path_prepend_confed_as_ok: "path_ok p \<Longrightarrow> path_prepend_confed_as p a = Inr q \<Longrightarrow> path_ok q"
  by (auto simp: path_prepend_confed_as_def path_ok_def seg_path_length_def split: list.splits if_splits)

lemma path_assign_ok_iff:
  assumes "path_ok r"
  shows "path_ok (path_assign p r) \<longleftrightarrow> num_segments p = num_segments r \<and> path_len p = path_len r"
  using assms by (simp add: path_assign_def path_ok_def)

subsection \<open>The wire format\<close>

text \<open>
  What a pair of segment encoder and path decoder promises: a decoder that is started on an
  encoded segment adds the view that the format keeps of it and goes on behind it, and a decoder
  that succeeds started on an encoded segment. The encoding of a whole path follows once for the
  two-byte and the four-byte format.
\<close>

locale segment_codec =
  fixes encode_seg :: "as_segment \<Rightarrow> u8 list res"
    and decode_loop :: "u8 list \<Rightarrow> nat \<Rightarrow> as_path \<Rightarrow> as_path res"
    and view :: "as_segment \<Rightarrow> as_segment"
  assumes decode_end: "decode_loop d 0 p = Inr p"
    and decode_step: "encode_seg s = Inr b \<Longrightarrow>
      decode_loop (b @ d) (length b + l) p = decode_loop d l (add_segment p (view s))"
    and decode_inv: "decode_loop d (Suc l) p = Inr q \<Longrightarrow>
      \<exists>s b l'. encode_seg s = Inr b \<and> view s = s \<and> b \<noteq> [] \<and> d = b @ drop (length b) d \<and> Suc l = length b + l'
        \<and> decode_loop (drop (length b) d) l' (add_segment p s) = Inr q"
begin

lemma decode_encoded:
  "encode_segments encode_seg ss = Inr b \<Longrightarrow>
     decode_loop (b @ d) (length b) p = Inr (foldl add_segment p (map view ss))"
proof (induction ss arbitrary: b p)
  case Nil
  then show ?case by (simp add: decode_end)
next
  case (Cons s ss)
  then obtain b1 b2 where b: "encode_seg s = Inr b1" "encode_segments encode_seg ss = Inr b2" "b = b1 @ b2"
    by auto
  from decode_step [OF b(1), of "b2 @ d" "length b2"] Cons.IH [OF b(2)]
  show ?case by (simp add: b(3))
qed

lemma encode_decoded:
  "decode_loop d l p = Inr q \<Longrightarrow> l \<le> length d \<and>
     (\<exists>ss. q = foldl add_segment p ss \<and> encode_segments encode_seg ss = Inr (take l d) \<and> map view ss = ss)"
proof (induction l arbitrary: d p rule: less_induct)
  case (less l)
  show ?case
  proof (cases l)
    case 0
    then show ?thesis
      using less.prems decode_end [of d p] by (intro conjI exI [of _ "[]"]) simp_all
  next
    case (Suc m)
    with less.prems obtain s b l' where s: "encode_seg s = Inr b" "view s = s" "b \<noteq> []"
        "d = b @ drop (length b) d" "l = length b + l'"
        "decode_loop (drop (length b) d) l' (add_segment p s) = Inr q"
      using decode_inv [of d m p q] by blast
    define d' where "d' = drop (length b) d"
    from s(3,5) have "l' < l" by (cases b) simp_all
    from less.IH [OF this s(6)] obtain ss where ss: "l' \<le> length d'"
        "q = foldl add_segment (add_segment p s) ss" "encode_segments encode_seg ss = Inr (take l' d')"
        "map view ss = ss"
      unfolding d'_def by blast
    have d: "d = b @ d'" using s(4) by (simp only: d'_def)
    show ?thesis
    proof (intro conjI exI [of _ "s # ss"])
      show "l \<le> length d" using ss(1) s(5) by (simp add: d)
      show "encode_segments encode_seg (s # ss) = Inr (take l d)"
        using ss(3) s(1,5) by (simp add: d)
    qed (use ss s in simp_all)
  qed
qed

end

text \<open>The two-byte format keeps the two-byte view of every number.\<close>

definition squash_seg :: "as_segment \<Rightarrow> as_segment" where
  "squash_seg s = s\<lparr>aslist := map squash (aslist s)\<rparr>"

lemma squash_seg_sel [simp]:
  "seg_type (squash_seg s) = seg_type s" "aslist (squash_seg s) = map squash (aslist s)"
  by (simp_all add: squash_seg_def)

lemma seg_path_length_squash [simp]: "seg_path_length (squash_seg s) = seg_path_length s"
  by (simp add: seg_path_length_def)

lemma seg_type_of_code_inv:
  "seg_type_of_code b = Inr t \<longleftrightarrow> b = seg_type_code t"
  by (cases t) (auto simp: seg_type_of_code_def)

lemma seg_type_of_code_code [simp]: "seg_type_of_code (seg_type_code t) = Inr t"
  by (simp add: seg_type_of_code_inv)

lemma seg_decode_as_encoded:
  "seg_decode_as (length as) (concat (map as_copy_out as) @ d) s = Inr (s\<lparr>aslist := aslist s @ map squash as\<rparr>)"
  by (induction as arbitrary: s) (simp_all add: add_as_def)

lemma seg_encode_Inr_iff:
  "seg_encode s (Some (seg_wire_size s)) = Inr b \<longleftrightarrow> length (aslist s) \<le> 255
     \<and> b = seg_type_code (seg_type s) # of_nat (length (aslist s)) # concat (map as_copy_out (aslist s))"
  by (auto simp: seg_encode_def)

lemma unat_of_nat_u8: "n \<le> 255 \<Longrightarrow> unat (of_nat n :: u8) = n"
  by (simp add: unat_of_nat)

lemma length_concat_copy_out: "length (concat (map as_copy_out as)) = 2 * length as"
  by (induction as) simp_all

lemma seg_decode_encoded:
  assumes "seg_encode s (Some (seg_wire_size s)) = Inr b"
  shows "seg_decode (b @ d) = Inr (squash_seg s)" "length b = seg_wire_size s"
    "b ! 1 = of_nat (length (aslist s))"
proof -
  from assms have b: "length (aslist s) \<le> 255"
      "b = seg_type_code (seg_type s) # of_nat (length (aslist s)) # concat (map as_copy_out (aslist s))"
    by (simp_all only: seg_encode_Inr_iff)
  show "seg_decode (b @ d) = Inr (squash_seg s)"
    using seg_decode_as_encoded [of "aslist s" d "new_segment (seg_type s)"] b(1)
    by (simp add: b(2) unat_of_nat_u8 squash_seg_def new_segment_def del: unsigned_of_nat)
  show "length b = seg_wire_size s" "b ! 1 = of_nat (length (aslist s))"
    by (simp_all add: b(2) length_concat_copy_out seg_wire_size_def)
qed

lemma path_decode_loop_step:
  assumes "seg_encode s (Some (seg_wire_size s)) = Inr b"
  shows "path_decode_loop (b @ d) (length b + l) p = path_decode_loop d l (add_segment p (squash_seg s))"
proof -
  note e = seg_decode_encoded [OF assms]
  have len: "length (aslist s) \<le> 255" using assms by (simp add: seg_encode_Inr_iff)
  have "2 \<le> length b" using e(2) by (simp add: seg_wire_size_def)
  then have "(b @ d) ! 1 = of_nat (length (aslist s))" using e(3) by (simp add: nth_append)
  then have n: "2 + unat ((b @ d) ! 1) * 2 = length b"
    using e(2) len by (simp add: unat_of_nat_u8 seg_wire_size_def del: unsigned_of_nat)
  show ?thesis
    unfolding path_decode_loop.simps [of "b @ d"] Let_def n e(1) using \<open>2 \<le> length b\<close> by auto
qed

lemma AsNum_bytes_inv:
  "AsNum_bytes d = Inr a \<Longrightarrow> \<not> extended a \<and> d = as_copy_out a @ drop 2 d"
proof (induction d rule: AsNum_bytes.induct)
  case (1 x y ds)
  then have a: "a = AsNum (push_bit 8 (ucast x) + ucast y)" by simp
  have "push_bit 8 (ucast x) + ucast y = (push_bit 8 (ucast x) OR ucast y :: u32)"
    by (rule disjunctive_add) (auto simp: bit_simps dest: bit_imp_le_length)
  then have w: "as4 a = push_bit 8 (ucast x) OR ucast y" by (simp add: a)
  have "as4 a = take_bit 16 (as4 a)"
    unfolding w by (rule bit_word_eqI) (auto simp: bit_simps dest: bit_imp_le_length)
  then have "unat (as4 a) = unat (take_bit 16 (as4 a))" by simp
  also have "\<dots> < 65536"
    using take_bit_nat_less_exp [of 16 "unat (as4 a)"] by (simp add: unsigned_take_bit_eq)
  finally have ne: "\<not> extended a" by (simp add: not_extended_iff)
  have o: "as_of a = ucast (as4 a)" using ne by (simp add: as_of_def)
  have "ucast (drop_bit 8 (as_of a) AND 0xff) = x" "ucast (as_of a AND 0xff) = y"
  proof -
    have "ucast (drop_bit 8 (as_of a) AND mask 8) = x" "ucast (as_of a AND mask 8) = y"
      unfolding o w by (rule bit_word_eqI; auto simp: bit_simps dest: bit_imp_le_length)+
    then show "ucast (drop_bit 8 (as_of a) AND 0xff) = x" "ucast (as_of a AND 0xff) = y"
      by (simp_all add: mask_eq_exp_minus_1)
  qed
  with ne show ?case by (simp add: as_copy_out_def Let_def)
qed simp_all

lemma seg_decode_as_inv:
  "seg_decode_as n d s = Inr t \<Longrightarrow> \<exists>as. length as = n \<and> list_all (\<lambda>a. \<not> extended a) as
     \<and> t = s\<lparr>aslist := aslist s @ as\<rparr> \<and> d = concat (map as_copy_out as) @ drop (2 * n) d"
proof (induction n arbitrary: d s)
  case 0
  then show ?case by simp
next
  case (Suc n)
  then obtain a where a: "AsNum_bytes d = Inr a" "seg_decode_as n (drop 2 d) (add_as s a) = Inr t" by auto
  from Suc.IH [OF a(2)] obtain as where as: "length as = n" "list_all (\<lambda>a. \<not> extended a) as"
      "t = (add_as s a)\<lparr>aslist := aslist (add_as s a) @ as\<rparr>"
      "drop 2 d = concat (map as_copy_out as) @ drop (2 * n) (drop 2 d)"
    by blast
  note d = AsNum_bytes_inv [OF a(1)]
  have "d = as_copy_out a @ concat (map as_copy_out as) @ drop (2 * n) (drop 2 d)"
    using d as(4) by metis
  then have "d = concat (map as_copy_out (a # as)) @ drop (2 * Suc n) d"
    by (simp add: drop_drop [symmetric] del: drop_drop) (simp add: numeral_2_eq_2 add.commute)
  then show ?case
    using as(1-3) d by (intro exI [of _ "a # as"]) (simp_all add: add_as_def)
qed

lemma seg_decode_inv:
  assumes "seg_decode d = Inr s"
  shows "seg_encode s (Some (seg_wire_size s)) = Inr (take (seg_wire_size s) d)"
    "squash_seg s = s" "seg_wire_size s \<le> length d" "unat (d ! 1) = length (aslist s)"
proof -
  from assms obtain d0 d1 d' t where d: "d = d0 # d1 # d'" "d0 = seg_type_code t"
      "seg_decode_as (unat d1) d' (new_segment t) = Inr s"
    by (cases d rule: seg_decode.cases) (auto simp: seg_type_of_code_inv)
  from seg_decode_as_inv [OF d(3)] obtain as where as: "length as = unat d1"
      "list_all (\<lambda>a. \<not> extended a) as" "s = \<lparr>seg_type = t, aslist = as\<rparr>"
      "d' = concat (map as_copy_out as) @ drop (2 * unat d1) d'"
    by (auto simp: new_segment_def)
  have l: "length (concat (map as_copy_out as)) = 2 * unat d1"
    by (simp add: length_concat_copy_out as(1))
  have "length as \<le> 255" using as(1) unsigned_less [of d1, where 'a = nat] by simp
  moreover have "take (seg_wire_size s) d = d0 # d1 # take (2 * unat d1) d'"
    using as(1) by (simp add: as(3) seg_wire_size_def d(1))
  moreover have "take (2 * unat d1) d' = concat (map as_copy_out as)"
    using as(4) l by (metis append_eq_conv_conj)
  moreover have "of_nat (length as) = d1" using as(1) by simp
  ultimately show "seg_encode s (Some (seg_wire_size s)) = Inr (take (seg_wire_size s) d)"
    unfolding seg_encode_Inr_iff by (simp add: as(3) d(2))
  have "map squash as = as"
    using as(2) by (intro map_idI) (auto simp: list_all_iff intro: squash_id)
  then show "squash_seg s = s" by (simp add: squash_seg_def as(3))
  have "length d' \<ge> 2 * unat d1" using as(4) l by (metis length_append le_add1)
  then show "seg_wire_size s \<le> length d" using as(1) by (simp add: seg_wire_size_def as(3) d(1))
  show "unat (d ! 1) = length (aslist s)" by (simp add: d(1) as(1,3))
qed

lemma path_decode_loop_inv:
  assumes "path_decode_loop d (Suc l) p = Inr q"
  shows "\<exists>s b l'. seg_encode s (Some (seg_wire_size s)) = Inr b \<and> squash_seg s = s \<and> b \<noteq> []
    \<and> d = b @ drop (length b) d \<and> Suc l = length b + l'
    \<and> path_decode_loop (drop (length b) d) l' (add_segment p s) = Inr q"
proof -
  let ?len = "2 + unat (d ! 1) * 2"
  from assms obtain s where s: "?len \<le> Suc l" "seg_decode d = Inr s"
      "path_decode_loop (drop ?len d) (Suc l - ?len) (add_segment p s) = Inr q"
    by (subst (asm) path_decode_loop.simps)
      (auto simp: Let_def simp del: seg_decode.simps split: if_splits)
  note i = seg_decode_inv [OF s(2)]
  have len: "?len = seg_wire_size s" using i(4) by (simp add: seg_wire_size_def)
  let ?b = "take (seg_wire_size s) d"
  have lb: "length ?b = seg_wire_size s" using i(3) by simp
  show ?thesis
  proof (intro exI conjI)
    show "seg_encode s (Some (seg_wire_size s)) = Inr ?b" "squash_seg s = s" by (fact i)+
    show "?b \<noteq> []" using lb by (metis list.size(3) add_2_eq_Suc nat.distinct(1) seg_wire_size_def)
    show "d = ?b @ drop (length ?b) d" by (simp only: lb append_take_drop_id)
    show "Suc l = length ?b + (Suc l - seg_wire_size s)" unfolding lb using s(1) len by linarith
    show "path_decode_loop (drop (length ?b) d) (Suc l - seg_wire_size s) (add_segment p s) = Inr q"
      unfolding lb using s(3) unfolding len .
  qed
qed

interpretation two_byte: segment_codec
  "\<lambda>s. seg_encode s (Some (seg_wire_size s))" path_decode_loop squash_seg
  by (unfold_locales, simp add: path_decode_loop.simps, erule path_decode_loop_step, erule path_decode_loop_inv)

lemma encode_segments_ok:
  "list_all (\<lambda>s. length (aslist s) \<le> 255) ss \<Longrightarrow>
     \<exists>b. encode_segments (\<lambda>s. seg_encode s (Some (seg_wire_size s))) ss = Inr b
       \<and> length b = sum_list (map seg_wire_size ss)"
proof (induction ss)
  case (Cons s ss)
  obtain b where "seg_encode s (Some (seg_wire_size s)) = Inr b"
    using Cons.prems by (simp add: seg_encode_def)
  moreover from this have "length b = seg_wire_size s" by (rule seg_decode_encoded(2))
  ultimately show ?case using Cons by auto
qed simp

text \<open>
  The only error on received bytes is \<open>CorruptMessage\<close>, as long as one byte beyond the attribute
  may be read: the loop takes \<open>d[1]\<close> even when one byte is left.
\<close>

lemma seg_decode_as_total: "2 * n \<le> length d \<Longrightarrow> \<exists>t. seg_decode_as n d s = Inr t"
proof (induction n arbitrary: d s)
  case (Suc n)
  then show ?case by (cases d rule: AsNum_bytes.cases) simp_all
qed simp

lemma path_decode_loop_errors:
  assumes "l < length d" "path_decode_loop d l p = Inl e"
  shows "e = CorruptMessage UPDATEMSGERR MALASPATH []"
  using assms
proof (induction d l p rule: path_decode_loop.induct)
  case (1 d l p)
  let ?len = "2 + unat (d ! 1) * 2"
  have l: "l \<noteq> 0" using "1.prems"(2) by (intro notI) (simp add: path_decode_loop.simps)
  with "1.prems"(1) have l2: "\<not> length d < 2" by linarith
  then obtain d0 d1 d' where d: "d = d0 # d1 # d'"
    by (cases d rule: AsNum_bytes.cases) simp_all
  show ?case
  proof (cases "?len > l")
    case True
    then show ?thesis
      using "1.prems" l l2 unfolding path_decode_loop.simps [of d l p] Let_def by simp
  next
    case False
    then have "2 * unat d1 \<le> length d'" using "1.prems"(1) by (simp add: d)
    note total = seg_decode_as_total [OF this]
    show ?thesis
    proof (cases "seg_decode d")
      case (Inl e')
      have "e' = CorruptMessage UPDATEMSGERR MALASPATH []"
      proof (cases "seg_type_of_code d0")
        case (Inr t)
        with total [of "new_segment t"] Inl show ?thesis by (auto simp: d)
      qed (use Inl in \<open>auto simp: d seg_type_of_code_def split: if_splits\<close>)
      with "1.prems" l l2 False Inl show ?thesis
        unfolding path_decode_loop.simps [of d l p] Let_def by simp
    next
      case (Inr t)
      have rest: "path_decode_loop (drop ?len d) (l - ?len) (add_segment p t) = Inl e"
        using "1.prems"(2) l l2 False unfolding path_decode_loop.simps [of d l p] Let_def Inr by simp
      have "l - ?len < length (drop ?len d)" using "1.prems"(1) False by simp
      from "1.IH" [OF l l2 refl False Inr this rest] show ?thesis .
    qed
  qed
qed

lemma seg_decode_as_append: "2 * n \<le> length d \<Longrightarrow> seg_decode_as n (d @ e) s = seg_decode_as n d s"
proof (induction n arbitrary: d s)
  case (Suc n)
  then show ?case by (cases d rule: AsNum_bytes.cases) simp_all
qed simp

text \<open>
  The loop reads the count of the next segment before it knows that two bytes are left. What a
  byte behind the data holds does not matter: the segment is too long for the one byte left.
\<close>

lemma path_decode_loop_extra:
  assumes "l \<le> length d"
  shows "path_decode_loop (d @ [x]) l p = (if path_decode_loop d l p = Inl OutOfBounds
    then Inl (CorruptMessage UPDATEMSGERR MALASPATH []) else path_decode_loop d l p)"
  using assms
proof (induction d l p rule: path_decode_loop.induct)
  case (1 d l p)
  let ?len = "2 + unat (d ! 1) * 2"
  consider "l = 0" | (one) a where "l = 1" "d = [a]" | (more) d0 d1 d' where "l \<noteq> 0" "d = d0 # d1 # d'"
    using "1.prems" by (cases d rule: AsNum_bytes.cases) (auto simp: le_Suc_eq)
  then show ?case
  proof cases
    case one
    then show ?thesis by (simp add: path_decode_loop.simps)
  next
    case more
    show ?thesis
    proof (cases "?len > l")
      case True
      with more show ?thesis by (simp add: path_decode_loop.simps)
    next
      case False
      with "1.prems" more have d1: "2 * unat d1 \<le> length d'" by simp
      have seg: "seg_decode (d @ [x]) = seg_decode d"
        using seg_decode_as_append [OF d1] more(2) by (cases "seg_type_of_code d0") simp_all
      have err: "seg_decode d \<noteq> Inl OutOfBounds"
      proof (cases "seg_type_of_code d0")
        case (Inr t)
        with seg_decode_as_total [OF d1, of "new_segment t"] more(2) show ?thesis by auto
      qed (use more(2) in \<open>auto simp: seg_type_of_code_def split: if_splits\<close>)
      show ?thesis
      proof (cases "seg_decode d")
        case (Inl e)
        with more False seg err show ?thesis by (simp add: path_decode_loop.simps del: seg_decode.simps)
      next
        case (Inr t)
        have "l - ?len \<le> length (drop ?len d)" using "1.prems" by simp
        moreover have "drop ?len (d @ [x]) = drop ?len d @ [x]" using "1.prems" False by simp
        moreover have "path_decode_loop e l p = path_decode_loop (drop ?len e) (l - ?len) (add_segment p t)"
          if "e = d \<or> e = d @ [x]" for e
          using that more False seg Inr
          by (subst path_decode_loop.simps) (auto simp: Let_def nth_append simp del: seg_decode.simps)
        ultimately show ?thesis using "1.IH" [OF more(1) _ refl False Inr] more(2) by simp
      qed
    qed
  qed (simp add: path_decode_loop.simps)
qed

subsection \<open>Parsing and aggregation keep the counters\<close>

lemma bracket_step_ok: "path_ok p \<Longrightarrow> bracket_step path c seg p = Inr (seg', p') \<Longrightarrow> path_ok p'"
  by (auto simp: bracket_step_def open_segment_def close_segment_def path_ok_add_segment split: if_splits)

lemma parse_loop_ok: "path_ok p \<Longrightarrow> parse_loop path cs seg p = Inr (seg', p') \<Longrightarrow> path_ok p'"
proof (induction path cs seg p rule: parse_loop.induct)
  case (2 path c cs seg p)
  then show ?case
    by (cases "is_digit c") (auto simp: Let_def dest: bracket_step_ok)
qed simp

lemma ASPath_string_ok: "ASPath_string s = Inr p \<Longrightarrow> path_ok p"
  using parse_loop_ok [of empty_path]
  by (fastforce simp: ASPath_string_def Let_def empty_path_eq path_ok_add_segment split: if_splits)

lemma aggregate_loop_ok:
  "path_ok p \<Longrightarrow> aggregate_loop p1 p2 c m p = Inr (c', m', f, p') \<Longrightarrow> path_ok p'"
proof (induction p1 p2 c m p rule: aggregate_loop.induct)
  case (1 p1 p2 c m p)
  show ?case
  proof (cases "c < unat (num_segments p1) \<and> c < unat (num_segments p2)")
    case False
    with "1.prems" show ?thesis by (simp add: aggregate_loop.simps [of p1 p2 c])
  next
    case True
    with "1.prems"(2) obtain s t where s: "segment p1 c = Inr s" "segment p2 c = Inr t"
      by (cases "segment p1 c"; cases "segment p2 c") (simp_all add: aggregate_loop.simps [of p1 p2 c])
    let ?min = "min (seg_path_length s) (seg_path_length t)"
    consider (differ) "seg_type s \<noteq> seg_type t" | (match) n where "seg_type s = seg_type t" "match_elems s t 0 ?min = Inr n"
      using "1.prems"(2) True s
      by (cases "seg_type s = seg_type t"; cases "match_elems s t 0 ?min") (simp_all add: aggregate_loop.simps [of p1 p2 c])
    then show ?thesis
    proof cases
      case differ
      with "1.prems" True s show ?thesis by (simp add: aggregate_loop.simps [of p1 p2 c])
    next
      case match
      let ?p = "if n \<noteq> 0 then add_segment p (foldl add_as (new_segment (seg_type s)) (take n (aslist s))) else p"
      have p: "path_ok ?p" using "1.prems"(1) by (simp add: path_ok_add_segment)
      have l: "aggregate_loop p1 p2 c m p = (if n < seg_path_length s \<or> n < seg_path_length t
          then Inr (c, n, False, ?p) else aggregate_loop p1 p2 (c + 1) n ?p)"
        unfolding aggregate_loop.simps [of p1 p2 c m p] using True s match by (simp only: Let_def res_bind.simps
            if_True simp_thms not_True_eq_False if_False)
      show ?thesis
      proof (cases "n < seg_path_length s \<or> n < seg_path_length t")
        case True
        with "1.prems"(2) p show ?thesis unfolding l by (simp only: if_True sum.inject prod.inject) auto
      next
        case False
        from "1.prems"(2) False have "aggregate_loop p1 p2 (c + 1) n ?p = Inr (c', m', f, p')"
          unfolding l by (simp only: if_False)
        from "1.IH" [OF True s _ match(2) refl False p this] match(1) show ?thesis by simp
      qed
    qed
  qed
qed

lemma aggregate_ok: "aggregate p1 p2 = Inr p \<Longrightarrow> path_ok p"
  using aggregate_loop_ok [of empty_path p1 p2]
  by (fastforce simp: aggregate_def empty_path_eq path_ok_add_segment split: if_splits)

lemma path_decode_ok: "path_decode d l = Inr p \<Longrightarrow> path_ok p"
  using two_byte.encode_decoded [of d l empty_path p] by (auto simp: path_decode_def empty_path_eq)

subsection \<open>The text form that the parser documents\<close>

fun comma_sep :: "string list \<Rightarrow> string" where
  "comma_sep [] = ''''"
| "comma_sep [x] = x"
| "comma_sep (x # y # ys) = x @ '','' @ comma_sep (y # ys)"

definition seg_text :: "as_segment \<Rightarrow> string" where
  "seg_text s = seg_open (seg_type s) @ comma_sep (map as_short_str (aslist s)) @ seg_close (seg_type s) ''''"

definition printable :: "as_segment \<Rightarrow> bool" where
  "printable s \<longleftrightarrow> seg_type s \<noteq> AS_NONE \<and> list_all (\<lambda>a. as4 a \<noteq> 0) (aslist s)"

text \<open>
  The items of the text are segments in brackets and single AS numbers. A run of numbers
  without brackets is one AS sequence.
\<close>

datatype path_item = Bracketed as_segment | Number as_num

primrec item_text :: "path_item \<Rightarrow> string" where
  "item_text (Bracketed s) = seg_text s"
| "item_text (Number n) = as_short_str n"

primrec item_ok :: "path_item \<Rightarrow> bool" where
  "item_ok (Bracketed s) = printable s"
| "item_ok (Number n) = (as4 n \<noteq> 0)"

definition path_text :: "path_item list \<Rightarrow> string" where
  "path_text items = comma_sep (map item_text items)"

definition sequence_of :: "as_num list \<Rightarrow> as_segment list" where
  "sequence_of as = (if as = [] then [] else [\<lparr>seg_type = AS_SEQUENCE, aslist = as\<rparr>])"

fun denoted :: "path_item list \<Rightarrow> as_num list \<Rightarrow> as_segment list" where
  "denoted [] run = sequence_of run"
| "denoted (Number n # items) run = denoted items (run @ [n])"
| "denoted (Bracketed s # items) run = sequence_of run @ s # denoted items []"

lemma remove_spaces_eq: "remove_spaces s = filter (\<lambda>c. c \<noteq> CHR '' '') s"
proof (induction s rule: remove_spaces.induct)
  case (1 s)
  show ?case
  proof (cases "CHR '' '' \<in> set s")
    case True
    then have "dropWhile (\<lambda>c. c \<noteq> CHR '' '') s \<noteq> []" by (auto simp: dropWhile_eq_Nil_conv)
    then obtain r where r: "dropWhile (\<lambda>c. c \<noteq> CHR '' '') s = CHR '' '' # r"
      using hd_dropWhile [of "\<lambda>c. c \<noteq> CHR '' ''" s] by (metis list.collapse)
    have s: "s = takeWhile (\<lambda>c. c \<noteq> CHR '' '') s @ CHR '' '' # r"
      using takeWhile_dropWhile_id [of "\<lambda>c. c \<noteq> CHR '' ''" s] by (simp add: r)
    have "filter (\<lambda>c. c \<noteq> CHR '' '') s = filter (\<lambda>c. c \<noteq> CHR '' '') (takeWhile (\<lambda>c. c \<noteq> CHR '' '') s @ r)"
      by (subst s) simp
    with 1 True r show ?thesis by (simp add: remove_spaces.simps [of s])
  next
    case False
    then have "filter (\<lambda>c. c \<noteq> CHR '' '') s = s" by (intro filter_True) auto
    with False show ?thesis by (simp add: remove_spaces.simps [of s])
  qed
qed

lemma as_short_str_chars: "list_all as_text_char (as_short_str n)" "is_digit (hd (as_short_str n))"
proof -
  have d: "list_all as_text_char (dec m)" for m
    using is_digit_of_digit_list [of m] by (auto simp: list_all_iff as_text_char_def)
  have h: "is_digit (hd (dec m @ cs))" for m cs
    using dec_digits [of "hd (dec m)" m] by simp
  from d show "list_all as_text_char (as_short_str n)"
    by (simp add: as_short_str_def as_dotted_def) (simp add: as_text_char_def)
  from h [of _ "[]"] h show "is_digit (hd (as_short_str n))"
    by (simp add: as_short_str_def as_dotted_def)
qed

lemma as_short_str_Cons: "\<exists>c cs. as_short_str n = c # cs \<and> is_digit c \<and> list_all as_text_char cs"
proof -
  have "as_short_str n \<noteq> []" by (simp add: as_short_str_def as_dotted_def)
  then show ?thesis using as_short_str_chars [of n] by (cases "as_short_str n") auto
qed

lemma parse_number:
  assumes "as4 n \<noteq> 0" "cs = [] \<or> \<not> as_text_char (hd cs)"
  shows "parse_loop path (as_short_str n @ cs) seg p
    = parse_loop path cs (add_as (if seg_type seg = AS_NONE then set_type seg AS_SEQUENCE else seg) n) p"
proof -
  obtain d ds where d: "as_short_str n = d # ds" "is_digit d" "list_all as_text_char ds"
    using as_short_str_Cons by blast
  have t: "takeWhile as_text_char (ds @ cs) = ds" "dropWhile as_text_char (ds @ cs) = cs"
    using d(3) assms(2) by (cases cs; auto simp: list_all_iff takeWhile_append dropWhile_append)+
  have "AsNum_string (d # ds) = Inr n" using AsNum_string_short_str [OF assms(1)] by (simp add: d(1))
  then show ?thesis
    unfolding d(1) append_Cons parse_loop.simps(2) [of path d] t using d(2)
    by (simp add: Let_def del: parse_loop.simps)
qed

lemma parse_comma: "parse_loop path (CHR '','' # cs) seg p = parse_loop path cs seg p"
  by (simp add: bracket_step_def is_digit_def)

lemma parse_numbers:
  assumes "seg_type seg \<noteq> AS_NONE" "\<not> as_text_char c" "list_all (\<lambda>a. as4 a \<noteq> 0) as"
  shows "parse_loop path (comma_sep (map as_short_str as) @ c # cs) seg p
    = parse_loop path (c # cs) (foldl add_as seg as) p"
  using assms
proof (induction as arbitrary: seg rule: induct_list012)
  case (3 a b as)
  have "\<not> as_text_char CHR '',''" by (simp add: as_text_char_def is_digit_def)
  with 3 show ?case by (simp add: parse_number parse_comma del: parse_loop.simps)
qed (simp_all add: parse_number del: parse_loop.simps)

text \<open>The segment that the parser builds after a run of numbers without brackets.\<close>

definition run_segment :: "as_num list \<Rightarrow> as_segment" where
  "run_segment run = (if run = [] then new_segment AS_NONE else \<lparr>seg_type = AS_SEQUENCE, aslist = run\<rparr>)"

lemma run_segment_add:
  "add_as (if seg_type (run_segment run) = AS_NONE then set_type (run_segment run) AS_SEQUENCE else run_segment run) n
     = run_segment (run @ [n])"
  by (simp add: run_segment_def new_segment_def set_type_def add_as_def)

lemma parse_open:
  "t \<noteq> AS_NONE \<Longrightarrow> parse_loop path (seg_open t @ cs) (run_segment run) p
     = parse_loop path cs (new_segment t) (foldl add_segment p (sequence_of run))"
  by (cases t) (simp_all add: bracket_step_def open_segment_def is_digit_def run_segment_def sequence_of_def
      new_segment_def clear_segment_def set_type_def)

lemma parse_close:
  "seg_type s = t \<Longrightarrow> t \<noteq> AS_NONE \<Longrightarrow>
     parse_loop path (seg_close t '''' @ cs) s p = parse_loop path cs (new_segment AS_NONE) (add_segment p s)"
  by (cases t) (simp_all add: bracket_step_def close_segment_def is_digit_def)

lemma parse_segment:
  assumes "printable s"
  shows "parse_loop path (seg_text s @ cs) (run_segment run) p
    = parse_loop path cs (run_segment []) (foldl add_segment p (sequence_of run @ [s]))"
proof -
  from assms have n: "seg_type s \<noteq> AS_NONE" "list_all (\<lambda>a. as4 a \<noteq> 0) (aslist s)"
    by (simp_all add: printable_def)
  then obtain b where b: "seg_close (seg_type s) '''' = [b]" "\<not> as_text_char b"
    by (cases "seg_type s") (simp_all add: as_text_char_def is_digit_def)
  let ?p = "foldl add_segment p (sequence_of run)"
  have "parse_loop path (seg_text s @ cs) (run_segment run) p
      = parse_loop path (comma_sep (map as_short_str (aslist s)) @ b # cs) (new_segment (seg_type s)) ?p"
    unfolding seg_text_def b append_assoc parse_open [OF n(1)] by (simp del: parse_loop.simps)
  also have "\<dots> = parse_loop path (b # cs) s ?p"
    using parse_numbers [OF _ b(2) n(2), of "new_segment (seg_type s)"] n(1)
    by (cases s) (simp add: foldl_add_as new_segment_def del: parse_loop.simps)
  also have "\<dots> = parse_loop path cs (new_segment AS_NONE) (add_segment ?p s)"
    using parse_close [OF refl n(1), of path cs ?p] b(1) by (simp del: parse_loop.simps)
  finally show ?thesis by (simp add: run_segment_def)
qed

text \<open>The end of the constructor: an open sequence is added.\<close>

definition finish :: "string \<Rightarrow> as_segment \<times> as_path \<Rightarrow> as_path res" where
  "finish path = (\<lambda>(seg, p). if seg_type seg = AS_SEQUENCE then Inr (add_segment p seg)
     else if seg_type seg = AS_SET then Inl (InvalidString (''Unterminated ASSet: '' @ path)) else Inr p)"

lemma finish_run: "finish path (run_segment run, p) = Inr (foldl add_segment p (sequence_of run))"
  by (simp add: finish_def run_segment_def sequence_of_def)

lemma parse_item:
  assumes "item_ok i" "cs = [] \<or> \<not> as_text_char (hd cs)"
  shows "parse_loop path (item_text i @ cs) (run_segment run) p = (case i of
      Number n \<Rightarrow> parse_loop path cs (run_segment (run @ [n])) p
    | Bracketed s \<Rightarrow> parse_loop path cs (run_segment []) (foldl add_segment p (sequence_of run @ [s])))"
  using assms by (cases i) (simp_all add: parse_number run_segment_add parse_segment del: parse_loop.simps)

lemma parse_items:
  "list_all item_ok items \<Longrightarrow>
     res_bind (parse_loop path (path_text items) (run_segment run) p) (finish path)
       = Inr (foldl add_segment p (denoted items run))"
proof (induction items arbitrary: run p rule: induct_list012)
  case 1
  then show ?case by (simp add: path_text_def finish_run)
next
  case (2 i)
  then show ?case
    using parse_item [of i "[]" path run p] finish_run [of path "[]"]
    by (cases i) (simp_all add: path_text_def finish_run sequence_of_def del: parse_loop.simps(2))
next
  case (3 i j items)
  let ?rest = "path_text (j # items)"
  have t: "path_text (i # j # items) = item_text i @ CHR '','' # ?rest" by (simp add: path_text_def)
  have step: "parse_loop path (path_text (i # j # items)) (run_segment run) p = (case i of
      Number n \<Rightarrow> parse_loop path ?rest (run_segment (run @ [n])) p
    | Bracketed s \<Rightarrow> parse_loop path ?rest (run_segment []) (foldl add_segment p (sequence_of run @ [s])))"
    using parse_item [of i "CHR '','' # ?rest" path run p] "3.prems"
    unfolding t parse_comma by (simp add: as_text_char_def is_digit_def del: parse_loop.simps)
  show ?case
    unfolding step using "3.IH"(2) "3.prems" by (cases i) (simp_all del: parse_loop.simps)
qed

lemma ASPath_string_text:
  assumes "list_all item_ok items" "filter (\<lambda>c. c \<noteq> CHR '' '') s = path_text items"
  shows "ASPath_string s = Inr (path_of (denoted items []))"
proof -
  have "ASPath_string s = res_bind (parse_loop (path_text items) (path_text items) (run_segment []) empty_path)
      (finish (path_text items))"
    unfolding ASPath_string_def remove_spaces_eq assms(2) Let_def finish_def run_segment_def by simp
  also have "\<dots> = Inr (foldl add_segment empty_path (denoted items []))" by (rule parse_items [OF assms(1)])
  finally show ?thesis by (simp add: empty_path_eq)
qed

subsection \<open>Aggregation of two sequences\<close>

abbreviation as_seq :: "as_num list \<Rightarrow> as_segment" where
  "as_seq as \<equiv> \<lparr>seg_type = AS_SEQUENCE, aslist = as\<rparr>"

abbreviation as_set :: "as_num list \<Rightarrow> as_segment" where
  "as_set as \<equiv> \<lparr>seg_type = AS_SET, aslist = as\<rparr>"

lemma match_elems_lcp:
  "j = min (length (aslist s) - m) (length (aslist t) - m) \<Longrightarrow>
     match_elems s t m j = Inr (m + length (longest_common_prefix (drop m (aslist s)) (drop m (aslist t))))"
proof (induction j arbitrary: m)
  case 0
  then have "drop m (aslist s) = [] \<or> drop m (aslist t) = []" by (auto simp: min_def split: if_splits)
  then show ?case by (cases "drop m (aslist s)"; cases "drop m (aslist t)") auto
next
  case (Suc j)
  then have m: "m < length (aslist s)" "m < length (aslist t)" by linarith+
  from Suc.prems have j: "j = min (length (aslist s) - Suc m) (length (aslist t) - Suc m)" by linarith
  show ?case
    using Suc.IH [OF j] m
    by (simp add: seg_as_num_def Cons_nth_drop_Suc [symmetric, of m])
qed

definition add_new :: "as_segment \<Rightarrow> as_num \<Rightarrow> as_segment" where
  "add_new s a = (if seg_contains s a then s else add_as s a)"

lemma seg_contains_iff: "seg_contains s a \<longleftrightarrow> a \<in> set (aslist s)"
  by (auto simp: seg_contains_def list_ex_iff)

text \<open>The elements of a list, each at the place where it occurs first.\<close>

definition firsts :: "'a list \<Rightarrow> 'a list" where
  "firsts xs = rev (remdups (rev xs))"

lemma foldl_add_new: "foldl add_new (as_set []) bs = as_set (firsts bs)"
proof (induction bs rule: rev_induct)
  case (snoc b bs)
  then show ?case by (auto simp: add_new_def seg_contains_iff firsts_def add_as_def)
qed (simp add: firsts_def)

lemma aggregate_elems_eq:
  "i \<le> length (aslist s) \<Longrightarrow>
     aggregate_elems s [i ..< length (aslist s)] u = Inr (foldl add_new u (drop i (aslist s)))"
proof (induction "length (aslist s) - i" arbitrary: i u)
  case (Suc k')
  then have i: "i < length (aslist s)" by simp
  then have "aggregate_elems s [i ..< length (aslist s)] u
      = aggregate_elems s [Suc i ..< length (aslist s)] (add_new u (aslist s ! i))"
    by (simp add: upt_conv_Cons seg_as_num_def add_new_def)
  with Suc(1) [of "Suc i"] Suc(2) i show ?case by (simp add: Cons_nth_drop_Suc [symmetric, of i])
qed simp

lemma lcp_full: "length (longest_common_prefix xs ys) = length xs \<Longrightarrow>
    length (longest_common_prefix xs ys) = length ys \<Longrightarrow> xs = ys"
  by (metis append_eq_conv_conj longest_common_prefix_prefix1 longest_common_prefix_prefix2 prefix_def take_all order_refl)

lemma lcp_take: "take (length (longest_common_prefix xs ys)) xs = longest_common_prefix xs ys"
  by (metis append_eq_conv_conj longest_common_prefix_prefix1 prefix_def)

lemma lcp_self [simp]: "longest_common_prefix xs xs = xs"
  by (induction xs) simp_all

lemma lcp_length: "length (longest_common_prefix xs ys) \<le> length xs"
    "length (longest_common_prefix xs ys) \<le> length ys"
  by (simp_all add: longest_common_prefix_prefix1 longest_common_prefix_prefix2 prefix_length_le)

definition lcp_path :: "as_num list \<Rightarrow> as_num list \<Rightarrow> as_segment list" where
  "lcp_path xs ys = (let c = longest_common_prefix xs ys in if c = [] then [] else [as_seq c])"

lemma aggregate_loop_sequences:
  "aggregate_loop (path_of [as_seq xs]) (path_of [as_seq ys]) 0 0 empty_path
     = Inr (if xs = ys then 1 else 0, length (longest_common_prefix xs ys), xs = ys, path_of (lcp_path xs ys))"
proof -
  let ?c = "longest_common_prefix xs ys"
  have m: "match_elems (as_seq xs) (as_seq ys) 0 (min (length xs) (length ys)) = Inr (length ?c)"
    using match_elems_lcp [of "min (length xs) (length ys)" "as_seq xs" 0 "as_seq ys"] by simp
  have p: "(if length ?c \<noteq> 0 then add_segment empty_path (foldl add_as (new_segment AS_SEQUENCE) (take (length ?c) xs))
      else empty_path) = path_of (lcp_path xs ys)"
    by (simp add: lcp_path_def lcp_take empty_path_eq foldl_add_as new_segment_def Let_def)
  have c: "(length ?c < length xs \<or> length ?c < length ys) = (xs \<noteq> ys)"
  proof (cases "xs = ys")
    case False
    then have "\<not> (length ?c = length xs \<and> length ?c = length ys)" using lcp_full by blast
    then have "length ?c < length xs \<or> length ?c < length ys" using lcp_length [of xs ys] by linarith
    with False show ?thesis by blast
  qed simp
  have last: "aggregate_loop (path_of [as_seq xs]) (path_of [as_seq ys]) (0 + 1) (length ?c) q
      = Inr (1, length ?c, True, q)" for q
    by (simp add: aggregate_loop.simps)
  have s: "segment (path_of [as_seq zs]) 0 = Inr (as_seq zs)" "seg_path_length (as_seq zs) = length zs"
      "0 < unat (num_segments (path_of [as_seq zs]))" for zs
    by (simp_all add: segment_def seg_path_length_def)
  show ?thesis
    unfolding aggregate_loop.simps [of _ _ 0 0] s res_bind.simps as_segment.simps m Let_def p c last
    using s(3) by simp
qed

lemma aggregate_sequences:
  assumes "xs \<noteq> ys" "c = length (longest_common_prefix xs ys)"
  shows "aggregate (path_of [as_seq xs]) (path_of [as_seq ys])
    = Inr (path_of (lcp_path xs ys @ [as_set (firsts (drop c xs @ drop c ys))]))"
proof -
  have e: "aggregate_elems (as_seq zs) [c ..< length zs] u = Inr (foldl add_new u (drop c zs))"
    if "c \<le> length zs" for zs u
    using aggregate_elems_eq [of c "as_seq zs" u] that by simp
  have "aggregate (path_of [as_seq xs]) (path_of [as_seq ys])
      = Inr (path_of (lcp_path xs ys @ [foldl add_new (as_set []) (drop c xs @ drop c ys)]))"
    using assms lcp_length [of xs ys] e
    by (simp add: aggregate_def aggregate_loop_sequences segment_def seg_path_length_def new_segment_def)
  then show ?thesis by (simp only: foldl_add_new)
qed

lemma aggregate_equal: "aggregate (path_of [as_seq xs]) (path_of [as_seq xs]) = Inr (path_of (lcp_path xs xs))"
  by (simp add: aggregate_def aggregate_loop_sequences)

subsection \<open>The comparison operators\<close>

abbreviation as_less_rel :: "(as_num \<times> as_num) set" where
  "as_less_rel \<equiv> {(a, b). a < b}"

lemma as_list_less_iff:
  "length as = length bs \<Longrightarrow> as_list_less as bs \<longleftrightarrow> (as, bs) \<in> lenlex as_less_rel"
proof (induction as bs rule: as_list_less.induct)
  case (1 a as b bs)
  then show ?case by (auto simp: Cons_lenlex_iff)
qed simp_all

lemma as_list_eq_iff: "length as = length bs \<Longrightarrow> as_list_eq as bs \<longleftrightarrow> as = bs"
  by (induction as bs rule: as_list_eq.induct) auto

lemma seg_less_iff: "seg_less s t \<longleftrightarrow> (aslist s, aslist t) \<in> lenlex as_less_rel"
  using lenlex_length [of "aslist s" "aslist t" as_less_rel]
  by (auto simp: seg_less_def as_list_less_iff lenlex_conv)

lemma seg_eq_iff: "seg_eq s t \<longleftrightarrow> aslist s = aslist t"
  by (auto simp: seg_eq_def as_list_eq_iff)

lemma seg_less_asym: "seg_less s t \<Longrightarrow> \<not> seg_less t s"
proof -
  have "asym (lenlex as_less_rel)" by (rule asym_lenlex) (auto intro: asymI)
  then show "seg_less s t \<Longrightarrow> \<not> seg_less t s" by (auto simp: seg_less_iff dest: asymD)
qed

lemma seg_less_total: "seg_less s t \<or> aslist s = aslist t \<or> seg_less t s"
proof -
  have "total (lenlex as_less_rel)" by (rule total_lenlex) (auto simp: total_on_def)
  then show ?thesis by (auto simp: seg_less_iff total_on_def)
qed

lemma seg_less_irrefl: "aslist s = aslist t \<Longrightarrow> \<not> seg_less s t"
  using seg_less_asym [of s t] by (auto simp: seg_less_iff)

lemma segments_less_iff:
  "length ss = length ts \<Longrightarrow>
     segments_less ss ts = Inr ((map aslist ss, map aslist ts) \<in> lenlex (lenlex as_less_rel))"
proof (induction ss ts rule: segments_less.induct)
  case (3 s ss t ts)
  consider (less) "seg_less s t" | (eq) "aslist s = aslist t" | (greater) "seg_less t s"
    using seg_less_total by blast
  then show ?case
  proof cases
    case less
    then show ?thesis using 3 by (simp add: Cons_lenlex_iff seg_less_iff)
  next
    case eq
    with seg_less_irrefl [of s t] seg_less_irrefl [of t s] 3 show ?thesis
      by (auto simp: Cons_lenlex_iff seg_less_iff)
  next
    case greater
    with seg_less_asym [of t s] have "\<not> seg_less s t" "aslist s \<noteq> aslist t"
      using seg_less_irrefl [of t s] by auto
    with greater 3 show ?thesis by (simp add: Cons_lenlex_iff seg_less_iff)
  qed
qed simp_all

lemma segments_eq_iff:
  "length ss = length ts \<Longrightarrow> segments_eq ss ts = Inr (map aslist ss = map aslist ts)"
  by (induction ss ts rule: segments_eq.induct) (auto simp: seg_eq_iff)

lemma of_nat_u64_eq: "m < 2 ^ 64 \<Longrightarrow> n < 2 ^ 64 \<Longrightarrow> (of_nat m :: u64) = of_nat n \<longleftrightarrow> m = n"
  by (simp add: word_unat_eq_iff unsigned_of_nat take_bit_nat_eq_self)

lemma of_nat_u64_less: "m < 2 ^ 64 \<Longrightarrow> n < 2 ^ 64 \<Longrightarrow> (of_nat m :: u64) < of_nat n \<longleftrightarrow> m < n"
  by (simp add: word_less_nat_alt unsigned_of_nat take_bit_nat_eq_self)

lemma lenlex_map_shorter: "length xs < length ys \<Longrightarrow> (xs, ys) \<in> lenlex r"
  by (simp add: lenlex_conv)

lemma path_less_iff:
  assumes "path_ok p" "path_ok q" "length (segments p) < 2 ^ 64" "length (segments q) < 2 ^ 64"
  shows "path_less p q = Inr ((map aslist (segments p), map aslist (segments q)) \<in> lenlex (lenlex as_less_rel))"
proof -
  have n: "num_segments p = of_nat (length (segments p))" "num_segments q = of_nat (length (segments q))"
    using assms(1,2) by (simp_all add: path_ok_def)
  show ?thesis
    unfolding path_less_def n of_nat_u64_less [OF assms(3,4)] of_nat_u64_less [OF assms(4,3)]
    using lenlex_length [of "map aslist (segments p)" "map aslist (segments q)" "lenlex as_less_rel"]
    by (auto simp: segments_less_iff lenlex_map_shorter)
qed

lemma path_eq_iff:
  assumes "path_ok p" "path_ok q" "length (segments p) < 2 ^ 64" "length (segments q) < 2 ^ 64"
  shows "path_eq p q = Inr (map aslist (segments p) = map aslist (segments q))"
proof -
  have n: "num_segments p = of_nat (length (segments p))" "num_segments q = of_nat (length (segments q))"
    using assms(1,2) by (simp_all add: path_ok_def)
  show ?thesis
    unfolding path_eq_def n of_nat_u64_eq [OF assms(3,4)]
    by (auto simp: segments_eq_iff dest: map_eq_imp_length_eq)
qed

subsection \<open>Properties\<close>

text \<open>
  C19: A path whose counters are right and whose segments have at most 255 numbers is encoded in
  exactly \<open>wire_size()\<close> bytes, and decoding these bytes, whatever follows them, gives the path
  back with every extended number replaced by \<open>AS_TRAN\<close>.
\<close>

theorem as_path_wire_roundtrip:
  assumes "path_ok p" "list_all (\<lambda>s. as_size s \<le> 255) (segments p)"
  shows "\<exists>b. path_encode p None = Inr b \<and> length b = path_wire_size p
    \<and> path_decode (b @ rest) (length b) = Inr (path_of (map squash_seg (segments p)))"
proof -
  from encode_segments_ok [of "segments p"] assms(2) obtain b where
      "encode_segments (\<lambda>s. seg_encode s (Some (seg_wire_size s))) (segments p) = Inr b"
      "length b = path_wire_size p"
    by (auto simp: as_size_def path_wire_size_def)
  with two_byte.decode_encoded [OF this(1), of rest empty_path] assms(1) show ?thesis
    by (simp add: path_encode_def path_decode_def path_ok_def empty_path_eq)
qed

theorem as_path_wire_roundtrip_witness:
  "\<exists>b. path_encode (path_of [as_seq [AsNum 701, AsNum 196608]]) None = Inr b
     \<and> path_decode b (length b) = Inr (path_of [as_seq [AsNum 701, AsNum 23456]])"
proof -
  have "squash (AsNum 701) = AsNum 701" "squash (AsNum 196608) = AsNum 23456"
    by (simp_all add: squash_id squash_extended extended_def)
  with as_path_wire_roundtrip [of "path_of [as_seq [AsNum 701, AsNum 196608]]" "[]"] show ?thesis
    by (auto simp: as_size_def squash_seg_def)
qed

text \<open>
  C32: Bytes that decode to a path are reproduced exactly by encoding it, so decoding loses
  nothing of the attribute; the result never holds an extended number.
\<close>

theorem as_path_decode_encode:
  assumes "path_decode d l = Inr p"
  shows "path_encode p None = Inr (take l d) \<and> l \<le> length d \<and> path_two_byte_compatible p"
proof -
  from two_byte.encode_decoded [OF assms [unfolded path_decode_def]] obtain ss where ss: "l \<le> length d"
      "p = path_of ss" "encode_segments (\<lambda>s. seg_encode s (Some (seg_wire_size s))) ss = Inr (take l d)"
      "map squash_seg ss = ss"
    by (auto simp: empty_path_eq)
  have "seg_two_byte_compatible s" if "s \<in> set ss" for s
  proof -
    from that ss(4) obtain t where "s = squash_seg t" by (metis imageE list.set_map)
    then show ?thesis by (simp add: seg_two_byte_compatible_def list_all_iff)
  qed
  with ss show ?thesis
    by (simp add: path_encode_def path_two_byte_compatible_def list_all_iff)
qed

theorem as_path_decode_encode_witness:
  "path_encode (path_of [as_seq [AsNum 258]]) None = Inr [2, 1, 1, 2]"
proof -
  have "path_decode [2, 1, 1, 2] 4 = Inr (path_of [as_seq [AsNum 258]])"
    by (simp add: path_decode_def path_decode_loop.simps seg_type_of_code_def new_segment_def
        add_as_def empty_path_eq push_bit_eq_mult)
  from as_path_decode_encode [OF this] show ?thesis by simp
qed

text \<open>
  C33: When the decoder of the AS path does not return a path from the \<open>l\<close> bytes it is given, it
  throws \<open>CorruptMessage\<close> with the codes for a malformed AS path; no assertion fails. There is one
  exception: when a single byte of the data is left for a segment, the code reads the byte behind
  the data. That read is out of bounds when the buffer ends there, and if the byte can be read,
  the code throws the same \<open>CorruptMessage\<close>, whatever it holds.
\<close>

theorem as_path_decode_errors:
  assumes "l \<le> length d" "path_decode d l = Inl e"
  shows "e = CorruptMessage 3 11 []
    \<or> e = OutOfBounds \<and> length d = l \<and> (\<forall>x. path_decode (d @ [x]) l = Inl (CorruptMessage 3 11 []))"
proof -
  have corrupt: "CorruptMessage UPDATEMSGERR MALASPATH [] = CorruptMessage 3 11 []"
    by (simp add: UPDATEMSGERR_def MALASPATH_def)
  have e: "path_decode_loop d l empty_path = Inl e" using assms(2) by (simp add: path_decode_def)
  note extra = path_decode_loop_extra [OF assms(1), of _ empty_path, unfolded e corrupt]
  show ?thesis
  proof (cases "l < length d")
    case True
    then show ?thesis using path_decode_loop_errors [OF _ e] corrupt by simp
  next
    case False
    with assms(1) have "length d = l" by simp
    moreover have "e \<noteq> OutOfBounds \<Longrightarrow> e = CorruptMessage 3 11 []"
      using extra [of 0] path_decode_loop_errors [of l "d @ [0]" empty_path e] assms(1) corrupt by simp
    ultimately show ?thesis using extra by (auto simp: path_decode_def)
  qed
qed

theorem as_path_decode_errors_witness:
  "path_decode [7, 1, 0, 1] 4 = Inl (CorruptMessage 3 11 [])
   \<and> path_decode ([2, 1, 0, 1, 2] @ [9]) 5 = Inl (CorruptMessage 3 11 [])"
proof
  obtain e where e: "path_decode [7, 1, 0, 1] 4 = Inl e" "e \<noteq> OutOfBounds"
    by (simp add: path_decode_def path_decode_loop.simps seg_type_of_code_def)
  from as_path_decode_errors [OF _ e(1)] e show "path_decode [7, 1, 0, 1] 4 = Inl (CorruptMessage 3 11 [])" by simp
next
  have "path_decode [2, 1, 0, 1, 2] 5 = Inl OutOfBounds"
    by (simp add: path_decode_def path_decode_loop.simps seg_type_of_code_def)
  from as_path_decode_errors [OF _ this]
  show "path_decode ([2, 1, 0, 1, 2] @ [9]) 5 = Inl (CorruptMessage 3 11 [])" by simp
qed

lemma as_path_decode_reads_past_end: "path_decode [b] 1 = Inl OutOfBounds"
  by (simp add: path_decode_def path_decode_loop.simps)

text \<open>
  C34: The segment counter and the path length are those of the list of segments in a path that
  was built from text, from bytes or by aggregation, and adding or prepending a segment and
  prepending an AS number, inside or outside a confederation, keep them so. Assignment keeps the
  counters of the target: it is right exactly when both paths have the same two counters.
  (\<open>remove_confed_segments\<close> and \<open>merge_as4_path\<close>, which assigns, can leave them wrong.)
\<close>

theorem as_path_counters:
  "(ASPath_string s = Inr p \<longrightarrow> path_ok p)
   \<and> (path_decode d l = Inr p \<longrightarrow> path_ok p)
   \<and> (aggregate p1 p2 = Inr p \<longrightarrow> path_ok p)
   \<and> (path_ok p \<longrightarrow> path_ok (add_segment p g) \<and> path_ok (prepend_segment p g))
   \<and> (path_ok p \<and> path_prepend_as p a = Inr q \<longrightarrow> path_ok q)
   \<and> (path_ok p \<and> path_prepend_confed_as p a = Inr q \<longrightarrow> path_ok q)
   \<and> (path_ok p \<and> path_ok r \<longrightarrow>
       (path_ok (path_assign p r) \<longleftrightarrow> num_segments p = num_segments r \<and> path_len p = path_len r))"
  by (auto intro: ASPath_string_ok path_decode_ok aggregate_ok path_ok_add_segment path_ok_prepend_segment
      path_prepend_as_ok path_prepend_confed_as_ok simp: path_assign_ok_iff)

theorem as_path_counters_witness:
  "\<exists>q. path_prepend_as (path_of [as_seq [AsNum 2], as_set [AsNum 3]]) (AsNum 1) = Inr q \<and> path_ok q"
proof -
  let ?p = "path_of [as_seq [AsNum 2], as_set [AsNum 3]]"
  obtain q where q: "path_prepend_as ?p (AsNum 1) = Inr q" by (simp add: path_prepend_as_def)
  moreover have "path_ok q"
    using as_path_counters [where p = ?p and a = "AsNum 1" and q = q] q by simp
  ultimately show ?thesis by blast
qed

text \<open>
  C35: The text form that the parser documents, with blanks at any place, is read as exactly the
  segments it denotes: a comma-separated list of segments in brackets of the four kinds, each
  around comma-separated AS numbers, and of AS numbers without brackets, every run of which is an
  AS sequence.
\<close>

theorem as_path_parse:
  assumes "list_all item_ok items" "filter (\<lambda>c. c \<noteq> CHR '' '') s = path_text items"
  shows "ASPath_string s = Inr (path_of (denoted items []))"
  by (rule ASPath_string_text [OF assms])

theorem as_path_parse_witness:
  "ASPath_string ''1,2, (3,4),5'' = Inr (path_of [as_seq [AsNum 1, AsNum 2],
     \<lparr>seg_type = AS_CONFED_SEQUENCE, aslist = [AsNum 3, AsNum 4]\<rparr>, as_seq [AsNum 5]])"
proof -
  let ?items = "[Number (AsNum 1), Number (AsNum 2),
    Bracketed \<lparr>seg_type = AS_CONFED_SEQUENCE, aslist = [AsNum 3, AsNum 4]\<rparr>, Number (AsNum 5)]"
  have "dec 1 = ''1''" "dec 2 = ''2''" "dec 3 = ''3''" "dec 4 = ''4''" "dec 5 = ''5''"
    by (simp_all add: dec.simps digit_char_def char_of_def bit_0)
  then have "filter (\<lambda>c. c \<noteq> CHR '' '') ''1,2, (3,4),5'' = path_text ?items"
    by (simp add: path_text_def seg_text_def as_short_str_def extended_def)
  moreover have "list_all item_ok ?items" by (simp add: printable_def)
  ultimately have "ASPath_string ''1,2, (3,4),5'' = Inr (path_of (denoted ?items []))" by (intro as_path_parse)
  then show ?thesis by (simp add: sequence_of_def)
qed

text \<open>
  C36: Aggregating two paths of one AS sequence each gives their longest common prefix as a
  sequence (none when it is empty), followed, unless the sequences are equal, by one AS set: the
  numbers of the first and then of the second path that are behind the prefix, each at its first
  place only. No other AS number is in the result and none is lost.
\<close>

theorem aggregate_two_sequences:
  "aggregate (path_of [as_seq xs]) (path_of [as_seq ys]) = Inr (path_of (lcp_path xs ys @
     (if xs = ys then []
      else [as_set (firsts (drop (length (longest_common_prefix xs ys)) xs
              @ drop (length (longest_common_prefix xs ys)) ys))])))"
  using aggregate_sequences [OF _ refl] aggregate_equal by simp

text \<open>With more segments the rest is read from the wrong segment, and AS numbers are lost.\<close>

lemma aggregate_loses_as_numbers:
  "aggregate (path_of [as_seq [AsNum 1, AsNum 9], as_seq [AsNum 2, AsNum 3]]) (path_of [as_seq [AsNum 4]])
     = Inr (path_of [as_set [AsNum 1, AsNum 9, AsNum 4]])"
  "aggregate (path_of [as_seq [AsNum 1], as_seq [AsNum 2, AsNum 3]]) (path_of [as_seq [AsNum 4]])
     = Inl OutOfBounds"
  by (simp_all add: aggregate_def aggregate_loop.simps segment_def seg_path_length_def seg_as_num_def
      upt_rec seg_contains_def new_segment_def add_as_def empty_path_eq)

text \<open>
  The operators \<open><\<close> and \<open>==\<close> of paths are the length-lexicographic order of the lists of
  segments, themselves compared length-lexicographically by their AS numbers, and the equality of
  these lists; \<open><\<close> is therefore transitive, irreflexive and total up to \<open>==\<close>. The types of the
  segments do not count.
\<close>

theorem as_path_order:
  assumes "path_ok p" "path_ok q" "length (segments p) < 2 ^ 64" "length (segments q) < 2 ^ 64"
  shows "path_less p q = Inr ((map aslist (segments p), map aslist (segments q))
      \<in> lenlex (lenlex {(a, b). a < b}))
    \<and> path_eq p q = Inr (map aslist (segments p) = map aslist (segments q))"
  using path_less_iff [OF assms] path_eq_iff [OF assms] by simp

theorem as_path_order_witness:
  "path_less (path_of [as_seq [AsNum 9]]) (path_of [as_seq [AsNum 1, AsNum 2]]) = Inr True"
  using as_path_order [of "path_of [as_seq [AsNum 9]]" "path_of [as_seq [AsNum 1, AsNum 2]]"]
  by (simp add: Cons_lenlex_iff)

lemma as_path_eq_ignores_types: "path_eq (path_of [as_seq [a, b]]) (path_of [as_set [a, b]]) = Inr True"
  by (simp add: path_eq_def seg_eq_def)

subsection \<open>Removing confederation segments\<close>

text \<open>
  Removing the confederation segments lowers the path length by one per segment, whatever
  the segment contributed to it: after it the path length counts autonomous systems that are no
  longer in the path.
\<close>

theorem remove_confed_path_length:
  assumes "as \<noteq> bs"
  shows "remove_confed_segments (path_of [\<lparr>seg_type = AS_CONFED_SEQUENCE, aslist = as\<rparr>, as_seq bs])
    = Inr \<lparr>segments = [as_seq bs], num_segments = 1, path_len = of_nat (length as + length bs) - 1\<rparr>"
  using assms
  by (simp add: remove_confed_segments_def is_confed_def seg_eq_iff path_of_def seg_path_length_def)

theorem remove_confed_path_length_witness:
  "remove_confed_segments (path_of [\<lparr>seg_type = AS_CONFED_SEQUENCE, aslist = [AsNum 1, AsNum 2]\<rparr>, as_seq []])
    = Inr \<lparr>segments = [as_seq []], num_segments = 1, path_len = 1\<rparr>"
  using remove_confed_path_length [of "[AsNum 1, AsNum 2]" "[]"] by simp

lemma remove_confed_removes_equal_sequence:
  "remove_confed_segments (path_of [as_seq [a], \<lparr>seg_type = AS_CONFED_SEQUENCE, aslist = [a]\<rparr>])
     = Inr \<lparr>segments = [], num_segments = 1, path_len = 1\<rparr>"
  by (simp add: remove_confed_segments_def is_confed_def seg_eq_iff path_of_def seg_path_length_def)

lemma unterminated_confederation_dropped: "ASPath_string ''(1'' = Inr empty_path"
proof -
  have "AsNum_string ''1'' = Inr (AsNum 1)"
    using AsNum_string_plain [of 1] by (simp add: dec.simps digit_char_def char_of_def bit_0)
  then show ?thesis
    by (simp add: ASPath_string_def remove_spaces_eq bracket_step_def open_segment_def is_digit_def)
qed

end
