(* ===== verification/As4_Path.thy ===== *)
theory As4_Path
  imports As_Path
begin

text \<open>
  The AS4_PATH attribute (\<open>class AS4Segment\<close> and \<open>class AS4Path\<close> of \<open>bgp/aspath.cc\<close>): its
  four-byte wire format, and the merge with the AS_PATH that two-byte speakers have changed
  since: \<open>cross_validate\<close>, \<open>pad_segment\<close>, \<open>do_patchup\<close> and \<open>ASPath::merge_as4_path\<close>.
\<close>

subsection \<open>The four-byte wire format\<close>

definition seg4_wire_size :: "as_segment \<Rightarrow> nat" where
  "seg4_wire_size s = 2 + 4 * length (aslist s)"

fun seg4_decode_as :: "nat \<Rightarrow> u8 list \<Rightarrow> as_segment \<Rightarrow> as_segment res" where
  "seg4_decode_as 0 d s = Inr s"
| "seg4_decode_as (Suc n) (a # b # c # e # d) s =
     seg4_decode_as n d (add_as s (AsNum (htonl (of_le_bytes a b c e))))"
| "seg4_decode_as (Suc n) d s = Inl OutOfBounds"

fun seg4_decode :: "u8 list \<Rightarrow> as_segment res" where
  "seg4_decode (d0 # d1 # d) =
     res_bind (seg_type_of_code d0) (\<lambda>t. seg4_decode_as (unat d1) d (new_segment t))"
| "seg4_decode d = Inl OutOfBounds"

definition seg4_encode :: "as_segment \<Rightarrow> nat option \<Rightarrow> u8 list res" where
  "seg4_encode s room =
     (if \<not> length (aslist s) \<le> 255 then Inl XlogAssert
      else if (case room of None \<Rightarrow> False | Some len \<Rightarrow> \<not> len \<ge> seg4_wire_size s) then Inl XlogAssert
      else Inr (seg_type_code (seg_type s) # of_nat (length (aslist s))
        # concat (map (\<lambda>a. le_bytes (htonl (as4 a))) (aslist s))))"

definition path4_wire_size :: "as_path \<Rightarrow> nat" where
  "path4_wire_size p = sum_list (map seg4_wire_size (segments p))"

definition path4_encode :: "as_path \<Rightarrow> nat option \<Rightarrow> u8 list res" where
  "path4_encode p room =
     (if num_segments p \<noteq> of_nat (length (segments p)) then Inl XlogAssert
      else if (case room of None \<Rightarrow> False | Some len \<Rightarrow> \<not> len \<ge> path4_wire_size p) then Inl XlogAssert
      else encode_segments (\<lambda>s. seg4_encode s (Some (seg4_wire_size s))) (segments p))"

function path4_decode_loop :: "u8 list \<Rightarrow> nat \<Rightarrow> as_path \<Rightarrow> as_path res" where
  "path4_decode_loop d l p =
     (if l = 0 then Inr p
      else if length d < 2 then Inl OutOfBounds
      else let len = 2 + unat (d ! 1) * 4 in
        if \<not> len \<le> l then Inl XlogAssert
        else res_bind (seg4_decode d) (\<lambda>s. path4_decode_loop (drop len d) (l - len) (add_segment p s)))"
  by pat_completeness auto
termination by (relation "measure (\<lambda>(d, l, p). l)") auto

definition path4_decode :: "u8 list \<Rightarrow> nat \<Rightarrow> as_path res" where
  "path4_decode d l = path4_decode_loop d l empty_path"

declare path4_decode_loop.simps [simp del]

subsection \<open>Merging with the AS_PATH\<close>

text \<open>
  The last loop of the \<open>AS_SET\<close> branch of \<open>pad_segment\<close> runs while the old segment is smaller than
  the new one and makes the new one larger. A run that never ends is \<open>None\<close>.
\<close>

partial_function (option) pad_to_size :: "as_segment \<Rightarrow> as_segment \<Rightarrow> as_segment res option" where
  "pad_to_size old_seg new_seg =
     (if as_size old_seg < as_size new_seg then
        (case seg_first_asnum new_seg of
           Inl e \<Rightarrow> Some (Inl e)
         | Inr a \<Rightarrow> pad_to_size old_seg (seg_prepend_as new_seg a))
      else Some (Inr new_seg))"

definition pad_missing :: "as_num \<Rightarrow> as_segment \<Rightarrow> as_segment" where
  "pad_missing asn new_seg =
     (if as_of asn \<noteq> AS_TRAN then
        (if \<not> seg_contains new_seg asn then seg_prepend_as new_seg asn else new_seg)
      else new_seg)"

definition pad_set :: "as_segment \<Rightarrow> as_segment \<Rightarrow> as_segment res" where
  "pad_set old_seg new_seg =
     (case pad_to_size old_seg (foldr pad_missing (aslist old_seg) new_seg) of
        None \<Rightarrow> Inl Diverges
      | Some r \<Rightarrow> r)"

text \<open>The backward comparison of the two sequences, on the two-byte views of the numbers.\<close>

fun suffix_matches :: "as_segment \<Rightarrow> as_segment \<Rightarrow> nat list \<Rightarrow> bool res" where
  "suffix_matches old_seg new_seg [] = Inr True"
| "suffix_matches old_seg new_seg (i # is) =
     (if as_size old_seg < i then Inl OutOfBounds
      else res_bind (seg_as_num old_seg (as_size old_seg - i)) (\<lambda>a.
        res_bind (seg_as_num new_seg (as_size new_seg - i)) (\<lambda>b.
          if as_of a \<noteq> as_of b then Inr False else suffix_matches old_seg new_seg is)))"

text \<open>\<open>pad_segment\<close> returns the new segment and by how much it raised \<open>_path_len\<close>.\<close>

definition pad_segment :: "as_segment \<Rightarrow> as_segment \<Rightarrow> (as_segment \<times> nat) res" where
  "pad_segment old_seg new_seg =
     (if seg_type new_seg = AS_SET then res_map (\<lambda>s. (s, 0)) (pad_set old_seg new_seg)
      else if seg_type old_seg = AS_SET then res_map (\<lambda>s. (s, 0)) (pad_set old_seg (set_type new_seg AS_SET))
      else res_bind (suffix_matches old_seg new_seg [1 ..< Suc (as_size new_seg)]) (\<lambda>same.
        if \<not> same then res_map (\<lambda>s. (s, 0)) (pad_set old_seg (set_type new_seg AS_SET))
        else let missing = as_size old_seg - as_size new_seg in
          Inr (foldr (\<lambda>a s. seg_prepend_as s a) (take missing (aslist old_seg)) new_seg, missing)))"

text \<open>
  \<open>do_patchup\<close> collects numbers of the AS_PATH that are not in this path. Its outer loop counts to
  \<open>as_path.path_length()\<close> and indexes the segments with the counter.
\<close>

fun patchup_seg :: "as_path \<Rightarrow> as_path \<Rightarrow> as_num list \<Rightarrow> as_segment \<Rightarrow> as_segment \<times> bool" where
  "patchup_seg as_path p [] new_set = (new_set, False)"
| "patchup_seg as_path p (asn # asns) new_set =
     (if as_of asn = AS_TRAN then patchup_seg as_path p asns new_set
      else if \<not> path_contains p asn then
        (let new_set' = add_as new_set asn in
         if of_nat (seg_path_length new_set') + path_len p = path_len as_path then (new_set', True)
         else patchup_seg as_path p asns new_set')
      else patchup_seg as_path p asns new_set)"

function patchup_loop :: "as_path \<Rightarrow> as_path \<Rightarrow> nat \<Rightarrow> as_segment \<Rightarrow> as_segment res" where
  "patchup_loop as_path p i new_set =
     (if i < unat (path_len as_path) then
        res_bind (segment as_path i) (\<lambda>s.
          if length (aslist s) < seg_path_length s then Inl OutOfBounds
          else case patchup_seg as_path p (take (seg_path_length s) (aslist s)) new_set of (new_set', enough) \<Rightarrow>
            if enough then Inr new_set' else patchup_loop as_path p (Suc i) new_set')
      else Inr new_set)"
  by pat_completeness auto
termination by (relation "measure (\<lambda>(a, p, i, s). unat (path_len a) - i)") auto

function patchup_pad :: "as_path \<Rightarrow> as_path \<Rightarrow> as_path res" where
  "patchup_pad as_path p =
     (if path_len as_path > path_len p then
        res_bind (path_first_asnum p) (\<lambda>a. res_bind (path_prepend_as p a) (\<lambda>p'. patchup_pad as_path p'))
      else Inr p)"
  by pat_completeness auto
termination
proof (relation "measure (\<lambda>(a, p). unat (path_len a) - unat (path_len p))", goal_cases)
  case (2 as_path p a q)
  then have "path_len q = path_len p + 1"
    by (auto simp: path_prepend_as_def split: list.splits if_splits)
  moreover have "Suc (unat (path_len p)) < 2 ^ 64"
    using 2(1) unsigned_less [of "path_len as_path", where 'a = nat] by (simp add: word_less_nat_alt)
  then have "unat (path_len p + 1) = Suc (unat (path_len p))"
    by (simp add: unat_word_ariths)
  ultimately show ?case using 2(1) by (simp add: word_less_nat_alt)
qed simp

definition do_patchup :: "as_path \<Rightarrow> as_path \<Rightarrow> as_path res" where
  "do_patchup as_path p =
     res_bind (patchup_loop as_path p 0 (new_segment AS_SET)) (\<lambda>new_set.
       case segments p of
         [] \<Rightarrow> Inl OutOfBounds
       | s # ss \<Rightarrow>
           if seg_type s = AS_SET then
             (if length (aslist new_set) < seg_path_length new_set then Inl OutOfBounds
              else patchup_pad as_path
                (p\<lparr>segments := foldl add_as s (take (seg_path_length new_set) (aslist new_set)) # ss\<rparr>))
           else patchup_pad as_path (prepend_segment p new_set))"

text \<open>
  The loop of \<open>cross_validate\<close> walks both paths from the end. \<open>do_patchup\<close> may add segments at the
  front while the reference \<open>new_seg\<close> stays with its segment.
\<close>

function cross_loop :: "as_path \<Rightarrow> nat \<Rightarrow> as_path \<Rightarrow> as_path res" where
  "cross_loop as_path i p =
     (if i \<le> unat (num_segments p) then
        (if unat (num_segments as_path) < i then Inl XlogFatal
         else res_bind (segment as_path (unat (num_segments as_path) - i)) (\<lambda>old_seg.
           res_bind (segment p (unat (num_segments p) - i)) (\<lambda>new_seg.
             if seg_path_length old_seg = seg_path_length new_seg then cross_loop as_path (Suc i) p
             else let n = unat (num_segments p) - i in
               res_bind (if seg_path_length old_seg < seg_path_length new_seg then do_patchup as_path p else Inr p) (\<lambda>p'.
                 let n' = n + length (segments p') - length (segments p); new_seg' = segments p' ! n' in
                 if seg_path_length old_seg > seg_path_length new_seg' then
                   res_bind (pad_segment old_seg new_seg') (\<lambda>(s, grown).
                     cross_loop as_path (Suc i) (p'\<lparr>segments := (segments p')[n' := s],
                       path_len := path_len p' + of_nat grown\<rparr>))
                 else cross_loop as_path (Suc i) p'))))
      else Inr p)"
  by pat_completeness auto
termination by (relation "measure (\<lambda>(a, i, p). Suc (unat (num_segments a)) - i)") auto

declare patchup_loop.simps [simp del] patchup_pad.simps [simp del] cross_loop.simps [simp del]

fun add_segments_from :: "as_path \<Rightarrow> nat list \<Rightarrow> as_path \<Rightarrow> as_path res" where
  "add_segments_from as_path [] p = Inr p"
| "add_segments_from as_path (i # is) p =
     res_bind (segment as_path i) (\<lambda>s. add_segments_from as_path is (add_segment p s))"

fun prepend_segments_from :: "as_path \<Rightarrow> nat list \<Rightarrow> as_path \<Rightarrow> as_path res" where
  "prepend_segments_from as_path [] p = Inr p"
| "prepend_segments_from as_path (i # is) p =
     res_bind (segment as_path i) (\<lambda>s. prepend_segments_from as_path is (prepend_segment p s))"

definition cross_validate :: "as_path \<Rightarrow> as_path \<Rightarrow> as_path res" where
  "cross_validate as_path p =
     (if path_len as_path < path_len p then
        add_segments_from as_path [0 ..< unat (num_segments as_path)] (p\<lparr>segments := []\<rparr>)
      else if path_len as_path > path_len p then
        (if num_segments as_path < num_segments p then do_patchup as_path p
         else res_bind (cross_loop as_path 1 p) (\<lambda>p'.
           if path_len as_path = path_len p' then Inr p'
           else if \<not> num_segments as_path > num_segments p' then Inl XlogAssert
           else res_bind (prepend_segments_from as_path
                  (rev [0 ..< unat (num_segments as_path) - unat (num_segments p')]) p') (\<lambda>q.
             if path_len as_path \<noteq> path_len q then Inl XlogAssert else Inr q)))
      else Inr p)"

text \<open>\<open>merge_as4_path\<close> returns the AS_PATH object and the AS4_PATH object, both of which it changes.\<close>

definition merge_as4_path :: "as_path \<Rightarrow> as_path \<Rightarrow> (as_path \<times> as_path) res" where
  "merge_as4_path this as4_path =
     res_map (\<lambda>q. (path_assign this q, q)) (cross_validate this as4_path)"

subsection \<open>Decoding what was encoded\<close>

lemma seg4_decode_as_encoded:
  "seg4_decode_as (length as) (concat (map (\<lambda>a. le_bytes (htonl (as4 a))) as) @ d) s
     = Inr (s\<lparr>aslist := aslist s @ as\<rparr>)"
  by (induction as arbitrary: s) (simp_all add: add_as_def le_bytes_def)

lemma seg4_encode_Inr_iff:
  "seg4_encode s (Some (seg4_wire_size s)) = Inr b \<longleftrightarrow> length (aslist s) \<le> 255
     \<and> b = seg_type_code (seg_type s) # of_nat (length (aslist s))
         # concat (map (\<lambda>a. le_bytes (htonl (as4 a))) (aslist s))"
  by (auto simp: seg4_encode_def)

lemma length_concat_le_bytes: "length (concat (map (\<lambda>a. le_bytes (htonl (as4 a))) as)) = 4 * length as"
  by (induction as) (simp_all add: le_bytes_def)

lemma seg4_decode_encoded:
  assumes "seg4_encode s (Some (seg4_wire_size s)) = Inr b"
  shows "seg4_decode (b @ d) = Inr s" "length b = seg4_wire_size s" "b ! 1 = of_nat (length (aslist s))"
proof -
  from assms have b: "length (aslist s) \<le> 255" "b = seg_type_code (seg_type s) # of_nat (length (aslist s))
      # concat (map (\<lambda>a. le_bytes (htonl (as4 a))) (aslist s))"
    by (simp_all only: seg4_encode_Inr_iff)
  show "seg4_decode (b @ d) = Inr s"
    using seg4_decode_as_encoded [of "aslist s" d "new_segment (seg_type s)"] b(1)
    by (simp add: b(2) unat_of_nat_u8 new_segment_def del: unsigned_of_nat)
  show "length b = seg4_wire_size s" "b ! 1 = of_nat (length (aslist s))"
    by (simp_all add: b(2) length_concat_le_bytes seg4_wire_size_def)
qed

lemma path4_decode_loop_step:
  assumes "seg4_encode s (Some (seg4_wire_size s)) = Inr b"
  shows "path4_decode_loop (b @ d) (length b + l) p = path4_decode_loop d l (add_segment p s)"
proof -
  note e = seg4_decode_encoded [OF assms]
  have len: "length (aslist s) \<le> 255" using assms by (simp add: seg4_encode_Inr_iff)
  have "2 \<le> length b" using e(2) by (simp add: seg4_wire_size_def)
  then have "(b @ d) ! 1 = of_nat (length (aslist s))" using e(3) by (simp add: nth_append)
  then have n: "2 + unat ((b @ d) ! 1) * 4 = length b"
    using e(2) len by (simp add: unat_of_nat_u8 seg4_wire_size_def del: unsigned_of_nat)
  show ?thesis
    unfolding path4_decode_loop.simps [of "b @ d"] Let_def n e(1) using \<open>2 \<le> length b\<close> by auto
qed

lemma seg4_decode_as_inv:
  "seg4_decode_as n d s = Inr t \<Longrightarrow> \<exists>as. length as = n \<and> t = s\<lparr>aslist := aslist s @ as\<rparr>
     \<and> take (4 * n) d = concat (map (\<lambda>a. le_bytes (htonl (as4 a))) as) \<and> 4 * n \<le> length d"
proof (induction n d s rule: seg4_decode_as.induct)
  case (2 n a b c e d s)
  then obtain as where as: "length as = n" "take (4 * n) d = concat (map (\<lambda>a. le_bytes (htonl (as4 a))) as)"
      "4 * n \<le> length d"
      "t = add_as s (AsNum (htonl (of_le_bytes a b c e)))\<lparr>aslist := aslist (add_as s (AsNum (htonl (of_le_bytes a b c e)))) @ as\<rparr>"
    by auto
  then show ?case
    by (intro exI [of _ "AsNum (htonl (of_le_bytes a b c e)) # as"])
      (simp add: add_as_def numeral_eq_Suc)
qed simp_all

lemma seg4_decode_inv:
  assumes "seg4_decode d = Inr s"
  shows "seg4_encode s (Some (seg4_wire_size s)) = Inr (take (seg4_wire_size s) d)"
    "seg4_wire_size s \<le> length d" "unat (d ! 1) = length (aslist s)"
proof -
  from assms obtain d0 d1 d' t where d: "d = d0 # d1 # d'" "d0 = seg_type_code t"
      "seg4_decode_as (unat d1) d' (new_segment t) = Inr s"
    by (cases d rule: seg4_decode.cases) (auto simp: seg_type_of_code_inv)
  from seg4_decode_as_inv [OF d(3)] obtain as where as: "length as = unat d1" "s = \<lparr>seg_type = t, aslist = as\<rparr>"
      "take (4 * unat d1) d' = concat (map (\<lambda>a. le_bytes (htonl (as4 a))) as)" "4 * unat d1 \<le> length d'"
    by (auto simp: new_segment_def)
  have "length as \<le> 255" using as(1) unsigned_less [of d1, where 'a = nat] by simp
  moreover have "take (seg4_wire_size s) d = d0 # d1 # take (4 * unat d1) d'"
    using as(1) by (simp add: as(2) seg4_wire_size_def d(1))
  moreover have "of_nat (length as) = d1" using as(1) by simp
  ultimately show "seg4_encode s (Some (seg4_wire_size s)) = Inr (take (seg4_wire_size s) d)"
    unfolding seg4_encode_Inr_iff using as(3) by (simp add: as(2) d(2))
  show "seg4_wire_size s \<le> length d" using as(1,4) by (simp add: seg4_wire_size_def as(2) d(1))
  show "unat (d ! 1) = length (aslist s)" by (simp add: d(1) as(1,2))
qed

lemma path4_decode_loop_inv:
  assumes "path4_decode_loop d (Suc l) p = Inr q"
  shows "\<exists>s b l'. seg4_encode s (Some (seg4_wire_size s)) = Inr b \<and> id s = s \<and> b \<noteq> []
    \<and> d = b @ drop (length b) d \<and> Suc l = length b + l'
    \<and> path4_decode_loop (drop (length b) d) l' (add_segment p s) = Inr q"
proof -
  let ?len = "2 + unat (d ! 1) * 4"
  from assms obtain s where s: "?len \<le> Suc l" "seg4_decode d = Inr s"
      "path4_decode_loop (drop ?len d) (Suc l - ?len) (add_segment p s) = Inr q"
    by (subst (asm) path4_decode_loop.simps)
      (auto simp: Let_def simp del: seg4_decode.simps split: if_splits)
  note i = seg4_decode_inv [OF s(2)]
  have len: "?len = seg4_wire_size s" using i(3) by (simp add: seg4_wire_size_def)
  let ?b = "take (seg4_wire_size s) d"
  have lb: "length ?b = seg4_wire_size s" using i(2) by simp
  show ?thesis
  proof (intro exI conjI)
    show "seg4_encode s (Some (seg4_wire_size s)) = Inr ?b" by (fact i(1))
    show "?b \<noteq> []" using lb by (metis list.size(3) add_2_eq_Suc nat.distinct(1) seg4_wire_size_def)
    show "d = ?b @ drop (length ?b) d" by (simp only: lb append_take_drop_id)
    show "Suc l = length ?b + (Suc l - seg4_wire_size s)" unfolding lb using s(1) len by linarith
    show "path4_decode_loop (drop (length ?b) d) (Suc l - seg4_wire_size s) (add_segment p s) = Inr q"
      unfolding lb using s(3) unfolding len .
  qed simp
qed

interpretation four_byte: segment_codec
  "\<lambda>s. seg4_encode s (Some (seg4_wire_size s))" path4_decode_loop id
  by (unfold_locales, simp add: path4_decode_loop.simps, simp add: path4_decode_loop_step,
      erule path4_decode_loop_inv)

lemma encode4_segments_ok:
  "list_all (\<lambda>s. length (aslist s) \<le> 255) ss \<Longrightarrow>
     \<exists>b. encode_segments (\<lambda>s. seg4_encode s (Some (seg4_wire_size s))) ss = Inr b
       \<and> length b = sum_list (map seg4_wire_size ss)"
proof (induction ss)
  case (Cons s ss)
  obtain b where "seg4_encode s (Some (seg4_wire_size s)) = Inr b"
    using Cons.prems by (simp add: seg4_encode_def)
  moreover from this have "length b = seg4_wire_size s" by (rule seg4_decode_encoded(2))
  ultimately show ?case using Cons by auto
qed simp

subsection \<open>Merging an AS4_PATH that two-byte speakers have not seen\<close>

lemma segment_path_of:
  "n < length ss \<Longrightarrow> length ss < 2 ^ 64 \<Longrightarrow> segment (path_of ss) n = Inr (ss ! n)"
  by (simp add: segment_def unat_of_nat take_bit_nat_eq_self)

lemma unat_num_segments: "length ss < 2 ^ 64 \<Longrightarrow> unat (num_segments (path_of ss)) = length ss"
  by (simp add: unat_of_nat take_bit_nat_eq_self)

lemma suffix_matches_squash:
  "\<forall>i \<in> set is. 0 < i \<and> i \<le> length ys \<Longrightarrow>
     suffix_matches (as_seq (xs @ map squash ys)) (as_seq ys) is = Inr True"
proof (induction "is")
  case (Cons i "is")
  then have i: "0 < i" "i \<le> length ys" by simp_all
  then have "length xs + length ys - i = length xs + (length ys - i)" "length ys - i < length ys" by linarith+
  then have "(xs @ map squash ys) ! (length xs + length ys - i) = squash (ys ! (length ys - i))"
    by (simp only: nth_append_length_plus nth_map)
  moreover have "length xs + length ys - i < length xs + length ys" "length ys - i < length ys" using i by linarith+
  ultimately show ?case using Cons i by (simp add: as_size_def seg_as_num_def)
qed simp

lemma foldr_seg_prepend: "foldr (\<lambda>a s. seg_prepend_as s a) as s = s\<lparr>aslist := as @ aslist s\<rparr>"
  by (induction as) (simp_all add: seg_prepend_as_def)

lemma pad_segment_sequence:
  "pad_segment (as_seq (xs @ map squash ys)) (as_seq ys) = Inr (as_seq (xs @ ys), length xs)"
proof -
  have "suffix_matches (as_seq (xs @ map squash ys)) (as_seq ys) [Suc 0 ..< Suc (length ys)] = Inr True"
    by (rule suffix_matches_squash) auto
  then show ?thesis by (simp add: pad_segment_def as_size_def foldr_seg_prepend del: upt_Suc)
qed

lemma cross_loop_at:
  assumes "0 < i" "i \<le> length ns" "i \<le> length os" "length ns < 2 ^ 64" "length os < 2 ^ 64"
    and old: "os ! (length os - i) = old_seg" and new: "ns ! (length ns - i) = new_seg"
  shows "seg_path_length old_seg = seg_path_length new_seg \<Longrightarrow>
      cross_loop (path_of os) i (path_of ns) = cross_loop (path_of os) (Suc i) (path_of ns)"
    and "seg_path_length old_seg > seg_path_length new_seg \<Longrightarrow> pad_segment old_seg new_seg = Inr (s, g) \<Longrightarrow>
      cross_loop (path_of os) i (path_of ns) = cross_loop (path_of os) (Suc i)
        ((path_of ns)\<lparr>segments := ns[length ns - i := s], path_len := path_len (path_of ns) + of_nat g\<rparr>)"
proof -
  have b: "length os - i < length os" "length ns - i < length ns" using assms(1-3) by linarith+
  note facts = unat_num_segments [OF assms(4)] unat_num_segments [OF assms(5)]
    segment_path_of [OF b(1) assms(5), unfolded old] segment_path_of [OF b(2) assms(4), unfolded new]
  have c: "(i \<le> length ns) = True" "(length os < i) = False" using assms(2,3) by simp_all
  show "cross_loop (path_of os) i (path_of ns) = cross_loop (path_of os) (Suc i) (path_of ns)"
    if "seg_path_length old_seg = seg_path_length new_seg"
    unfolding cross_loop.simps [of _ i] facts c res_bind.simps that by simp
  show "cross_loop (path_of os) i (path_of ns) = cross_loop (path_of os) (Suc i)
      ((path_of ns)\<lparr>segments := ns[length ns - i := s], path_len := path_len (path_of ns) + of_nat g\<rparr>)"
    if "seg_path_length old_seg > seg_path_length new_seg" "pad_segment old_seg new_seg = Inr (s, g)"
  proof -
    have "(seg_path_length old_seg = seg_path_length new_seg) = False"
        "(seg_path_length old_seg < seg_path_length new_seg) = False" "(seg_path_length old_seg > seg_path_length new_seg) = True"
      using that(1) by simp_all
    moreover have "length ns - i + length (segments (path_of ns)) - length (segments (path_of ns)) = length ns - i"
      by simp
    ultimately show ?thesis
      unfolding cross_loop.simps [of _ i] facts c res_bind.simps Let_def if_True if_False
      by (simp only: res_bind.simps if_True if_False path_of_sel(1) new that(2) prod.case)
  qed
qed

lemma cross_loop_end: "length ns < i \<Longrightarrow> length ns < 2 ^ 64 \<Longrightarrow> cross_loop p i (path_of ns) = Inr (path_of ns)"
  unfolding cross_loop.simps [of p i] by (simp add: unat_num_segments del: path_of_sel(2))

lemma cross_loop_tail:
  assumes "length (pre @ s # ss) < 2 ^ 64" "0 < i" "i \<le> Suc (length ss)"
  shows "cross_loop (path_of (pre @ s # map squash_seg ss)) i (path_of (t # ss))
    = cross_loop (path_of (pre @ s # map squash_seg ss)) (Suc (length ss)) (path_of (t # ss))"
  using assms(2,3)
proof (induction "Suc (length ss) - i" arbitrary: i)
  case (Suc j)
  then have i: "i \<le> length ss" "length ss - i < length ss" by linarith+
  let ?os = "pre @ s # map squash_seg ss" and ?ns = "t # ss"
  have "length ?os - i = length pre + Suc (length ss - i)" using i by simp
  then have old: "?os ! (length ?os - i) = squash_seg (ss ! (length ss - i))"
    using i(2) by (simp only: nth_append_length_plus nth_Cons_Suc nth_map)
  have new: "?ns ! (length ?ns - i) = ss ! (length ss - i)"
    using i by (simp add: Suc_diff_le)
  have "cross_loop (path_of ?os) i (path_of ?ns) = cross_loop (path_of ?os) (Suc i) (path_of ?ns)"
    by (rule cross_loop_at(1) [OF _ _ _ _ _ old new]) (use Suc.prems i assms(1) in simp_all)
  with Suc i show ?case by simp
qed simp

lemma cross_loop_honest:
  assumes "length (pre @ s # ss) < 2 ^ 64" "s = as_seq (xs @ map squash ys)"
  shows "cross_loop (path_of (pre @ s # map squash_seg ss)) 1 (path_of (as_seq ys # ss))
    = Inr (path_of (as_seq (xs @ ys) # ss))"
proof -
  let ?os = "pre @ s # map squash_seg ss" and ?ns = "as_seq ys # ss" and ?i = "Suc (length ss)"
  have old: "?os ! (length ?os - ?i) = s" and new: "?ns ! (length ?ns - ?i) = as_seq ys"
    by simp_all
  have "cross_loop (path_of ?os) ?i (path_of ?ns) = cross_loop (path_of ?os) (Suc ?i) (path_of (as_seq (xs @ ys) # ss))"
  proof (cases "xs = []")
    case True
    have "cross_loop (path_of ?os) ?i (path_of ?ns) = cross_loop (path_of ?os) (Suc ?i) (path_of ?ns)"
      by (rule cross_loop_at(1) [OF _ _ _ _ _ old new]) (use assms True in \<open>simp_all add: seg_path_length_def\<close>)
    with True show ?thesis by simp
  next
    case False
    have "cross_loop (path_of ?os) ?i (path_of ?ns) = cross_loop (path_of ?os) (Suc ?i)
        ((path_of ?ns)\<lparr>segments := ?ns[length ?ns - ?i := as_seq (xs @ ys)],
          path_len := path_len (path_of ?ns) + of_nat (length xs)\<rparr>)"
      by (rule cross_loop_at(2) [OF _ _ _ _ _ old new])
        (use assms False in \<open>simp_all add: seg_path_length_def pad_segment_sequence\<close>)
    moreover have "(path_of ?ns)\<lparr>segments := ?ns[length ?ns - ?i := as_seq (xs @ ys)],
        path_len := path_len (path_of ?ns) + of_nat (length xs)\<rparr> = path_of (as_seq (xs @ ys) # ss)"
      by (simp add: path_of_def seg_path_length_def)
    ultimately show ?thesis by simp
  qed
  also have "\<dots> = Inr (path_of (as_seq (xs @ ys) # ss))"
    by (rule cross_loop_end) (use assms in simp_all)
  finally show ?thesis using cross_loop_tail [OF assms(1), of 1 "as_seq ys"] by simp
qed

lemma prepend_segments_from_eq:
  "n \<le> length os \<Longrightarrow> length os < 2 ^ 64 \<Longrightarrow>
     prepend_segments_from (path_of os) (rev [0 ..< n]) (path_of ms) = Inr (path_of (take n os @ ms))"
proof (induction n arbitrary: ms)
  case (Suc n)
  then show ?case using segment_path_of [of n os] by (simp add: take_Suc_conv_app_nth)
qed simp

abbreviation segs_length :: "as_segment list \<Rightarrow> nat" where
  "segs_length ss \<equiv> sum_list (map seg_path_length ss)"

lemma map_seg_path_length_squash [simp]: "map (seg_path_length \<circ> squash_seg) ss = map seg_path_length ss"
  by (simp add: comp_def)

lemma positive_segs_length: "list_all (\<lambda>s. 0 < seg_path_length s) ss \<Longrightarrow> ss \<noteq> [] \<Longrightarrow> 0 < segs_length ss"
  by (cases ss) auto

lemma cross_validate_honest:
  assumes "list_all (\<lambda>s. 0 < seg_path_length s) pre" "length (pre @ as_seq xs # ss) < 2 ^ 64"
    "segs_length (pre @ as_seq (xs @ ys) # ss) < 2 ^ 64"
  shows "cross_validate (path_of (pre @ as_seq (xs @ map squash ys) # map squash_seg ss)) (path_of (as_seq ys # ss))
    = Inr (path_of (pre @ as_seq (xs @ ys) # ss))"
proof -
  let ?os = "pre @ as_seq (xs @ map squash ys) # map squash_seg ss" and ?ns = "as_seq ys # ss"
  let ?ms = "as_seq (xs @ ys) # ss"
  have pl: "path_len (path_of ?os) = of_nat (segs_length (pre @ ?ms))"
      "path_len (path_of ?ns) = of_nat (length ys + segs_length ss)"
      "path_len (path_of ?ms) = of_nat (length xs + length ys + segs_length ss)"
      "segs_length (pre @ ?ms) = segs_length pre + length xs + length ys + segs_length ss"
    by (simp_all add: seg_path_length_def)
  have bl: "segs_length (pre @ ?ms) < 2 ^ 64" "length ys + segs_length ss < 2 ^ 64"
      "length xs + length ys + segs_length ss < 2 ^ 64"
    using assms(3) pl(4) by linarith+
  have nb: "length ?os < 2 ^ 64" "length ?ns < 2 ^ 64" "length ?ms < 2 ^ 64" using assms(2) by simp_all
  have ns: "num_segments (path_of ?os) = of_nat (length ?os)" "num_segments (path_of ?ns) = of_nat (length ?ns)"
      "num_segments (path_of ?ms) = of_nat (length ?ms)" by (simp_all only: path_of_sel)
  note w = of_nat_u64_less of_nat_u64_eq
  show ?thesis
  proof (cases "pre = [] \<and> xs = []")
    case True
    then show ?thesis by (simp add: cross_validate_def seg_path_length_def)
  next
    case False
    then have more: "segs_length (pre @ ?ms) > length ys + segs_length ss"
      using positive_segs_length [OF assms(1)] pl(4) by (cases "pre = []") auto
    have c: "cross_loop (path_of ?os) 1 (path_of ?ns) = Inr (path_of ?ms)"
      by (rule cross_loop_honest) (use assms(2) in simp_all)
    have cv: "cross_validate (path_of ?os) (path_of ?ns) =
        (if path_len (path_of ?os) = path_len (path_of ?ms) then Inr (path_of ?ms)
         else if \<not> num_segments (path_of ?os) > num_segments (path_of ?ms) then Inl XlogAssert
         else res_bind (prepend_segments_from (path_of ?os)
                (rev [0 ..< unat (num_segments (path_of ?os)) - unat (num_segments (path_of ?ms))]) (path_of ?ms)) (\<lambda>q.
           if path_len (path_of ?os) \<noteq> path_len q then Inl XlogAssert else Inr q))"
    proof -
      have "\<not> path_len (path_of ?os) < path_len (path_of ?ns)" "path_len (path_of ?os) > path_len (path_of ?ns)"
        unfolding pl(1,2) w(1) [OF bl(1,2)] w(1) [OF bl(2,1)] using more by linarith+
      moreover have "\<not> num_segments (path_of ?os) < num_segments (path_of ?ns)"
        unfolding ns w(1) [OF nb(1,2)] by simp
      ultimately show ?thesis unfolding cross_validate_def c by (simp only: if_False if_True res_bind.simps)
    qed
    show ?thesis
    proof (cases "pre = []")
      case True
      then show ?thesis unfolding cv pl by (simp add: seg_path_length_def)
    next
      case pre: False
      then have "path_len (path_of ?os) \<noteq> path_len (path_of ?ms)"
        unfolding pl(1,3) w(2) [OF bl(1,3)] using positive_segs_length [OF assms(1)] pl(4) by linarith
      moreover have "num_segments (path_of ?os) > num_segments (path_of ?ms)"
        unfolding ns w(1) [OF nb(3,1)] using pre by simp
      moreover have "unat (num_segments (path_of ?os)) - unat (num_segments (path_of ?ms)) = length pre"
        unfolding unat_num_segments [OF nb(1)] unat_num_segments [OF nb(3)] by simp
      moreover have "prepend_segments_from (path_of ?os) (rev [0 ..< length pre]) (path_of ?ms) = Inr (path_of (pre @ ?ms))"
        using prepend_segments_from_eq [of "length pre" ?os ?ms] nb(1) by simp
      ultimately show ?thesis unfolding cv using pl(1) by (simp only: if_False if_True res_bind.simps simp_thms path_of_sel(3))
    qed
  qed
qed

subsection \<open>The padding loop\<close>

lemma pad_to_size_returns:
  "pad_to_size old_seg new_seg = Some r \<Longrightarrow> \<not> as_size old_seg < as_size new_seg"
proof (induction rule: pad_to_size.raw_induct [rotated, consumes 1])
  case (1 pad old_seg new_seg r)
  show ?case
  proof
    assume less: "as_size old_seg < as_size new_seg"
    then obtain a where a: "seg_first_asnum new_seg = Inr a"
      by (cases "aslist new_seg") (auto simp: as_size_def seg_first_asnum_def)
    with 1(2) less have "pad old_seg (seg_prepend_as new_seg a) = Some r" by simp
    from 1(1) [OF this] less show False by (simp add: as_size_def)
  qed
qed

lemma pad_to_size_diverges: "as_size old_seg < as_size new_seg \<Longrightarrow> pad_to_size old_seg new_seg = None"
  using pad_to_size_returns by (cases "pad_to_size old_seg new_seg") auto

lemma pad_missing_size: "as_size s \<le> as_size (foldr pad_missing as s)"
  by (induction as) (auto simp: pad_missing_def as_size_def)

lemma pad_set_diverges:
  "length (aslist old_seg) < length (aslist new_seg) \<Longrightarrow> pad_set old_seg new_seg = Inl Diverges"
  using pad_missing_size [of new_seg "aslist old_seg"]
  by (simp add: pad_set_def pad_to_size_diverges as_size_def)

subsection \<open>Properties\<close>

text \<open>
  A path with right counters and at most 255 numbers in a segment survives the four-byte
  wire format unchanged, whatever follows it in the buffer, and takes \<open>wire_size()\<close> bytes.
\<close>

theorem as4_path_wire_roundtrip:
  assumes "path_ok p" "list_all (\<lambda>s. as_size s \<le> 255) (segments p)"
  shows "\<exists>b. path4_encode p None = Inr b \<and> length b = path4_wire_size p
    \<and> path4_decode (b @ rest) (length b) = Inr p"
proof -
  from encode4_segments_ok [of "segments p"] assms(2) obtain b where
      "encode_segments (\<lambda>s. seg4_encode s (Some (seg4_wire_size s))) (segments p) = Inr b"
      "length b = path4_wire_size p"
    by (auto simp: as_size_def path4_wire_size_def)
  moreover have "p = path_of (segments p)" using assms(1) by (simp only: path_ok_iff)
  ultimately show ?thesis
    using four_byte.decode_encoded [of "segments p" b rest empty_path] assms(1)
    by (simp add: path4_encode_def path4_decode_def path_ok_def empty_path_eq)
qed

theorem as4_path_wire_roundtrip_witness:
  "\<exists>b. path4_encode (path_of [as_seq [AsNum 196608]]) None = Inr b \<and> length b = 6
     \<and> path4_decode b 6 = Inr (path_of [as_seq [AsNum 196608]])"
  using as4_path_wire_roundtrip [of "path_of [as_seq [AsNum 196608]]" "[]"]
  by (auto simp: as_size_def path4_wire_size_def seg4_wire_size_def)

text \<open>
  C20: When the AS_PATH is the two-byte view of the AS4_PATH with numbers prepended to its first
  sequence and segments added in front by two-byte speakers, the merge returns; the AS_PATH
  object then has every four-byte number of the AS4_PATH, every number that was added, in order,
  and right counters.
\<close>

theorem merge_as4_path_correct:
  assumes "list_all (\<lambda>s. 0 < seg_path_length s) pre" "length (pre @ as_seq xs # ss) < 2 ^ 64"
    "segs_length (pre @ as_seq (xs @ ys) # ss) < 2 ^ 64"
  shows "\<exists>q. merge_as4_path (path_of (pre @ as_seq (xs @ map squash ys) # map squash_seg ss)) (path_of (as_seq ys # ss))
    = Inr (path_of (pre @ as_seq (xs @ ys) # ss), q)"
  using cross_validate_honest [OF assms]
  by (simp add: merge_as4_path_def path_assign_def path_of_def seg_path_length_def)

theorem merge_as4_path_correct_witness:
  "\<exists>q. merge_as4_path (path_of [as_seq [AsNum 7, AsNum 23456]]) (path_of [as_seq [AsNum 196608]])
     = Inr (path_of [as_seq [AsNum 7, AsNum 196608]], q)"
proof -
  have "squash (AsNum 196608) = AsNum 23456" by (simp add: squash_extended extended_def)
  with merge_as4_path_correct [of "[]" "[AsNum 7]" "[]" "[AsNum 196608]"] show ?thesis
    by (simp add: seg_path_length_def)
qed

text \<open>
  C37: A received AS4_PATH of one AS set that has more numbers than the one longer AS sequence of
  the AS_PATH makes the merge run forever: the loop that should enlarge the set until it has the
  size of the sequence runs as long as the set is larger.
\<close>

theorem merge_as4_path_diverges:
  assumes "2 \<le> length xs" "length xs < length ys" "length ys < 2 ^ 64"
  shows "merge_as4_path (path_of [as_seq xs]) (path_of [as_set ys]) = Inl Diverges"
proof -
  have b: "length xs < 2 ^ 64" "(1 :: nat) < 2 ^ 64" using assms by simp_all
  have "pad_segment (as_seq xs) (as_set ys) = Inl Diverges"
    using pad_set_diverges [of "as_seq xs" "as_set ys"] assms(2) by (simp add: pad_segment_def)
  then have "cross_loop (path_of [as_seq xs]) 1 (path_of [as_set ys]) = Inl Diverges"
    unfolding cross_loop.simps [of _ 1] using assms(1) by (cases "xs = []") (simp_all add: segment_def seg_path_length_def)
  moreover have "of_nat (length xs) > (1 :: u64)"
    using of_nat_u64_less [OF b(2,1)] assms(1) by simp
  moreover have "of_nat (length xs) \<noteq> (0 :: u64)"
    using of_nat_u64_eq [OF b(1), of 0] assms(1) by auto
  ultimately show ?thesis
    by (simp add: merge_as4_path_def cross_validate_def seg_path_length_def)
qed

theorem merge_as4_path_diverges_witness:
  "merge_as4_path (path_of [as_seq [AsNum 1, AsNum 2]]) (path_of [as_set [AsNum 3, AsNum 4, AsNum 5]])
     = Inl Diverges"
  using merge_as4_path_diverges [of "[AsNum 1, AsNum 2]" "[AsNum 3, AsNum 4, AsNum 5]"] by simp

text \<open>Other inputs on which the merge or its result stops the process.\<close>

lemma merge_as4_path_stale_counter:
  "\<exists>p q. merge_as4_path (path_of [as_seq [AsNum 1, AsNum 2]]) (path_of [as_seq [AsNum 1], as_seq [AsNum 2]])
      = Inr (p, q) \<and> path_encode p None = Inl XlogAssert"
  by (simp add: merge_as4_path_def cross_validate_def path_assign_def seg_path_length_def path_encode_def)

lemma do_patchup_segment_index:
  "do_patchup (path_of [as_seq [AsNum 1, AsNum 2, AsNum 3, AsNum 4]]) (path_of [as_seq [AsNum 8], as_seq [AsNum 9]])
     = Inl XlogFatal"
  by (simp add: do_patchup_def patchup_loop.simps segment_def seg_path_length_def path_contains_def
      seg_contains_def as_of_def extended_def AS_TRAN_def)

lemma as4_path_decode_asserts: "path4_decode [2, 2, 0, 0, 0, 1] 6 = Inl XlogAssert"
  by (simp add: path4_decode_def path4_decode_loop.simps)

end
