(* ===== verification/Decision.thy ===== *)
theory Decision
  imports As_Path IPNet
begin

text \<open>
  The BGP decision table (\<open>bgp/route_table_decision.hh\<close>, \<open>bgp/route_table_decision.cc\<close>): the
  phases of \<open>find_winner\<close>, and the handlers \<open>add_route\<close>, \<open>replace_route\<close>, \<open>delete_route\<close>,
  \<open>lookup_route\<close> and the peering events. Route objects and parent tables are named by their
  addresses, so that the comparisons of route pointers and the winner flag of a shared route
  object are kept. What the table calls on its neighbours is recorded: the messages to the next
  table, and the \<open>route_used\<close> notices to the parent tables.
\<close>

subsection \<open>Routes, peers and messages\<close>

datatype origin_type = IGP | EGP | INCOMPLETE

fun origin_value :: "origin_type \<Rightarrow> int" where
  "origin_value IGP = 0"
| "origin_value EGP = 1"
| "origin_value INCOMPLETE = 2"

record pa_list =
  pa_nexthop :: ipv4
  pa_aspath :: as_path
  pa_origin :: origin_type
  pa_local_pref :: "u32 option"
  pa_med :: "u32 option"

record peer_handler =
  unique_id :: u32
  peer_id :: ipv4
  ibgp :: bool

definition neighbour_address :: "peer_handler \<Rightarrow> u32" where
  "neighbour_address ph = addr (peer_id ph)"

record subnet_route =
  rt_net :: ipnet
  nexthop_resolved :: bool
  is_winner :: bool
  igp_metric :: u32

definition set_is_winner :: "u32 \<Rightarrow> subnet_route \<Rightarrow> subnet_route" where
  "set_is_winner metric r = r\<lparr>is_winner := True, igp_metric := metric\<rparr>"

definition set_is_not_winner :: "subnet_route \<Rightarrow> subnet_route" where
  "set_is_not_winner r = r\<lparr>is_winner := False\<rparr>"

record route_data =
  rd_route :: nat
  rd_attributes :: pa_list
  rd_parent_table :: nat
  rd_peer_handler :: peer_handler
  rd_genid :: u32

record internal_message =
  msg_route :: nat
  msg_attributes :: pa_list
  msg_origin_peer :: peer_handler
  msg_genid :: u32
  msg_push :: bool

datatype down_call =
    DownAdd internal_message
  | DownDelete internal_message
  | DownReplace internal_message internal_message
  | DownPush
  | DownRouteDump internal_message peer_handler
  | DownPeeringWentDown peer_handler u32
  | DownPeeringDownComplete peer_handler u32
  | DownPeeringCameUp peer_handler u32

definition ADD_USED :: int where "ADD_USED = 1"
definition ADD_UNUSED :: int where "ADD_UNUSED = 2"

record peer_table_info =
  pti_peer_handler :: peer_handler
  pti_genid :: u32

text \<open>
  The state: \<open>_parents\<close> in the order of its keys, \<open>_sorted_parents\<close> (whose values are the same
  objects, named here by the key of \<open>_parents\<close>), the route objects, what each parent's
  \<open>lookup_route\<close> finds for a prefix, what the next hop resolver answers, the next table and the
  value its \<open>add_route\<close> and \<open>replace_route\<close> return, and the calls made so far.
\<close>

record decision =
  parents :: "(nat \<times> peer_table_info) list"
  sorted_parents :: "(u32 \<times> nat) list"
  store :: "nat \<Rightarrow> subnet_route"
  tables :: "nat \<Rightarrow> ipnet \<Rightarrow> (nat \<times> pa_list \<times> u32) option"
  nexthops :: "ipv4 \<Rightarrow> (bool \<times> u32) option"
  has_next_table :: bool
  next_result :: int
  sent :: "down_call list"
  notices :: "(nat \<times> nat \<times> bool) list"

definition send :: "down_call \<Rightarrow> decision \<Rightarrow> decision" where
  "send c d = d\<lparr>sent := sent d @ [c]\<rparr>"

definition upd_route :: "nat \<Rightarrow> (subnet_route \<Rightarrow> subnet_route) \<Rightarrow> decision \<Rightarrow> decision" where
  "upd_route rt f d = d\<lparr>store := (store d)(rt := f (store d rt))\<rparr>"

definition rd_set_is_not_winner :: "route_data \<Rightarrow> decision \<Rightarrow> decision" where
  "rd_set_is_not_winner r d =
     upd_route (rd_route r) set_is_not_winner
       (d\<lparr>notices := notices d @ [(rd_parent_table r, rd_route r, False)]\<rparr>)"

subsection \<open>Parents\<close>

fun insert_key :: "'a::linorder \<Rightarrow> 'b \<Rightarrow> ('a \<times> 'b) list \<Rightarrow> ('a \<times> 'b) list" where
  "insert_key a b [] = [(a, b)]"
| "insert_key a b ((c, e) # xs) =
     (if a < c then (a, b) # (c, e) # xs else if a = c then (a, b) # xs else (c, e) # insert_key a b xs)"

definition add_parent :: "nat \<Rightarrow> peer_handler \<Rightarrow> u32 \<Rightarrow> decision \<Rightarrow> (decision \<times> int) res" where
  "add_parent new_parent ph genid d =
     (if map_of (parents d) new_parent \<noteq> None then Inr (d, -1)
      else let d' = d\<lparr>parents := insert_key new_parent \<lparr>pti_peer_handler = ph, pti_genid = genid\<rparr> (parents d)\<rparr> in
        if map_of (sorted_parents d') (unique_id ph) \<noteq> None then Inl XlogAssert
        else Inr (d'\<lparr>sorted_parents := insert_key (unique_id ph) new_parent (sorted_parents d')\<rparr>, 0))"

definition remove_parent :: "nat \<Rightarrow> decision \<Rightarrow> (decision \<times> int) res" where
  "remove_parent ex_parent d = (case map_of (parents d) ex_parent of
     None \<Rightarrow> Inl OutOfBounds
   | Some pti \<Rightarrow>
       let d' = d\<lparr>parents := filter (\<lambda>(a, b). a \<noteq> ex_parent) (parents d)\<rparr> in
       if map_of (sorted_parents d') (unique_id (pti_peer_handler pti)) = None then Inl OutOfBounds
       else Inr (d'\<lparr>sorted_parents := filter (\<lambda>(a, b). a \<noteq> unique_id (pti_peer_handler pti)) (sorted_parents d')\<rparr>, 0))"

subsection \<open>Attributes\<close>

definition local_pref :: "pa_list \<Rightarrow> u32" where
  "local_pref pa = (case pa_local_pref pa of Some v \<Rightarrow> v | None \<Rightarrow> 0)"

definition med :: "pa_list \<Rightarrow> u32" where
  "med pa = (case pa_med pa of Some v \<Rightarrow> v | None \<Rightarrow> 0)"

definition resolvable :: "decision \<Rightarrow> ipv4 \<Rightarrow> bool res" where
  "resolvable d nh = (case nexthops d nh of None \<Rightarrow> Inl XlogFatal | Some (r, metric) \<Rightarrow> Inr r)"

definition igp_distance :: "decision \<Rightarrow> ipv4 \<Rightarrow> u32 res" where
  "igp_distance d nh = (case nexthops d nh of None \<Rightarrow> Inl XlogFatal | Some (r, metric) \<Rightarrow> Inr metric)"

text \<open>An unsigned 32-bit value assigned to an \<open>int\<close>, and a \<open>size_t\<close> assigned to an \<open>int\<close>.\<close>

definition int_of_u32 :: "u32 \<Rightarrow> int" where "int_of_u32 w = sint w"
definition int_of_u64 :: "u64 \<Rightarrow> int" where "int_of_u64 w = sint (ucast w :: u32)"

subsection \<open>Choosing the winner\<close>

text \<open>
  Six phases of \<open>find_winner\<close> are the same loop: \<open>test\<close> is the best value so far and \<open>kept\<close> are the
  alternatives before the iterator, which all have it. The assertion on each value is \<open>ok\<close>.
\<close>

fun phase_loop :: "('v \<Rightarrow> bool) \<Rightarrow> ('v \<Rightarrow> 'v \<Rightarrow> bool) \<Rightarrow> (route_data \<Rightarrow> 'v res) \<Rightarrow> 'v
    \<Rightarrow> route_data list \<Rightarrow> route_data list \<Rightarrow> route_data list res" where
  "phase_loop ok better val test kept [] = Inr kept"
| "phase_loop ok better val test kept (r # rs) =
     res_bind (val r) (\<lambda>v.
       if \<not> ok v then Inl XlogAssert
       else if better test v then phase_loop ok better val test kept rs
       else if better v test then phase_loop ok better val v [r] rs
       else phase_loop ok better val test (kept @ [r]) rs)"

fun phase :: "('v \<Rightarrow> bool) \<Rightarrow> ('v \<Rightarrow> 'v \<Rightarrow> bool) \<Rightarrow> (route_data \<Rightarrow> 'v res) \<Rightarrow> route_data list \<Rightarrow> route_data list res" where
  "phase ok better val [] = Inl OutOfBounds"
| "phase ok better val (r # rs) = res_bind (val r) (\<lambda>v. phase_loop ok better val v [r] rs)"

definition phase_local_pref :: "route_data list \<Rightarrow> route_data list res" where
  "phase_local_pref = phase (\<lambda>lp. lp \<ge> 0) (\<lambda>a b. a > b) (\<lambda>r. Inr (int_of_u32 (local_pref (rd_attributes r))))"

definition phase_aspath :: "route_data list \<Rightarrow> route_data list res" where
  "phase_aspath = phase (\<lambda>len. len \<ge> 0) (\<lambda>a b. a < b) (\<lambda>r. Inr (int_of_u64 (path_len (pa_aspath (rd_attributes r)))))"

definition phase_origin :: "route_data list \<Rightarrow> route_data list res" where
  "phase_origin = phase (\<lambda>v. True) (\<lambda>a b. a < b) (\<lambda>r. Inr (origin_value (pa_origin (rd_attributes r))))"

definition phase_ebgp :: "route_data list \<Rightarrow> route_data list res" where
  "phase_ebgp = phase (\<lambda>v. True) (\<lambda>a b. \<not> a \<and> b) (\<lambda>r. Inr (ibgp (rd_peer_handler r)))"

definition phase_igp :: "decision \<Rightarrow> route_data list \<Rightarrow> route_data list res" where
  "phase_igp d = phase (\<lambda>v. True) (\<lambda>a b. a < b)
     (\<lambda>r. res_map int_of_u32 (igp_distance d (pa_nexthop (rd_attributes r))))"

definition phase_id :: "route_data list \<Rightarrow> route_data list res" where
  "phase_id = phase (\<lambda>v. True) (\<lambda>a b. a < b) (\<lambda>r. Inr (peer_id (rd_peer_handler r)))"

definition phase_address :: "route_data list \<Rightarrow> route_data list res" where
  "phase_address = phase (\<lambda>v. True) (\<lambda>a b. a < b) (\<lambda>r. Inr (int_of_u32 (neighbour_address (rd_peer_handler r))))"

text \<open>
  The MED phase compares every pair of routes from the same neighbouring AS; the positions \<open>i\<close> and
  \<open>j\<close> are the two iterators.
\<close>

definition neighbour_as :: "route_data \<Rightarrow> as_num res" where
  "neighbour_as r =
     (let aspath = pa_aspath (rd_attributes r) in
      if path_len aspath = 0 then Inr (AsNum_uint16 AS_INVALID) else path_first_asnum aspath)"

definition route_med :: "route_data \<Rightarrow> int" where
  "route_med r = int_of_u32 (med (rd_attributes r))"

definition erase_at :: "nat \<Rightarrow> 'a list \<Rightarrow> 'a list" where
  "erase_at i xs = take i xs @ drop (Suc i) xs"

function med_inner :: "as_num \<Rightarrow> int \<Rightarrow> route_data list \<Rightarrow> nat \<Rightarrow> nat \<Rightarrow> (route_data list \<times> nat \<times> bool) res" where
  "med_inner asnum1 med1 alts i j =
     (if j < length alts then
        (if i \<noteq> j then
           res_bind (neighbour_as (alts ! j)) (\<lambda>asnum2.
             let med2 = route_med (alts ! j) in
             if asnum1 = asnum2 then
               (if med1 > med2 then Inr (erase_at i alts, i, True)
                else if med1 < med2 then
                  med_inner asnum1 med1 (erase_at j alts) (if j < i then i - 1 else i) j
                else med_inner asnum1 med1 alts i (Suc j))
             else med_inner asnum1 med1 alts i (Suc j))
         else med_inner asnum1 med1 alts i (Suc j))
      else Inr (alts, i, False))"
  by pat_completeness auto
termination
  by (relation "measure (\<lambda>(a, m, alts, i, j). length alts - j)") (auto simp: erase_at_def)

declare med_inner.simps [simp del]

lemma length_erase_at [simp]: "i < length xs \<Longrightarrow> length (erase_at i xs) = length xs - 1"
  by (simp add: erase_at_def)

lemma med_inner_progress:
  "med_inner a m alts i j = Inr (alts', i', del) \<Longrightarrow> i < length alts \<Longrightarrow>
     (if del then length alts' - i' < length alts - i else i' < length alts' \<and> length alts' - i' \<le> length alts - i)"
proof (induction a m alts i j rule: med_inner.induct)
  case (1 a m alts i j)
  show ?case
  proof (cases "j < length alts \<and> i \<noteq> j")
    case False
    note eq = "1.prems"(1) [unfolded med_inner.simps [of a m alts i j]]
    show ?thesis
    proof (cases "j < length alts")
      case True
      with False eq have "med_inner a m alts i (Suc j) = Inr (alts', i', del)" by simp
      with True False "1.IH"(4) "1.prems"(2) show ?thesis by simp
    qed (use eq "1.prems"(2) in auto)
  next
    case True
    with "1.prems"(1) obtain b where b: "neighbour_as (alts ! j) = Inr b"
      by (cases "neighbour_as (alts ! j)") (auto simp: med_inner.simps [of a m alts i j])
    note eq = "1.prems"(1) [unfolded med_inner.simps [of a m alts i j]]
    consider (skip) "a \<noteq> b \<or> m = route_med (alts ! j)" | (del_i) "a = b" "m > route_med (alts ! j)"
      | (del_j) "a = b" "m < route_med (alts ! j)"
      by linarith
    then show ?thesis
    proof cases
      case skip
      then have "med_inner a m alts i (Suc j) = Inr (alts', i', del)"
        using eq True b by (auto simp: Let_def split: if_splits)
      with skip "1.IH"(2,3) True b "1.prems"(2) show ?thesis by fastforce
    next
      case del_i
      then show ?thesis using eq True b "1.prems"(2) by auto
    next
      case del_j
      then have "med_inner a m (erase_at j alts) (if j < i then i - 1 else i) j = Inr (alts', i', del)"
        using eq True b by (auto simp: Let_def)
      moreover have "(if j < i then i - 1 else i) < length (erase_at j alts)"
        using True "1.prems"(2) by auto
      ultimately have "if del then length alts' - i' < length (erase_at j alts) - (if j < i then i - 1 else i)
          else i' < length alts' \<and> length alts' - i' \<le> length (erase_at j alts) - (if j < i then i - 1 else i)"
        using "1.IH"(1) True b del_j by force
      moreover have "length (erase_at j alts) - (if j < i then i - 1 else i) \<le> length alts - i"
        using True "1.prems"(2) by auto
      ultimately show ?thesis by (auto split: if_splits)
    qed
  qed
qed

function med_outer :: "route_data list \<Rightarrow> nat \<Rightarrow> route_data list res" where
  "med_outer alts i =
     (if i < length alts then
        res_bind (neighbour_as (alts ! i)) (\<lambda>asnum1.
          res_bind (med_inner asnum1 (route_med (alts ! i)) alts i 0) (\<lambda>(alts', i', del_i).
            med_outer alts' (if del_i then i' else Suc i')))
      else Inr alts)"
  by pat_completeness auto
termination
  by (relation "measure (\<lambda>(alts, i). length alts - i)")
    (auto dest!: med_inner_progress split: if_splits)

declare med_outer.simps [simp del]

definition phase_med :: "route_data list \<Rightarrow> route_data list res" where
  "phase_med alts = med_outer alts 0"

definition find_winner :: "decision \<Rightarrow> route_data list \<Rightarrow> route_data option res" where
  "find_winner d alternatives =
     (let alts = filter (\<lambda>r. nexthop_resolved (store d (rd_route r))) alternatives in
      if alts = [] then Inr None
      else if length alts = 1 then Inr (Some (hd alts))
      else res_bind (phase_local_pref alts) (\<lambda>alts.
      if length alts = 1 then Inr (Some (hd alts))
      else res_bind (phase_aspath alts) (\<lambda>alts.
      if length alts = 1 then Inr (Some (hd alts))
      else res_bind (phase_origin alts) (\<lambda>alts.
      if length alts = 1 then Inr (Some (hd alts))
      else res_bind (phase_med alts) (\<lambda>alts.
      if length alts = 1 then Inr (Some (hd alts))
      else res_bind (phase_ebgp alts) (\<lambda>alts.
      if length alts = 1 then Inr (Some (hd alts))
      else res_bind (phase_igp d alts) (\<lambda>alts.
      if length alts = 1 then Inr (Some (hd alts))
      else res_bind (phase_id alts) (\<lambda>alts.
      if length alts = 1 then Inr (Some (hd alts))
      else res_bind (phase_address alts) (\<lambda>alts.
      if alts = [] then Inl XlogFatal else Inr (Some (hd alts)))))))))))"

subsection \<open>Looking up the alternatives\<close>

fun alternatives_loop :: "decision \<Rightarrow> nat option \<Rightarrow> ipnet \<Rightarrow> (nat \<times> peer_table_info) list \<Rightarrow> route_data list
    \<Rightarrow> route_data option \<Rightarrow> (route_data list \<times> route_data option) res" where
  "alternatives_loop d caller net [] alts previous_winner = Inr (alts, previous_winner)"
| "alternatives_loop d caller net ((parent, pti) # ps) alts previous_winner =
     (if Some parent \<noteq> caller then
        (case tables d parent net of
           None \<Rightarrow> alternatives_loop d caller net ps alts previous_winner
         | Some (rt, pa, genid) \<Rightarrow>
             (let r = \<lparr>rd_route = rt, rd_attributes = pa, rd_parent_table = parent,
                       rd_peer_handler = pti_peer_handler pti, rd_genid = genid\<rparr> in
              if is_winner (store d rt) then
                (if previous_winner \<noteq> None then Inl XlogAssert
                 else alternatives_loop d caller net ps (alts @ [r]) (Some r))
              else alternatives_loop d caller net ps (alts @ [r]) previous_winner))
      else alternatives_loop d caller net ps alts previous_winner)"

definition find_alternative_routes :: "decision \<Rightarrow> nat option \<Rightarrow> ipnet \<Rightarrow> (route_data list \<times> route_data option) res" where
  "find_alternative_routes d caller net = alternatives_loop d caller net (parents d) [] None"

definition lookup_route_ignoring :: "decision \<Rightarrow> nat \<Rightarrow> ipnet \<Rightarrow> route_data option res" where
  "lookup_route_ignoring d ignore_parent net =
     res_bind (find_alternative_routes d (Some ignore_parent) net) (\<lambda>(alternatives, winner).
       if winner = None \<and> alternatives \<noteq> [] then find_winner d alternatives else Inr winner)"

definition lookup_route :: "decision \<Rightarrow> ipnet \<Rightarrow> (nat \<times> u32 \<times> pa_list) option res" where
  "lookup_route d net =
     res_map (\<lambda>(alternatives, winner).
       map_option (\<lambda>w. (rd_route w, rd_genid w, rd_attributes w)) winner)
       (find_alternative_routes d None net)"

subsection \<open>The handlers\<close>

definition msg_of :: "route_data \<Rightarrow> internal_message" where
  "msg_of r = \<lparr>msg_route = rd_route r, msg_attributes = rd_attributes r,
     msg_origin_peer = rd_peer_handler r, msg_genid = rd_genid r, msg_push = False\<rparr>"

definition route_data_of :: "internal_message \<Rightarrow> nat \<Rightarrow> route_data" where
  "route_data_of m caller = \<lparr>rd_route = msg_route m, rd_attributes = msg_attributes m,
     rd_parent_table = caller, rd_peer_handler = msg_origin_peer m, rd_genid = msg_genid m\<rparr>"

definition msg_net :: "decision \<Rightarrow> internal_message \<Rightarrow> ipnet" where
  "msg_net d m = rt_net (store d (msg_route m))"

definition add_route :: "internal_message \<Rightarrow> nat \<Rightarrow> decision \<Rightarrow> (decision \<times> int) res" where
  "add_route rtmsg caller d =
     res_bind (resolvable d (pa_nexthop (msg_attributes rtmsg))) (\<lambda>ok.
       if nexthop_resolved (store d (msg_route rtmsg)) \<noteq> ok then Inl XlogAssert
       else if \<not> ok then Inr (d, ADD_UNUSED)
       else res_bind (find_alternative_routes d (Some caller) (msg_net d rtmsg)) (\<lambda>(alternatives, old_winner).
         let new_route = route_data_of rtmsg caller in
         res_bind (if alternatives \<noteq> [] then find_winner d (alternatives @ [new_route]) else Inr (Some new_route)) (\<lambda>w.
           case w of
             None \<Rightarrow> Inl XlogAssert
           | Some new_winner \<Rightarrow>
               if (case old_winner of None \<Rightarrow> False | Some ow \<Rightarrow> rd_route ow = rd_route new_winner)
               then Inr (d, ADD_UNUSED)
               else
                 let d1 = (case old_winner of None \<Rightarrow> d
                           | Some ow \<Rightarrow> rd_set_is_not_winner ow (send (DownDelete (msg_of ow)) d)) in
                 res_bind (igp_distance d1 (pa_nexthop (rd_attributes new_winner))) (\<lambda>metric.
                   let d2 = upd_route (rd_route new_winner) (set_is_winner metric) d1;
                       m = (if rd_route new_winner \<noteq> msg_route rtmsg
                            then (msg_of new_winner)\<lparr>msg_push := msg_push rtmsg\<rparr> else rtmsg);
                       d3 = send (DownAdd m) d2;
                       result = next_result d3 in
                   Inr (d3, if result = ADD_UNUSED then ADD_USED else result)))))"

definition delete_route :: "internal_message \<Rightarrow> nat \<Rightarrow> decision \<Rightarrow> (decision \<times> int) res" where
  "delete_route rtmsg caller d =
     (if \<not> has_next_table d then Inl XlogAssert
      else res_bind (find_alternative_routes d (Some caller) (msg_net d rtmsg)) (\<lambda>(alternatives, old).
        let old_winner = (case old of Some ow \<Rightarrow> Some ow
              | None \<Rightarrow> if is_winner (store d (msg_route rtmsg)) then Some (route_data_of rtmsg caller) else None) in
        res_bind (if alternatives \<noteq> [] then find_winner d alternatives else Inr None) (\<lambda>new_winner.
          if old_winner = None \<and> new_winner = None then Inr (d, -1)
          else if (case (old_winner, new_winner) of (Some ow, Some nw) \<Rightarrow> rd_route ow = rd_route nw | _ \<Rightarrow> False)
          then Inr (d, -1)
          else
            let d1 = (case old_winner of None \<Rightarrow> d
              | Some ow \<Rightarrow>
                  if rd_route ow \<noteq> msg_route rtmsg then
                    rd_set_is_not_winner ow
                      (send (DownDelete ((msg_of ow)\<lparr>msg_push := msg_push rtmsg \<and> new_winner = None\<rparr>)) d)
                  else
                    upd_route (msg_route rtmsg) set_is_not_winner
                      (send (DownDelete (if new_winner \<noteq> None then rtmsg\<lparr>msg_push := False\<rparr> else rtmsg)) d)) in
            case new_winner of
              None \<Rightarrow> Inr (d1, 0)
            | Some nw \<Rightarrow>
                res_bind (igp_distance d1 (pa_nexthop (rd_attributes nw))) (\<lambda>metric.
                  let d2 = send (DownAdd (msg_of nw)) (upd_route (rd_route nw) (set_is_winner metric) d1) in
                  Inr (if msg_push rtmsg then send DownPush d2 else d2, 0)))))"

definition replace_route :: "internal_message \<Rightarrow> internal_message \<Rightarrow> nat \<Rightarrow> decision \<Rightarrow> (decision \<times> int) res" where
  "replace_route old_rtmsg new_rtmsg caller d =
     (if msg_net d old_rtmsg \<noteq> msg_net d new_rtmsg then Inl XlogAssert
      else res_bind (find_alternative_routes d (Some caller) (msg_net d old_rtmsg)) (\<lambda>(alternatives, old).
        case (case old of Some ow \<Rightarrow> Some ow
              | None \<Rightarrow> if is_winner (store d (msg_route old_rtmsg)) then Some (route_data_of old_rtmsg caller) else None) of
          None \<Rightarrow> add_route new_rtmsg caller d
        | Some old_winner \<Rightarrow>
            let new_route = route_data_of new_rtmsg caller in
            res_bind (if alternatives \<noteq> [] then find_winner d (alternatives @ [new_route])
                      else res_map (\<lambda>ok. if ok then Some new_route else None)
                        (resolvable d (pa_nexthop (msg_attributes new_rtmsg)))) (\<lambda>w.
              case w of
                None \<Rightarrow>
                  res_bind (delete_route old_rtmsg caller d) (\<lambda>(d1, result).
                    Inr (if msg_push new_rtmsg \<and> \<not> msg_push old_rtmsg then send DownPush d1 else d1, ADD_UNUSED))
              | Some new_winner \<Rightarrow>
                  if rd_route new_winner = rd_route old_winner then Inr (d, ADD_USED)
                  else
                    let old_msg = (if rd_route old_winner = msg_route old_rtmsg
                                   then old_rtmsg\<lparr>msg_push := False\<rparr> else msg_of old_winner);
                        d1 = (if rd_route old_winner = msg_route old_rtmsg then d
                              else rd_set_is_not_winner old_winner d) in
                    res_bind (igp_distance d1 (pa_nexthop (rd_attributes new_winner))) (\<lambda>metric.
                      let d2 = upd_route (rd_route new_winner) (set_is_winner metric) d1;
                          new_msg = (if rd_route new_winner = msg_route new_rtmsg then new_rtmsg
                                     else (msg_of new_winner)\<lparr>msg_push := msg_push new_rtmsg\<rparr>);
                          d3 = (if msg_origin_peer old_msg = msg_origin_peer new_msg
                                then send (DownReplace old_msg new_msg) d2
                                else send (DownAdd new_msg) (send (DownDelete old_msg) d2)) in
                      Inr (d3, next_result d3)))))"

definition push_table :: "decision \<Rightarrow> decision" where
  "push_table d = (if has_next_table d then send DownPush d else d)"

definition route_dump :: "internal_message \<Rightarrow> peer_handler \<Rightarrow> decision \<Rightarrow> decision res" where
  "route_dump rtmsg peer d =
     (if \<not> has_next_table d then Inl XlogAssert else Inr (send (DownRouteDump rtmsg peer) d))"

definition check_parent :: "peer_handler \<Rightarrow> nat \<Rightarrow> decision \<Rightarrow> peer_table_info res" where
  "check_parent peer caller d =
     (if \<not> has_next_table d then Inl XlogAssert
      else case map_of (parents d) caller of
        None \<Rightarrow> Inl XlogAssert
      | Some pti \<Rightarrow> if pti_peer_handler pti \<noteq> peer then Inl XlogAssert else Inr pti)"

definition peering_went_down :: "peer_handler \<Rightarrow> u32 \<Rightarrow> nat \<Rightarrow> decision \<Rightarrow> decision res" where
  "peering_went_down peer genid caller d =
     res_bind (check_parent peer caller d) (\<lambda>pti.
       if pti_genid pti \<noteq> genid then Inl XlogAssert else Inr (send (DownPeeringWentDown peer genid) d))"

definition peering_down_complete :: "peer_handler \<Rightarrow> u32 \<Rightarrow> nat \<Rightarrow> decision \<Rightarrow> decision res" where
  "peering_down_complete peer genid caller d =
     res_bind (check_parent peer caller d) (\<lambda>pti. Inr (send (DownPeeringDownComplete peer genid) d))"

definition peering_came_up :: "peer_handler \<Rightarrow> u32 \<Rightarrow> nat \<Rightarrow> decision \<Rightarrow> decision res" where
  "peering_came_up peer genid caller d =
     res_bind (check_parent peer caller d) (\<lambda>pti.
       Inr (send (DownPeeringCameUp peer genid)
         (d\<lparr>parents := insert_key caller (pti\<lparr>pti_genid := genid\<rparr>) (parents d)\<rparr>)))"

text \<open>
  Two operations only call the parent tables: \<open>dump_next_route\<close> calls the one of the peer that is
  being dumped, \<open>igp_nexthop_changed\<close> all of them in the order of \<open>_sorted_parents\<close>.
\<close>

definition dump_next_route :: "peer_handler \<Rightarrow> decision \<Rightarrow> nat res" where
  "dump_next_route peer d = (case map_of (sorted_parents d) (unique_id peer) of
     None \<Rightarrow> Inl XlogAssert | Some parent \<Rightarrow> Inr parent)"

definition igp_nexthop_changed :: "decision \<Rightarrow> nat list" where
  "igp_nexthop_changed d = map snd (sorted_parents d)"

subsection \<open>What the phases keep\<close>

definition best_by :: "('r \<Rightarrow> 'k::linorder) \<Rightarrow> 'r list \<Rightarrow> 'r list" where
  "best_by g rs = filter (\<lambda>r. \<forall>s \<in> set rs. g r \<le> g s) rs"

lemma best_by_singleton [simp]: "best_by g [r] = [r]"
  by (simp add: best_by_def)

lemma best_by_not_Nil:
  assumes "rs \<noteq> []"
  shows "best_by g rs \<noteq> []"
proof -
  have "finite (g ` set rs)" "g ` set rs \<noteq> {}" using assms by simp_all
  from Min_in [OF this] obtain r where r: "r \<in> set rs" "g r = Min (g ` set rs)" by force
  then have "\<forall>s \<in> set rs. g r \<le> g s" by simp
  with r(1) show ?thesis by (auto simp: best_by_def filter_empty_conv)
qed

lemma best_by_subset: "set (best_by g rs) \<subseteq> set rs"
  by (auto simp: best_by_def)

lemma best_by_same: "x \<in> set (best_by g rs) \<Longrightarrow> y \<in> set (best_by g rs) \<Longrightarrow> g x = g y"
  by (auto simp: best_by_def intro: order_antisym)

lemma best_by_constant:
  assumes "\<And>x y. x \<in> set rs \<Longrightarrow> y \<in> set rs \<Longrightarrow> g x = g y"
  shows "best_by g rs = rs"
  unfolding best_by_def by (rule filter_True) (use assms eq_refl in blast)

lemma best_by_drop:
  assumes "\<forall>z \<in> set zs. \<exists>y \<in> set (xs @ ys). g y < g z"
  shows "best_by g (xs @ zs @ ys) = best_by g (xs @ ys)"
proof -
  have all: "(\<forall>s \<in> set (xs @ zs @ ys). g r \<le> g s) \<longleftrightarrow> (\<forall>s \<in> set (xs @ ys). g r \<le> g s)" for r
  proof
    assume r: "\<forall>s \<in> set (xs @ ys). g r \<le> g s"
    show "\<forall>s \<in> set (xs @ zs @ ys). g r \<le> g s"
    proof
      fix s assume "s \<in> set (xs @ zs @ ys)"
      then have "s \<in> set (xs @ ys) \<or> s \<in> set zs" by auto
      then show "g r \<le> g s"
      proof
        assume "s \<in> set zs"
        with assms obtain y where y: "y \<in> set (xs @ ys)" "g y < g s" by blast
        from r y(1) have "g r \<le> g y" by (rule bspec)
        with y(2) show ?thesis by simp
      qed (rule bspec [OF r])
    qed
  qed auto
  have "\<not> (\<forall>s \<in> set (xs @ ys). g z \<le> g s)" if "z \<in> set zs" for z
  proof -
    from assms that obtain y where "y \<in> set (xs @ ys)" "g y < g z" by blast
    then show ?thesis using not_le by blast
  qed
  then have "filter (\<lambda>r. \<forall>s \<in> set (xs @ ys). g r \<le> g s) zs = []" by (simp add: filter_empty_conv)
  then show ?thesis unfolding best_by_def all by simp
qed

lemma phase_loop_best:
  assumes "\<And>a b. better a b \<longleftrightarrow> f a < f b"
  shows "kept \<noteq> [] \<Longrightarrow> \<forall>x \<in> set kept. g x = f test \<Longrightarrow>
    \<forall>x \<in> set rs. val x = Inr (v x) \<and> ok (v x) \<and> g x = f (v x) \<Longrightarrow>
    phase_loop ok better val test kept rs = Inr (best_by g (kept @ rs))"
proof (induction rs arbitrary: test kept)
  case Nil
  then show ?case by (simp add: best_by_constant)
next
  case (Cons r rs)
  then have r: "val r = Inr (v r)" "ok (v r)" "g r = f (v r)" by simp_all
  consider (worse) "f test < f (v r)" | (new) "f (v r) < f test" | (same) "f (v r) = f test" by fastforce
  then show ?case
  proof cases
    case worse
    have "best_by g (kept @ [r] @ rs) = best_by g (kept @ rs)"
      by (rule best_by_drop) (use worse Cons.prems r(3) in \<open>cases kept; auto\<close>)
    with worse Cons r show ?thesis by (simp add: assms)
  next
    case new
    have "best_by g ([] @ kept @ r # rs) = best_by g ([] @ r # rs)"
      by (rule best_by_drop) (use new Cons.prems r(3) in auto)
    with new Cons.IH [of "[r]" "v r"] Cons.prems r show ?thesis by (simp add: assms less_not_sym)
  next
    case same
    with Cons.IH [of "kept @ [r]" test] Cons.prems r show ?thesis by (simp add: assms)
  qed
qed

lemma phase_best:
  assumes "\<And>a b. better a b \<longleftrightarrow> f a < f b" "rs \<noteq> []"
    "\<And>x. x \<in> set rs \<Longrightarrow> val x = Inr (v x) \<and> ok (v x) \<and> g x = f (v x)"
  shows "phase ok better val rs = Inr (best_by g rs)"
proof (cases rs)
  case (Cons r rs')
  with assms(3) phase_loop_best [OF assms(1), where kept = "[r]" and g = g and test = "v r" and rs = rs' and val = val and ok = ok and v = v]
  show ?thesis by simp
qed (use assms in simp)

subsection \<open>The MED phase\<close>

definition best_med :: "(route_data \<Rightarrow> as_num) \<Rightarrow> route_data list \<Rightarrow> route_data list" where
  "best_med asn rs = filter (\<lambda>r. \<forall>s \<in> set rs. asn s = asn r \<longrightarrow> route_med r \<le> route_med s) rs"

definition med_beaten :: "(route_data \<Rightarrow> as_num) \<Rightarrow> route_data list \<Rightarrow> route_data \<Rightarrow> bool" where
  "med_beaten asn rs r \<longleftrightarrow> (\<exists>s \<in> set rs. asn s = asn r \<and> route_med s < route_med r)"

lemma set_erase_at: "set (erase_at i xs) \<subseteq> set xs"
  using set_take_subset set_drop_subset by (fastforce simp: erase_at_def)

lemma filter_erase_at:
  "i < length xs \<Longrightarrow> \<not> P (xs ! i) \<Longrightarrow> filter P (erase_at i xs) = filter P xs"
  by (metis (no_types, lifting) append_Cons append_Nil erase_at_def filter.simps(2) filter_append id_take_nth_drop)

lemma nth_erase_at:
  "n < length xs \<Longrightarrow> n \<noteq> i \<Longrightarrow> erase_at i xs ! (if i < n then n - 1 else n) = xs ! n"
  by (auto simp: erase_at_def nth_append min_def)

lemma set_take_erase_at:
  assumes "j < length xs" "i \<noteq> j"
  shows "set (take (if j < i then i - 1 else i) (erase_at j xs)) \<subseteq> set (take i xs)"
proof (cases "j < i")
  case True
  then have "min (i - Suc 0) j = j" "min j i = j" by linarith+
  with assms have "take (i - 1) (erase_at j xs) = take j (take i xs) @ drop (Suc j) (take i xs)"
    by (simp add: erase_at_def drop_take)
  then have "set (take (i - 1) (erase_at j xs)) = set (take j (take i xs)) \<union> set (drop (Suc j) (take i xs))"
    by (simp only: set_append)
  with True show ?thesis
    using set_take_subset [of j "take i xs"] set_drop_subset [of "Suc j" "take i xs"] by simp
next
  case False
  with assms have "take i (erase_at j xs) = take i xs" by (simp add: erase_at_def min_def)
  with False show ?thesis by simp
qed

text \<open>
  The inner loop started at \<open>j\<close>, when the route at \<open>i\<close> neither beats nor is beaten by a route
  before \<open>j\<close>: it deletes only beaten routes, and when it does not delete the route at \<open>i\<close>, that
  route neither beats nor is beaten by any route that is left.
\<close>

definition inner_ok :: "(route_data \<Rightarrow> as_num) \<Rightarrow> route_data list \<Rightarrow> route_data list \<Rightarrow> nat \<Rightarrow> route_data list \<Rightarrow> nat \<Rightarrow> bool \<Rightarrow> bool" where
  "inner_ok asn rs alts i alts' i' del \<longleftrightarrow>
     set alts' \<subseteq> set alts
     \<and> filter (\<lambda>r. \<not> med_beaten asn rs r) alts' = filter (\<lambda>r. \<not> med_beaten asn rs r) alts
     \<and> set (take i' alts') \<subseteq> set (take i alts)
     \<and> (\<not> del \<longrightarrow> i' < length alts' \<and> alts' ! i' = alts ! i
         \<and> (\<forall>r \<in> set alts'. asn r = asn (alts ! i) \<longrightarrow> route_med r = route_med (alts ! i)))"

lemma inner_ok_erase:
  assumes "inner_ok asn rs (erase_at j alts) (if j < i then i - 1 else i) alts' i' del"
    "j < length alts" "i < length alts" "i \<noteq> j" "med_beaten asn rs (alts ! j)"
  shows "inner_ok asn rs alts i alts' i' del"
proof -
  have at: "erase_at j alts ! (if j < i then i - 1 else i) = alts ! i"
    using nth_erase_at [of i alts j] assms(3,4) by simp
  have f: "filter (\<lambda>r. \<not> med_beaten asn rs r) (erase_at j alts) = filter (\<lambda>r. \<not> med_beaten asn rs r) alts"
    by (rule filter_erase_at [OF assms(2)]) (use assms(5) in simp)
  note ok = assms(1) [unfolded inner_ok_def at f]
  show ?thesis
    unfolding inner_ok_def
    using ok subset_trans [OF _ set_erase_at [of j alts]] subset_trans [OF _ set_take_erase_at [OF assms(2,4)]]
    by simp
qed

lemma med_inner_correct:
  assumes "med_inner a m alts i j = Inr (alts', i', del)" "i < length alts"
    "\<forall>r \<in> set alts. neighbour_as r = Inr (asn r)" "a = asn (alts ! i)" "m = route_med (alts ! i)"
    "set alts \<subseteq> set rs" "\<forall>n < min j (length alts). asn (alts ! n) = a \<longrightarrow> route_med (alts ! n) = m"
  shows "inner_ok asn rs alts i alts' i' del"
  using assms
proof (induction a m alts i j rule: med_inner.induct)
  case (1 a m alts i j)
  note eq = "1.prems"(1) [unfolded med_inner.simps [of a m alts i j]]
  show ?case
  proof (cases "j < length alts")
    case False
    then have "alts' = alts" "i' = i" "\<not> del" using eq by auto
    moreover have "\<forall>r \<in> set alts. asn r = a \<longrightarrow> route_med r = m"
    proof
      fix r assume "r \<in> set alts"
      then obtain n where "n < length alts" "r = alts ! n" by (auto simp: in_set_conv_nth)
      with "1.prems"(7) False show "asn r = a \<longrightarrow> route_med r = m" by simp
    qed
    ultimately show ?thesis
      using "1.prems"(2) unfolding inner_ok_def "1.prems"(4) [symmetric] "1.prems"(5) [symmetric] by blast
  next
    case j: True
    show ?thesis
    proof (cases "i = j")
      case True
      with eq j have rec: "med_inner a m alts i (Suc j) = Inr (alts', i', del)" by simp
      have "\<forall>n < min (Suc j) (length alts). asn (alts ! n) = a \<longrightarrow> route_med (alts ! n) = m"
        using "1.prems"(5,7) True by (auto simp: less_Suc_eq)
      from "1.IH"(4) [OF j _ rec "1.prems"(2-6) this] True show ?thesis by simp
    next
      case False
      have b: "neighbour_as (alts ! j) = Inr (asn (alts ! j))" using "1.prems"(3) j by simp
      consider (skip) "asn (alts ! j) = a \<longrightarrow> route_med (alts ! j) = m"
        | (del_i) "a = asn (alts ! j)" "m > route_med (alts ! j)"
        | (del_j) "a = asn (alts ! j)" "m < route_med (alts ! j)"
        using linorder_less_linear by blast
      then show ?thesis
      proof cases
        case skip
        then have rec: "med_inner a m alts i (Suc j) = Inr (alts', i', del)"
          using eq j False b by (auto simp: Let_def split: if_splits)
        have n: "\<forall>n < min (Suc j) (length alts). asn (alts ! n) = a \<longrightarrow> route_med (alts ! n) = m"
          using "1.prems"(7) skip by (auto simp: less_Suc_eq)
        show ?thesis
        proof (cases "a = asn (alts ! j)")
          case True
          from "1.IH"(2) [OF j False b refl True _ _ rec "1.prems"(2-6) n] True skip show ?thesis by simp
        next
          case diff: False
          from "1.IH"(3) [OF j False b refl diff rec "1.prems"(2-6) n] show ?thesis .
        qed
      next
        case del_i
        then have r: "alts' = erase_at i alts" "i' = i" "del" using eq j False b by auto
        have "alts ! j \<in> set rs" using "1.prems"(6) j nth_mem by blast
        with del_i "1.prems"(4,5) have "med_beaten asn rs (alts ! i)" unfolding med_beaten_def by auto
        then have "filter (\<lambda>r. \<not> med_beaten asn rs r) (erase_at i alts) = filter (\<lambda>r. \<not> med_beaten asn rs r) alts"
          using filter_erase_at [OF "1.prems"(2)] by simp
        moreover have "take i (erase_at i alts) = take i alts" using "1.prems"(2) by (simp add: erase_at_def)
        ultimately show ?thesis using r set_erase_at [of i alts] by (simp add: inner_ok_def)
      next
        case del_j
        let ?i = "if j < i then i - 1 else i"
        from del_j have rec: "med_inner a m (erase_at j alts) ?i j = Inr (alts', i', del)"
          using eq j False b by (auto simp: Let_def)
        have "alts ! i \<in> set rs" using "1.prems"(2,6) nth_mem by blast
        with del_j "1.prems"(4,5) have beaten: "med_beaten asn rs (alts ! j)" unfolding med_beaten_def by auto
        have i: "?i < length (erase_at j alts)" using j False "1.prems"(2) by auto
        have at: "erase_at j alts ! ?i = alts ! i" using nth_erase_at [of i alts j] "1.prems"(2) False by simp
        have before: "\<forall>n < min j (length (erase_at j alts)). asn (erase_at j alts ! n) = a \<longrightarrow> route_med (erase_at j alts ! n) = m"
          using "1.prems"(7) j by (auto simp: erase_at_def nth_append)
        have nas: "\<forall>r \<in> set (erase_at j alts). neighbour_as r = Inr (asn r)"
          using "1.prems"(3) set_erase_at [of j alts] by blast
        have sub: "set (erase_at j alts) \<subseteq> set rs" using "1.prems"(6) set_erase_at [of j alts] by blast
        have nm: "\<not> m > route_med (alts ! j)" using del_j(2) by simp
        have "inner_ok asn rs (erase_at j alts) ?i alts' i' del"
          by (rule "1.IH"(1) [OF j False b refl del_j(1) nm del_j(2) rec i nas _ _ sub before])
            (use at "1.prems"(4,5) in simp_all)
        then show ?thesis by (rule inner_ok_erase [OF _ j "1.prems"(2) False beaten])
      qed
    qed
  qed
qed

lemma med_inner_total:
  "\<forall>r \<in> set alts. neighbour_as r = Inr (asn r) \<Longrightarrow> \<exists>res. med_inner a m alts i j = Inr res"
proof (induction a m alts i j rule: med_inner.induct)
  case (1 a m alts i j)
  show ?case
  proof (cases "j < length alts \<and> i \<noteq> j")
    case False
    with "1.IH"(4) "1.prems" show ?thesis unfolding med_inner.simps [of a m alts i j] by auto
  next
    case True
    then have b: "neighbour_as (alts ! j) = Inr (asn (alts ! j))" using "1.prems" by simp
    have e: "\<forall>r \<in> set (erase_at j alts). neighbour_as r = Inr (asn r)"
      using "1.prems" set_erase_at [of j alts] by blast
    consider (del_i) "a = asn (alts ! j)" "m > route_med (alts ! j)" | (del_j) "a = asn (alts ! j)" "m < route_med (alts ! j)"
      | (same) "a = asn (alts ! j)" "m = route_med (alts ! j)" | (other) "a \<noteq> asn (alts ! j)"
      using linorder_less_linear by blast
    then show ?thesis
    proof cases
      case del_i
      with True b show ?thesis unfolding med_inner.simps [of a m alts i j] by (simp, blast)
    next
      case del_j
      with True b "1.IH"(1) [OF _ _ b refl del_j(1) _ del_j(2) e] show ?thesis
        unfolding med_inner.simps [of a m alts i j] by simp
    next
      case same
      with True b "1.IH"(2) [OF _ _ b refl same(1) _ _ "1.prems"] show ?thesis
        unfolding med_inner.simps [of a m alts i j] by simp
    next
      case other
      with True b "1.IH"(3) [OF _ _ b refl other "1.prems"] show ?thesis
        unfolding med_inner.simps [of a m alts i j] by simp
    qed
  qed
qed

lemma med_outer_correct:
  assumes "\<forall>r \<in> set alts. neighbour_as r = Inr (asn r)" "set alts \<subseteq> set rs"
    "\<forall>p \<in> set (take i alts). \<forall>r \<in> set alts. asn r = asn p \<longrightarrow> route_med r = route_med p"
  shows "\<exists>res. med_outer alts i = Inr res \<and> set res \<subseteq> set rs
    \<and> filter (\<lambda>r. \<not> med_beaten asn rs r) res = filter (\<lambda>r. \<not> med_beaten asn rs r) alts
    \<and> (\<forall>p \<in> set res. \<forall>r \<in> set res. asn r = asn p \<longrightarrow> route_med r = route_med p)"
  using assms
proof (induction alts i rule: med_outer.induct)
  case (1 alts i)
  show ?case
  proof (cases "i < length alts")
    case False
    then have "med_outer alts i = Inr alts" "take i alts = alts" unfolding med_outer.simps [of alts i] by simp_all
    with "1.prems"(2,3) show ?thesis by (intro exI [of _ alts]) (simp only: simp_thms)
  next
    case True
    then have b: "neighbour_as (alts ! i) = Inr (asn (alts ! i))" using "1.prems"(1) by simp
    obtain alts' i' del where inner: "med_inner (asn (alts ! i)) (route_med (alts ! i)) alts i 0 = Inr (alts', i', del)"
      using med_inner_total [OF "1.prems"(1)] by (metis prod_cases3)
    have ok: "inner_ok asn rs alts i alts' i' del"
      by (rule med_inner_correct [OF inner True "1.prems"(1) refl refl "1.prems"(2)]) simp
    have sub: "set alts' \<subseteq> set alts" and flt: "filter (\<lambda>r. \<not> med_beaten asn rs r) alts' = filter (\<lambda>r. \<not> med_beaten asn rs r) alts"
      and tk: "set (take i' alts') \<subseteq> set (take i alts)"
      and nd: "\<not> del \<Longrightarrow> i' < length alts' \<and> alts' ! i' = alts ! i
        \<and> (\<forall>r \<in> set alts'. asn r = asn (alts ! i) \<longrightarrow> route_med r = route_med (alts ! i))"
      using ok unfolding inner_ok_def by blast+
    let ?i = "if del then i' else Suc i'"
    have settled: "\<forall>p \<in> set (take ?i alts'). \<forall>r \<in> set alts'. asn r = asn p \<longrightarrow> route_med r = route_med p"
    proof (intro ballI impI)
      fix p r assume p: "p \<in> set (take ?i alts')" and r: "r \<in> set alts'" "asn r = asn p"
      show "route_med r = route_med p"
      proof (cases "p \<in> set (take i' alts')")
        case True
        with "1.prems"(3) tk sub r show ?thesis by blast
      next
        case False
        with p have d: "\<not> del" by (cases del) simp_all
        with nd have "set (take (Suc i') alts') = insert (alts ! i) (set (take i' alts'))"
          by (simp add: take_Suc_conv_app_nth)
        with p False d have "p = alts ! i" by simp
        with nd [OF d] r show ?thesis by blast
      qed
    qed
    have eq: "med_outer alts i = med_outer alts' ?i"
      unfolding med_outer.simps [of alts i] using True b inner by simp
    have nas: "\<forall>r \<in> set alts'. neighbour_as r = Inr (asn r)" and sub': "set alts' \<subseteq> set rs"
      using "1.prems"(1,2) sub by blast+
    from "1.IH" [OF True b inner refl refl nas sub' settled] show ?thesis unfolding eq flt .
  qed
qed

lemma med_beaten_by_best:
  assumes "med_beaten asn rs r"
  shows "\<exists>s \<in> set rs. \<not> med_beaten asn rs s \<and> asn s = asn r \<and> route_med s < route_med r"
proof -
  let ?S = "{s \<in> set rs. asn s = asn r}"
  have "?S \<noteq> {}" using assms by (auto simp: med_beaten_def)
  then have "Min (route_med ` ?S) \<in> route_med ` ?S" by (intro Min_in) auto
  then obtain s where s: "s \<in> ?S" "Min (route_med ` ?S) = route_med s" by (rule imageE)
  have min: "route_med s \<le> route_med t" if "t \<in> ?S" for t
    unfolding s(2) [symmetric] by (rule Min_le) (use that in auto)
  from assms obtain t where t: "t \<in> ?S" "route_med t < route_med r" unfolding med_beaten_def by auto
  have "\<not> med_beaten asn rs s"
  proof
    assume "med_beaten asn rs s"
    then obtain u where "u \<in> set rs" "asn u = asn s" "route_med u < route_med s" by (auto simp: med_beaten_def)
    with min [of u] s(1) show False by simp
  qed
  with s(1) min [OF t(1)] t(2) show ?thesis by auto
qed

lemma best_med_eq: "best_med asn rs = filter (\<lambda>r. \<not> med_beaten asn rs r) rs"
  unfolding best_med_def med_beaten_def by (rule filter_cong) (auto simp: not_less)

lemma phase_med_best:
  assumes "\<forall>r \<in> set rs. neighbour_as r = Inr (asn r)"
  shows "phase_med rs = Inr (best_med asn rs)"
proof -
  obtain res where res: "med_outer rs 0 = Inr res" "set res \<subseteq> set rs"
      "filter (\<lambda>r. \<not> med_beaten asn rs r) res = filter (\<lambda>r. \<not> med_beaten asn rs r) rs"
      "\<forall>p \<in> set res. \<forall>r \<in> set res. asn r = asn p \<longrightarrow> route_med r = route_med p"
    using med_outer_correct [OF assms subset_refl, of 0] by auto
  have "\<not> med_beaten asn rs p" if p: "p \<in> set res" for p
  proof
    assume "med_beaten asn rs p"
    from med_beaten_by_best [OF this] obtain s where s: "s \<in> set rs" "\<not> med_beaten asn rs s" "asn s = asn p"
        "route_med s < route_med p" by blast
    then have "s \<in> set (filter (\<lambda>r. \<not> med_beaten asn rs r) rs)" by simp
    then have "s \<in> set res" unfolding res(3) [symmetric] by simp
    with res(4) p s(3,4) show False by fastforce
  qed
  then have "filter (\<lambda>r. \<not> med_beaten asn rs r) res = res" by (simp add: filter_id_conv)
  with res(1,3) show ?thesis by (simp add: phase_med_def best_med_eq)
qed

lemma best_med_not_Nil:
  assumes "rs \<noteq> []"
  shows "best_med asn rs \<noteq> []"
proof -
  from assms obtain r where r: "r \<in> set rs" by (cases rs) auto
  have "\<exists>s \<in> set rs. \<not> med_beaten asn rs s"
    using r med_beaten_by_best [of asn rs r] by (cases "med_beaten asn rs r") auto
  then show ?thesis by (auto simp: best_med_eq filter_empty_conv)
qed

lemma best_med_subset: "set (best_med asn rs) \<subseteq> set rs"
  by (auto simp: best_med_def)

lemma best_med_singleton [simp]: "best_med asn [r] = [r]"
  by (simp add: best_med_def)

subsection \<open>The winner\<close>

text \<open>
  The specification: successive tie-breaking on unsigned values, in the order of RFC 4271 with
  route resolvability first. A route is \<open>comparable\<close> when its values stay below \<open>2 ^ 31\<close>, its
  next hop is known to the resolver and its AS path has a first number or is empty.
\<close>

definition igp_value :: "decision \<Rightarrow> route_data \<Rightarrow> nat" where
  "igp_value d r = (case nexthops d (pa_nexthop (rd_attributes r)) of None \<Rightarrow> 0 | Some (ok, metric) \<Rightarrow> unat metric)"

definition first_as :: "route_data \<Rightarrow> as_num" where
  "first_as r = projr (neighbour_as r)"

definition comparable :: "decision \<Rightarrow> route_data \<Rightarrow> bool" where
  "comparable d r \<longleftrightarrow>
     unat (local_pref (rd_attributes r)) < 2 ^ 31 \<and> unat (path_len (pa_aspath (rd_attributes r))) < 2 ^ 31
     \<and> unat (med (rd_attributes r)) < 2 ^ 31
     \<and> nexthops d (pa_nexthop (rd_attributes r)) \<noteq> None \<and> igp_value d r < 2 ^ 31
     \<and> (\<exists>a. neighbour_as r = Inr a)"

definition candidates :: "decision \<Rightarrow> route_data list \<Rightarrow> route_data list" where
  "candidates d alts =
     best_by (\<lambda>r. hval (peer_id (rd_peer_handler r)))
    (best_by (igp_value d)
    (best_by (\<lambda>r. ibgp (rd_peer_handler r))
    ((\<lambda>rs. filter (\<lambda>r. \<forall>s \<in> set rs. first_as s = first_as r \<longrightarrow> unat (med (rd_attributes r)) \<le> unat (med (rd_attributes s))) rs)
    (best_by (\<lambda>r. origin_value (pa_origin (rd_attributes r)))
    (best_by (\<lambda>r. unat (path_len (pa_aspath (rd_attributes r))))
    (best_by (\<lambda>r. - int (unat (local_pref (rd_attributes r))))
    (filter (\<lambda>r. nexthop_resolved (store d (rd_route r))) alts)))))))"

lemma int_of_u32_small:
  assumes "unat w < 2 ^ 31"
  shows "int_of_u32 w = int (unat w)"
proof -
  have u: "uint w = int (unat w)" by simp
  have "int (unat w) < int (2 ^ 31)" using assms by (simp only: of_nat_less_iff)
  then have "uint w < 2 ^ 31" unfolding u by simp
  moreover have "0 \<le> uint w" by simp
  then have "- (2 ^ 31) \<le> uint w" by (rule order_trans [rotated]) simp
  ultimately have "signed_take_bit 31 (uint w) = uint w" by (intro signed_take_bit_int_eq_self)
  then show ?thesis by (simp add: int_of_u32_def sint_uint)
qed

lemma int_of_u64_small:
  assumes "unat w < 2 ^ 31"
  shows "int_of_u64 w = int (unat w)"
proof -
  have "unat (ucast w :: u32) = unat w"
    using assms by (simp add: unsigned_ucast_eq take_bit_nat_eq_self)
  with assms int_of_u32_small [of "ucast w"] show ?thesis by (simp add: int_of_u64_def int_of_u32_def)
qed

lemma best_by_mono:
  assumes "\<And>x y. x \<in> set rs \<Longrightarrow> y \<in> set rs \<Longrightarrow> (g x \<le> g y) = (h x \<le> h y)"
  shows "best_by g rs = best_by h rs"
  unfolding best_by_def by (rule filter_cong [OF refl]) (use assms in auto)

lemma phase_chain:
  assumes "xs \<noteq> []" "P xs = Inr (F xs)" "length xs = 1 \<Longrightarrow> G (F xs) = hd xs"
    "K (F xs) = Inr (Some (G (F xs)))"
  shows "(if length xs = 1 then Inr (Some (hd xs)) else res_bind (P xs) K) = Inr (Some (G (F xs)))"
  using assms by auto

lemma length_1_eq: "length xs = 1 \<longleftrightarrow> (\<exists>x. xs = [x])"
  by (simp add: length_Suc_conv)

lemma phases_comparable:
  assumes "rs \<noteq> []" "\<And>r. r \<in> set rs \<Longrightarrow> comparable d r"
  shows "phase_local_pref rs = Inr (best_by (\<lambda>r. - int (unat (local_pref (rd_attributes r)))) rs)"
    and "phase_aspath rs = Inr (best_by (\<lambda>r. unat (path_len (pa_aspath (rd_attributes r)))) rs)"
    and "phase_origin rs = Inr (best_by (\<lambda>r. origin_value (pa_origin (rd_attributes r))) rs)"
    and "phase_med rs = Inr (filter (\<lambda>r. \<forall>s \<in> set rs. first_as s = first_as r \<longrightarrow>
          unat (med (rd_attributes r)) \<le> unat (med (rd_attributes s))) rs)"
    and "phase_ebgp rs = Inr (best_by (\<lambda>r. ibgp (rd_peer_handler r)) rs)"
    and "phase_igp d rs = Inr (best_by (igp_value d) rs)"
    and "phase_id rs = Inr (best_by (\<lambda>r. hval (peer_id (rd_peer_handler r))) rs)"
proof -
  have c: "unat (local_pref (rd_attributes r)) < 2 ^ 31" "unat (path_len (pa_aspath (rd_attributes r))) < 2 ^ 31"
      "unat (med (rd_attributes r)) < 2 ^ 31" "igp_value d r < 2 ^ 31"
      "nexthops d (pa_nexthop (rd_attributes r)) \<noteq> None" "neighbour_as r = Inr (first_as r)"
    if "r \<in> set rs" for r
    using assms(2) [OF that] by (auto simp: comparable_def first_as_def)
  show "phase_local_pref rs = Inr (best_by (\<lambda>r. - int (unat (local_pref (rd_attributes r)))) rs)"
    unfolding phase_local_pref_def
    by (rule phase_best [where f = uminus and v = "\<lambda>r. int_of_u32 (local_pref (rd_attributes r))"])
      (use assms(1) c(1) in \<open>auto simp: int_of_u32_small\<close>)
  show "phase_aspath rs = Inr (best_by (\<lambda>r. unat (path_len (pa_aspath (rd_attributes r)))) rs)"
  proof -
    have "phase_aspath rs = Inr (best_by (\<lambda>r. int (unat (path_len (pa_aspath (rd_attributes r))))) rs)"
      unfolding phase_aspath_def
      by (rule phase_best [where f = id and v = "\<lambda>r. int_of_u64 (path_len (pa_aspath (rd_attributes r)))"])
        (use assms(1) c(2) in \<open>auto simp: int_of_u64_small\<close>)
    then show ?thesis unfolding best_by_def of_nat_le_iff .
  qed
  show "phase_origin rs = Inr (best_by (\<lambda>r. origin_value (pa_origin (rd_attributes r))) rs)"
    unfolding phase_origin_def
    by (rule phase_best [where f = id and v = "\<lambda>r. origin_value (pa_origin (rd_attributes r))"])
      (use assms(1) in auto)
  show "phase_ebgp rs = Inr (best_by (\<lambda>r. ibgp (rd_peer_handler r)) rs)"
    unfolding phase_ebgp_def
    by (rule phase_best [where f = id and v = "\<lambda>r. ibgp (rd_peer_handler r)"]) (use assms(1) in auto)
  show "phase_id rs = Inr (best_by (\<lambda>r. hval (peer_id (rd_peer_handler r))) rs)"
    unfolding phase_id_def
    by (rule phase_best [where f = hval and v = "\<lambda>r. peer_id (rd_peer_handler r)"])
      (use assms(1) in \<open>auto simp: less_ipv4_iff\<close>)
  have m: "route_med r \<le> route_med s \<longleftrightarrow> unat (med (rd_attributes r)) \<le> unat (med (rd_attributes s))"
    if "r \<in> set rs" "s \<in> set rs" for r s
    unfolding route_med_def int_of_u32_small [OF c(3) [OF that(1)]] int_of_u32_small [OF c(3) [OF that(2)]]
    by (rule of_nat_le_iff)
  then have "best_med first_as rs = filter (\<lambda>r. \<forall>s \<in> set rs. first_as s = first_as r \<longrightarrow>
      unat (med (rd_attributes r)) \<le> unat (med (rd_attributes s))) rs"
    unfolding best_med_def by (intro filter_cong [OF refl]) auto
  then show "phase_med rs = Inr (filter (\<lambda>r. \<forall>s \<in> set rs. first_as s = first_as r \<longrightarrow>
      unat (med (rd_attributes r)) \<le> unat (med (rd_attributes s))) rs)"
    using phase_med_best [of rs first_as] c(6) by simp
  show "phase_igp d rs = Inr (best_by (igp_value d) rs)"
  proof -
    have "phase_igp d rs = Inr (best_by (\<lambda>r. int (igp_value d r)) rs)"
      unfolding phase_igp_def
    proof (rule phase_best [where f = id and v = "\<lambda>r. int (igp_value d r)"])
      fix r assume r: "r \<in> set rs"
      from c(4,5) [OF r] obtain ok metric where "nexthops d (pa_nexthop (rd_attributes r)) = Some (ok, metric)"
          "unat metric < 2 ^ 31"
        by (auto simp: igp_value_def)
      then show "res_map int_of_u32 (igp_distance d (pa_nexthop (rd_attributes r))) = Inr (int (igp_value d r))
          \<and> True \<and> int (igp_value d r) = id (int (igp_value d r))"
        by (simp add: igp_distance_def igp_value_def int_of_u32_small)
    qed (use assms(1) in auto)
    then show ?thesis unfolding best_by_def of_nat_le_iff .
  qed
qed

lemma phase_address_same:
  assumes "rs \<noteq> []" "\<And>x y. x \<in> set rs \<Longrightarrow> y \<in> set rs \<Longrightarrow> peer_id (rd_peer_handler x) = peer_id (rd_peer_handler y)"
  shows "phase_address rs = Inr rs"
proof -
  let ?g = "\<lambda>r. int_of_u32 (neighbour_address (rd_peer_handler r))"
  have "phase_address rs = Inr (best_by ?g rs)"
    unfolding phase_address_def by (rule phase_best [where f = id and v = ?g]) (use assms(1) in auto)
  also have "best_by ?g rs = rs"
  proof (rule best_by_constant)
    fix x y assume "x \<in> set rs" "y \<in> set rs"
    from assms(2) [OF this] show "?g x = ?g y" by (simp add: neighbour_address_def)
  qed
  finally show ?thesis .
qed

lemma find_winner_candidates:
  assumes "\<And>r. r \<in> set alts \<Longrightarrow> nexthop_resolved (store d (rd_route r)) \<Longrightarrow> comparable d r"
  shows "find_winner d alts = Inr (case candidates d alts of [] \<Rightarrow> None | r # rs \<Rightarrow> Some r)"
proof -
  define S0 where "S0 = filter (\<lambda>r. nexthop_resolved (store d (rd_route r))) alts"
  define F1 where "F1 = best_by (\<lambda>r :: route_data. - int (unat (local_pref (rd_attributes r))))"
  define F2 where "F2 = best_by (\<lambda>r :: route_data. unat (path_len (pa_aspath (rd_attributes r))))"
  define F3 where "F3 = best_by (\<lambda>r :: route_data. origin_value (pa_origin (rd_attributes r)))"
  define F4 where "F4 = (\<lambda>rs. filter (\<lambda>r. \<forall>s \<in> set rs. first_as s = first_as r \<longrightarrow>
    unat (med (rd_attributes r)) \<le> unat (med (rd_attributes s))) rs)"
  define F5 where "F5 = best_by (\<lambda>r :: route_data. ibgp (rd_peer_handler r))"
  define F6 where "F6 = best_by (igp_value d)"
  define F7 where "F7 = best_by (\<lambda>r :: route_data. hval (peer_id (rd_peer_handler r)))"
  have cand: "candidates d alts = F7 (F6 (F5 (F4 (F3 (F2 (F1 S0))))))"
    by (simp only: candidates_def S0_def F1_def F2_def F3_def F4_def F5_def F6_def F7_def)
  have S0: "r \<in> set S0 \<Longrightarrow> comparable d r" for r using assms by (auto simp: S0_def)
  show ?thesis
  proof (cases "S0 = []")
    case True
    then show ?thesis
      by (simp add: find_winner_def S0_def [symmetric] cand F1_def F2_def F3_def F4_def F5_def F6_def F7_def best_by_def)
  next
    case False
    have ok: "F xs \<noteq> [] \<and> (\<forall>r \<in> set (F xs). comparable d r)"
      if "F \<in> {F1, F2, F3, F5, F6, F7}" "xs \<noteq> []" "\<forall>r \<in> set xs. comparable d r" for F xs
    proof -
      from that(1) have "F xs \<noteq> [] \<and> set (F xs) \<subseteq> set xs"
        by (elim insertE) (simp_all add: F1_def F2_def F3_def F5_def F6_def F7_def
            best_by_not_Nil [OF that(2)] best_by_subset)
      with that(3) show ?thesis by blast
    qed
    have ok4: "F4 xs \<noteq> [] \<and> (\<forall>r \<in> set (F4 xs). comparable d r)"
      if "xs \<noteq> []" "\<forall>r \<in> set xs. comparable d r" for xs
    proof -
      have "phase_med xs = Inr (F4 xs)" unfolding F4_def by (rule phases_comparable [OF that(1)]) (use that(2) in blast)
      moreover have "phase_med xs = Inr (best_med first_as xs)"
        by (rule phase_med_best) (use that(2) in \<open>auto simp: comparable_def first_as_def\<close>)
      ultimately have "F4 xs \<noteq> []" using best_med_not_Nil [OF that(1), of first_as] by simp
      with that(2) show ?thesis by (auto simp: F4_def)
    qed
    define X1 where "X1 = F1 S0"
    define X2 where "X2 = F2 X1"
    define X3 where "X3 = F3 X2"
    define X4 where "X4 = F4 X3"
    define X5 where "X5 = F5 X4"
    define X6 where "X6 = F6 X5"
    define X7 where "X7 = F7 X6"
    have c0: "S0 \<noteq> [] \<and> (\<forall>r \<in> set S0. comparable d r)" using False S0 by blast
    have c1: "X1 \<noteq> [] \<and> (\<forall>r \<in> set X1. comparable d r)" unfolding X1_def using ok [of F1 S0] c0 by simp
    have c2: "X2 \<noteq> [] \<and> (\<forall>r \<in> set X2. comparable d r)" unfolding X2_def using ok [of F2 X1] c1 by simp
    have c3: "X3 \<noteq> [] \<and> (\<forall>r \<in> set X3. comparable d r)" unfolding X3_def using ok [of F3 X2] c2 by simp
    have c4: "X4 \<noteq> [] \<and> (\<forall>r \<in> set X4. comparable d r)" unfolding X4_def using ok4 [of X3] c3 by simp
    have c5: "X5 \<noteq> [] \<and> (\<forall>r \<in> set X5. comparable d r)" unfolding X5_def using ok [of F5 X4] c4 by simp
    have c6: "X6 \<noteq> [] \<and> (\<forall>r \<in> set X6. comparable d r)" unfolding X6_def using ok [of F6 X5] c5 by simp
    have c7: "X7 \<noteq> [] \<and> (\<forall>r \<in> set X7. comparable d r)" unfolding X7_def using ok [of F7 X6] c6 by simp
    have p: "phase_local_pref S0 = Inr X1" "phase_aspath X1 = Inr X2" "phase_origin X2 = Inr X3"
        "phase_med X3 = Inr X4" "phase_ebgp X4 = Inr X5" "phase_igp d X5 = Inr X6" "phase_id X6 = Inr X7"
      unfolding X1_def X2_def X3_def X4_def X5_def X6_def X7_def F1_def F2_def F3_def F4_def F5_def F6_def F7_def
      using c0 c1 c2 c3 c4 c5 c6
      unfolding X1_def X2_def X3_def X4_def X5_def X6_def X7_def F1_def F2_def F3_def F4_def F5_def F6_def F7_def
      by (blast intro: phases_comparable)+
    have "phase_address X7 = Inr X7"
    proof (rule phase_address_same)
      show "X7 \<noteq> []" using c7 by blast
      fix x y assume "x \<in> set X7" "y \<in> set X7"
      then have "hval (peer_id (rd_peer_handler x)) = hval (peer_id (rd_peer_handler y))"
        unfolding X7_def F7_def by (rule best_by_same)
      then show "peer_id (rd_peer_handler x) = peer_id (rd_peer_handler y)" by (simp only: hval_eq_iff)
    qed
    moreover have one: "F [x] = [x]" if "F \<in> {F1, F2, F3, F4, F5, F6, F7}" for F x
      using that by (elim insertE) (simp_all add: F1_def F2_def F3_def F4_def F5_def F6_def F7_def)
    have "length X6 = 1 \<Longrightarrow> hd X7 = hd X6" "length X5 = 1 \<Longrightarrow> hd X7 = hd X5" "length X4 = 1 \<Longrightarrow> hd X7 = hd X4"
        "length X3 = 1 \<Longrightarrow> hd X7 = hd X3" "length X2 = 1 \<Longrightarrow> hd X7 = hd X2" "length X1 = 1 \<Longrightarrow> hd X7 = hd X1"
        "length S0 = 1 \<Longrightarrow> hd X7 = hd S0"
      unfolding X7_def X6_def X5_def X4_def X3_def X2_def X1_def length_1_eq by (auto simp: one)
    ultimately have "find_winner d alts = Inr (Some (hd X7))"
      unfolding find_winner_def S0_def [symmetric] Let_def using False p c7 by simp
    moreover have "candidates d alts = X7"
      by (simp only: cand X1_def X2_def X3_def X4_def X5_def X6_def X7_def)
    ultimately show ?thesis using c7 by (cases X7) simp_all
  qed
qed

subsection \<open>The winner is one of the alternatives\<close>

lemma phase_loop_subset:
  "phase_loop ok better val test kept rs = Inr res \<Longrightarrow> set res \<subseteq> set kept \<union> set rs"
proof (induction rs arbitrary: test kept)
  case (Cons r rs)
  from Cons.prems obtain v where "val r = Inr v"
      "(if better test v then phase_loop ok better val test kept rs
        else if better v test then phase_loop ok better val v [r] rs
        else phase_loop ok better val test (kept @ [r]) rs) = Inr res"
    by (auto split: if_splits)
  then show ?case by (auto split: if_splits dest!: Cons.IH)
qed simp

lemma phase_subset: "phase ok better val rs = Inr res \<Longrightarrow> set res \<subseteq> set rs"
  by (cases rs) (auto dest!: phase_loop_subset)

lemma med_inner_subset: "med_inner a m alts i j = Inr (alts', i', del) \<Longrightarrow> set alts' \<subseteq> set alts"
proof (induction a m alts i j rule: med_inner.induct)
  case (1 a m alts i j)
  note eq = "1.prems" [unfolded med_inner.simps [of a m alts i j]]
  show ?case
  proof (cases "j < length alts")
    case j: True
    show ?thesis
    proof (cases "i = j")
      case True
      with eq j "1.IH"(4) show ?thesis by simp
    next
      case False
      with eq j obtain b where b: "neighbour_as (alts ! j) = Inr b" by (cases "neighbour_as (alts ! j)") auto
      consider (del_i) "a = b" "m > route_med (alts ! j)" | (del_j) "a = b" "m < route_med (alts ! j)"
        | (same) "a = b" "m = route_med (alts ! j)" | (other) "a \<noteq> b"
        using linorder_less_linear by blast
      then show ?thesis
      proof cases
        case del_i
        with eq j False b set_erase_at [of i alts] show ?thesis by auto
      next
        case del_j
        with eq j False b "1.IH"(1) [OF j False b refl del_j(1) _ del_j(2)] set_erase_at [of j alts]
        show ?thesis by auto
      next
        case same
        with eq j False b "1.IH"(2) [OF j False b refl same(1)] show ?thesis by simp
      next
        case other
        with eq j False b "1.IH"(3) [OF j False b refl other] show ?thesis by simp
      qed
    qed
  qed (use eq in simp)
qed

lemma med_outer_subset: "med_outer alts i = Inr res \<Longrightarrow> set res \<subseteq> set alts"
proof (induction alts i rule: med_outer.induct)
  case (1 alts i)
  note eq = "1.prems" [unfolded med_outer.simps [of alts i]]
  show ?case
  proof (cases "i < length alts")
    case True
    with eq obtain a alts' i' del where i: "neighbour_as (alts ! i) = Inr a"
        "med_inner a (route_med (alts ! i)) alts i 0 = Inr (alts', i', del)"
        "med_outer alts' (if del then i' else Suc i') = Inr res"
      by auto
    from "1.IH" [OF True i(1,2) refl refl i(3)] med_inner_subset [OF i(2)] show ?thesis by blast
  qed (use eq in simp)
qed

lemma phase_subsets:
  "phase_local_pref rs = Inr res \<Longrightarrow> set res \<subseteq> set rs" "phase_aspath rs = Inr res \<Longrightarrow> set res \<subseteq> set rs"
  "phase_origin rs = Inr res \<Longrightarrow> set res \<subseteq> set rs" "phase_med rs = Inr res \<Longrightarrow> set res \<subseteq> set rs"
  "phase_ebgp rs = Inr res \<Longrightarrow> set res \<subseteq> set rs" "phase_igp d rs = Inr res \<Longrightarrow> set res \<subseteq> set rs"
  "phase_id rs = Inr res \<Longrightarrow> set res \<subseteq> set rs" "phase_address rs = Inr res \<Longrightarrow> set res \<subseteq> set rs"
  unfolding phase_local_pref_def phase_aspath_def phase_origin_def phase_med_def phase_ebgp_def phase_igp_def
    phase_id_def phase_address_def
  by (erule phase_subset med_outer_subset)+

lemma chain_member:
  assumes "(if length xs = 1 then Inr (Some (hd xs)) else res_bind (P xs) K) = Inr (Some w)" "set xs \<subseteq> A"
    "\<And>ys. P xs = Inr ys \<Longrightarrow> set ys \<subseteq> set xs"
    "\<And>ys. set ys \<subseteq> A \<Longrightarrow> K ys = Inr (Some w) \<Longrightarrow> w \<in> A"
  shows "w \<in> A"
proof (cases "length xs = 1")
  case True
  with assms(1,2) show ?thesis by (cases xs) auto
next
  case False
  with assms(1) obtain ys where "P xs = Inr ys" "K ys = Inr (Some w)" by auto
  with assms(2-4) show ?thesis by blast
qed

lemma find_winner_member:
  assumes "find_winner d alts = Inr (Some w)"
  shows "w \<in> set alts" "nexthop_resolved (store d (rd_route w))"
proof -
  let ?A = "set (filter (\<lambda>r. nexthop_resolved (store d (rd_route r))) alts)"
  have "w \<in> ?A"
    using assms unfolding find_winner_def Let_def
    apply (split if_split_asm)
     apply simp
    apply (erule chain_member, rule subset_refl, erule phase_subsets)
    apply (erule chain_member, assumption, erule phase_subsets)
    apply (erule chain_member, assumption, erule phase_subsets)
    apply (erule chain_member, assumption, erule phase_subsets)
    apply (erule chain_member, assumption, erule phase_subsets)
    apply (erule chain_member, assumption, erule phase_subsets)
    apply (erule chain_member, assumption, erule phase_subsets)
    apply (erule chain_member, assumption, erule phase_subsets)
    apply (auto split: if_splits simp: subset_iff)
    done
  then show "w \<in> set alts" "nexthop_resolved (store d (rd_route w))" by simp_all
qed

subsection \<open>What the next table sees\<close>

text \<open>
  The route that the next table holds for every prefix, as the calls to it change it. A call that
  adds a route where there is one, or that deletes or replaces another route than the one that is
  there, has no effect that is defined: \<open>None\<close>.
\<close>

fun apply_down :: "(nat \<Rightarrow> ipnet) \<Rightarrow> down_call \<Rightarrow> (ipnet \<Rightarrow> nat option) \<Rightarrow> (ipnet \<Rightarrow> nat option) option" where
  "apply_down net (DownAdd m) t =
     (if t (net (msg_route m)) = None then Some (t(net (msg_route m) \<mapsto> msg_route m)) else None)"
| "apply_down net (DownDelete m) t =
     (if t (net (msg_route m)) = Some (msg_route m) then Some (t(net (msg_route m) := None)) else None)"
| "apply_down net (DownReplace old new) t =
     (if t (net (msg_route old)) = Some (msg_route old) \<and> net (msg_route new) = net (msg_route old)
      then Some (t(net (msg_route new) \<mapsto> msg_route new)) else None)"
| "apply_down net _ t = Some t"

fun replay :: "(nat \<Rightarrow> ipnet) \<Rightarrow> down_call list \<Rightarrow> (ipnet \<Rightarrow> nat option) \<Rightarrow> (ipnet \<Rightarrow> nat option) option" where
  "replay net [] t = Some t"
| "replay net (c # cs) t = Option.bind (apply_down net c t) (replay net cs)"

definition alternatives :: "decision \<Rightarrow> nat option \<Rightarrow> ipnet \<Rightarrow> (nat \<times> peer_table_info) list \<Rightarrow> route_data list" where
  "alternatives d caller net ps =
     List.map_filter (\<lambda>(p, pti). if Some p \<noteq> caller then
       map_option (\<lambda>(rt, pa, genid). \<lparr>rd_route = rt, rd_attributes = pa, rd_parent_table = p,
         rd_peer_handler = pti_peer_handler pti, rd_genid = genid\<rparr>) (tables d p net) else None) ps"

definition winners :: "decision \<Rightarrow> nat list \<Rightarrow> nat list" where
  "winners d rts = filter (\<lambda>rt. is_winner (store d rt)) rts"

definition the_winner :: "decision \<Rightarrow> nat list \<Rightarrow> nat option" where
  "the_winner d rts = (case winners d rts of [] \<Rightarrow> None | rt # _ \<Rightarrow> Some rt)"

definition others :: "decision \<Rightarrow> nat \<Rightarrow> ipnet \<Rightarrow> nat list" where
  "others d caller net = map rd_route (alternatives d (Some caller) net (parents d))"

definition alt_result :: "decision \<Rightarrow> route_data list \<Rightarrow> route_data option \<Rightarrow> route_data option \<Rightarrow> bool" where
  "alt_result d new prev old \<longleftrightarrow> (case prev of
     Some w \<Rightarrow> old = Some w \<and> winners d (map rd_route new) = []
   | None \<Rightarrow> (case old of
       None \<Rightarrow> winners d (map rd_route new) = []
     | Some w \<Rightarrow> w \<in> set new \<and> winners d (map rd_route new) = [rd_route w]))"

lemma alternatives_loop_Inr:
  "alternatives_loop d caller net ps acc prev = Inr (alts, old) \<Longrightarrow>
     alts = acc @ alternatives d caller net ps \<and> alt_result d (alternatives d caller net ps) prev old"
proof (induction ps arbitrary: acc prev)
  case Nil
  then show ?case by (cases prev) (auto simp: alternatives_def winners_def map_filter_simps alt_result_def)
next
  case (Cons pp ps)
  obtain parent pti where pp: "pp = (parent, pti)" by (cases pp)
  show ?case
  proof (cases "Some parent \<noteq> caller \<and> tables d parent net \<noteq> None")
    case False
    then have a: "alternatives d caller net (pp # ps) = alternatives d caller net ps"
      by (cases "tables d parent net") (auto simp: alternatives_def map_filter_simps pp)
    have "alternatives_loop d caller net ps acc prev = Inr (alts, old)"
      using Cons.prems False by (cases "tables d parent net"; cases "Some parent = caller") (simp_all add: pp)
    from Cons.IH [OF this] show ?thesis unfolding a .
  next
    case True
    then obtain rt pa g where t: "tables d parent net = Some (rt, pa, g)" by auto
    let ?r = "\<lparr>rd_route = rt, rd_attributes = pa, rd_parent_table = parent,
      rd_peer_handler = pti_peer_handler pti, rd_genid = g\<rparr>"
    have a: "alternatives d caller net (pp # ps) = ?r # alternatives d caller net ps"
      using True t by (simp add: alternatives_def map_filter_simps pp)
    show ?thesis
    proof (cases "is_winner (store d rt)")
      case win: True
      with Cons.prems True t have n: "prev = None"
          "alternatives_loop d caller net ps (acc @ [?r]) (Some ?r) = Inr (alts, old)"
        by (auto simp: Let_def pp split: if_splits)
      from Cons.IH [OF n(2)] n(1) win show ?thesis unfolding a by (simp add: alt_result_def winners_def)
    next
      case lose: False
      with Cons.prems True t have n: "alternatives_loop d caller net ps (acc @ [?r]) prev = Inr (alts, old)"
        by (auto simp: Let_def pp split: if_splits)
      from Cons.IH [OF n] lose show ?thesis
        unfolding a by (auto simp: alt_result_def winners_def split: option.splits)
    qed
  qed
qed

lemma find_alternative_routes_Inr:
  assumes "find_alternative_routes d (Some caller) net = Inr (alts, old)"
  shows "map rd_route alts = others d caller net"
    and "old = None \<Longrightarrow> winners d (others d caller net) = []"
    and "old = Some w \<Longrightarrow> w \<in> set alts \<and> winners d (others d caller net) = [rd_route w]"
  using alternatives_loop_Inr [OF assms [unfolded find_alternative_routes_def]]
  by (auto simp: others_def alt_result_def)

subsection \<open>The handlers keep the next table in step\<close>

lemma decision_upd_simps [simp]:
  "store (send c d) = store d" "sent (send c d) = sent d @ [c]" "next_result (send c d) = next_result d"
  "nexthops (send c d) = nexthops d" "tables (send c d) = tables d" "parents (send c d) = parents d"
  "store (upd_route rt f d) = (store d)(rt := f (store d rt))" "sent (upd_route rt f d) = sent d"
  "nexthops (upd_route rt f d) = nexthops d" "tables (upd_route rt f d) = tables d" "parents (upd_route rt f d) = parents d"
  "store (rd_set_is_not_winner r d) = (store d)(rd_route r := set_is_not_winner (store d (rd_route r)))"
  "sent (rd_set_is_not_winner r d) = sent d" "nexthops (rd_set_is_not_winner r d) = nexthops d"
  "tables (rd_set_is_not_winner r d) = tables d" "parents (rd_set_is_not_winner r d) = parents d"
  by (simp_all add: send_def upd_route_def rd_set_is_not_winner_def)

lemma route_flag_simps [simp]:
  "is_winner (set_is_winner v r)" "\<not> is_winner (set_is_not_winner r)"
  "rt_net (set_is_winner v r) = rt_net r" "rt_net (set_is_not_winner r) = rt_net r"
  "nexthop_resolved (set_is_winner v r) = nexthop_resolved r"
  "nexthop_resolved (set_is_not_winner r) = nexthop_resolved r"
  by (simp_all add: set_is_winner_def set_is_not_winner_def)

text \<open>
  A step from \<open>d\<close> to \<open>d'\<close> is in step for a prefix when the calls it makes take the next table from
  holding exactly the old winner to holding exactly the new one, change no other prefix, and
  there is at most one winner among the routes \<open>rts\<close> that the parents now have.
\<close>

definition in_step :: "decision \<Rightarrow> decision \<Rightarrow> ipnet \<Rightarrow> nat list \<Rightarrow> (ipnet \<Rightarrow> nat option) \<Rightarrow> bool" where
  "in_step d d' net rts t \<longleftrightarrow>
     (\<exists>cs t'. sent d' = sent d @ cs \<and> replay (\<lambda>rt. rt_net (store d rt)) cs t = Some t'
       \<and> (\<forall>n. n \<noteq> net \<longrightarrow> t' n = t n) \<and> t' net = the_winner d' rts \<and> length (winners d' rts) \<le> 1)"

lemma winners_single:
  "distinct rts \<Longrightarrow> w \<in> set rts \<Longrightarrow> \<forall>rt \<in> set rts. is_winner (store d rt) \<longleftrightarrow> rt = w \<Longrightarrow> winners d rts = [w]"
proof (induction rts)
  case (Cons x xs)
  show ?case
  proof (cases "x = w")
    case True
    with Cons.prems have "\<forall>rt \<in> set xs. \<not> is_winner (store d rt)" by auto
    then have "winners d xs = []" by (simp add: winners_def filter_empty_conv)
    with True Cons.prems(3) show ?thesis by (simp add: winners_def)
  next
    case False
    with Cons show ?thesis by (simp add: winners_def)
  qed
qed simp

lemma in_step_winner:
  assumes "sent d' = sent d @ cs" "replay (\<lambda>rt. rt_net (store d rt)) cs t = Some t'"
    "\<And>n. n \<noteq> net \<Longrightarrow> t' n = t n" "t' net = Some w"
    "distinct rts" "w \<in> set rts" "\<And>rt. rt \<in> set rts \<Longrightarrow> is_winner (store d' rt) \<longleftrightarrow> rt = w"
  shows "in_step d d' net rts t"
  unfolding in_step_def the_winner_def
  using assms winners_single [of rts w d'] by (intro exI [of _ cs] exI [of _ t']) auto

lemma winner_mem: "rt \<in> set rts \<Longrightarrow> is_winner (store d rt) \<Longrightarrow> rt \<in> set (winners d rts)"
  by (simp add: winners_def)

lemma in_step_refl:
  assumes "t net = the_winner d rts" "length (winners d rts) \<le> 1" "winners d rts' = winners d rts"
  shows "in_step d d net rts' t"
  unfolding in_step_def using assms by (intro exI [of _ "[]"] exI [of _ t]) (simp add: the_winner_def)

lemma winners_append_loser: "\<not> is_winner (store d rt) \<Longrightarrow> winners d (rts @ [rt]) = winners d rts"
  by (simp add: winners_def)

text \<open>Telling the next table about a new winner, without or with an old one.\<close>

lemma in_step_add:
  assumes "sent d' = sent d @ [DownAdd m]" "rt_net (store d (msg_route m)) = net" "t net = None"
    "distinct rts" "msg_route m \<in> set rts"
    "\<And>rt. rt \<in> set rts \<Longrightarrow> is_winner (store d' rt) \<longleftrightarrow> rt = msg_route m"
  shows "in_step d d' net rts t"
  by (rule in_step_winner [OF assms(1), where t' = "t(net \<mapsto> msg_route m)" and w = "msg_route m"])
    (use assms in auto)

lemma in_step_delete_add:
  assumes "sent d' = sent d @ [DownDelete mo, DownAdd m]" "rt_net (store d (msg_route m)) = net"
    "rt_net (store d (msg_route mo)) = net" "t net = Some (msg_route mo)"
    "distinct rts" "msg_route m \<in> set rts"
    "\<And>rt. rt \<in> set rts \<Longrightarrow> is_winner (store d' rt) \<longleftrightarrow> rt = msg_route m"
  shows "in_step d d' net rts t"
  by (rule in_step_winner [OF assms(1), where t' = "t(net \<mapsto> msg_route m)" and w = "msg_route m"])
    (use assms in auto)

lemma in_step_push: "in_step d d' net rts t \<Longrightarrow> in_step d (send DownPush d') net rts t"
proof -
  have r: "replay net' (cs @ [DownPush]) t = replay net' cs t" for net' cs and t :: "ipnet \<Rightarrow> nat option"
    by (induction cs arbitrary: t) (auto split: bind_splits)
  assume "in_step d d' net rts t"
  then obtain cs t' where "sent d' = sent d @ cs" "replay (\<lambda>rt. rt_net (store d rt)) cs t = Some t'"
      "\<forall>n. n \<noteq> net \<longrightarrow> t' n = t n" "t' net = the_winner d' rts" "length (winners d' rts) \<le> 1"
    unfolding in_step_def by blast
  then show ?thesis
    unfolding in_step_def
    by (intro exI [of _ "cs @ [DownPush]"] exI [of _ t']) (simp add: r the_winner_def winners_def)
qed

lemma add_route_in_step:
  assumes add: "add_route rtmsg caller d = Inr (d', res)" and net: "net = msg_net d rtmsg"
    and rts: "distinct (others d caller net @ [msg_route rtmsg])"
      "\<forall>rt \<in> set (others d caller net). rt_net (store d rt) = net"
    and w: "\<not> is_winner (store d (msg_route rtmsg))" "length (winners d (others d caller net)) \<le> 1"
      "t net = the_winner d (others d caller net)"
  shows "in_step d d' net (others d caller net @ [msg_route rtmsg]) t"
proof -
  let ?rts = "others d caller net @ [msg_route rtmsg]"
  have same: "in_step d d net ?rts t"
    using w(3,2) winners_append_loser [OF w(1)] by (rule in_step_refl)
  have rnet: "rt_net (store d (msg_route rtmsg)) = net" using net by (simp add: msg_net_def)
  show ?thesis
  proof (cases "d' = d")
    case True
    with same show ?thesis by simp
  next
    case changed: False
    let ?new = "route_data_of rtmsg caller"
    from add changed obtain alts old where far: "find_alternative_routes d (Some caller) net = Inr (alts, old)"
      by (auto simp: add_route_def net split: if_splits)
    note fa = find_alternative_routes_Inr [OF far]
    from add changed far obtain nw where nw:
        "(if alts \<noteq> [] then find_winner d (alts @ [?new]) else Inr (Some ?new)) = Inr (Some nw)"
      by (auto simp: add_route_def net Let_def split: if_splits option.splits)
    define d1 where "d1 = (case old of None \<Rightarrow> d
      | Some ow \<Rightarrow> rd_set_is_not_winner ow (send (DownDelete (msg_of ow)) d))"
    define mn where "mn = (if rd_route nw \<noteq> msg_route rtmsg then (msg_of nw)\<lparr>msg_push := msg_push rtmsg\<rparr> else rtmsg)"
    from add changed far nw obtain metric where d':
        "d' = send (DownAdd mn) (upd_route (rd_route nw) (set_is_winner metric) d1)"
        "(case old of None \<Rightarrow> False | Some ow \<Rightarrow> rd_route ow = rd_route nw) = False"
      by (auto simp: add_route_def net Let_def d1_def mn_def split: if_splits)
    have mem: "rd_route nw \<in> set ?rts" "rt_net (store d (rd_route nw)) = net"
    proof -
      have "nw \<in> set (alts @ [?new])" using nw find_winner_member(1) [of d "alts @ [?new]" nw] by (auto split: if_splits)
      then have "rd_route nw \<in> set (map rd_route alts @ [msg_route rtmsg])" by (auto simp: route_data_of_def)
      then show "rd_route nw \<in> set ?rts" by (simp only: fa(1))
      then show "rt_net (store d (rd_route nw)) = net" using rts(2) rnet by auto
    qed
    have mn: "msg_route mn = rd_route nw" by (simp add: mn_def msg_of_def)
    show ?thesis
    proof (cases old)
      case None
      then have "winners d ?rts = []" using fa(2) w(1) by (simp add: winners_append_loser)
      then have "\<forall>rt \<in> set ?rts. \<not> is_winner (store d rt)" using winner_mem [of _ ?rts d] by auto
      moreover have "t net = None" using w(3) fa(2) None by (simp add: the_winner_def)
      ultimately show ?thesis
        using None d' mem mn rts(1) by (intro in_step_add [of _ _ mn]) (auto simp: d1_def)
    next
      case (Some ow)
      then have o: "winners d (others d caller net) = [rd_route ow]" using fa(3) by simp
      then have only: "\<forall>rt \<in> set ?rts. is_winner (store d rt) \<longrightarrow> rt = rd_route ow"
        using winner_mem [of _ ?rts d] w(1) by (auto simp: winners_append_loser)
      have "rd_route ow \<in> set (winners d (others d caller net))" using o by simp
      then have "rt_net (store d (rd_route ow)) = net" using rts(2) by (simp add: winners_def)
      moreover have "t net = Some (rd_route ow)" using w(3) o by (simp add: the_winner_def)
      moreover have "rd_route ow \<noteq> rd_route nw" using d'(2) Some by simp
      ultimately show ?thesis
        using Some d' mem mn rts(1) only
        by (intro in_step_delete_add [of _ _ "msg_of ow" mn]) (auto simp: d1_def msg_of_def)
    qed
  qed
qed

lemma in_step_delete:
  assumes "sent d' = sent d @ [DownDelete mo]" "rt_net (store d (msg_route mo)) = net" "t net = Some (msg_route mo)"
    "\<And>rt. rt \<in> set rts \<Longrightarrow> \<not> is_winner (store d' rt)"
  shows "in_step d d' net rts t"
proof -
  have "winners d' rts = []" using assms(4) by (simp add: winners_def filter_empty_conv)
  then show ?thesis
    unfolding in_step_def using assms(1-3)
    by (intro exI [of _ "[DownDelete mo]"] exI [of _ "t(net := None)"]) (simp add: the_winner_def)
qed

lemma in_step_replace:
  assumes "sent d' = sent d @ [DownReplace mo m]" "rt_net (store d (msg_route m)) = net"
    "rt_net (store d (msg_route mo)) = net" "t net = Some (msg_route mo)"
    "distinct rts" "msg_route m \<in> set rts"
    "\<And>rt. rt \<in> set rts \<Longrightarrow> is_winner (store d' rt) \<longleftrightarrow> rt = msg_route m"
  shows "in_step d d' net rts t"
  by (rule in_step_winner [OF assms(1), where t' = "t(net \<mapsto> msg_route m)" and w = "msg_route m"])
    (use assms in auto)

lemma winners_one:
  assumes "winners d rts = [w]"
  shows "w \<in> set rts" and "rt \<in> set rts \<Longrightarrow> is_winner (store d rt) \<longleftrightarrow> rt = w"
proof -
  have "{rt \<in> set rts. is_winner (store d rt)} = {w}" using arg_cong [OF assms, of set] by (simp add: winners_def)
  then show "w \<in> set rts" and "rt \<in> set rts \<Longrightarrow> is_winner (store d rt) \<longleftrightarrow> rt = w" by auto
qed

text \<open>
  Who the old winner is, for the handlers that remove a route \<open>rt\<close> of the caller: the flagged
  route of another parent, or \<open>rt\<close> itself.
\<close>

definition old_winner_of :: "decision \<Rightarrow> route_data option \<Rightarrow> internal_message \<Rightarrow> nat \<Rightarrow> route_data option" where
  "old_winner_of d old m caller = (case old of Some ow \<Rightarrow> Some ow
     | None \<Rightarrow> if is_winner (store d (msg_route m)) then Some (route_data_of m caller) else None)"

lemma old_winner_correct:
  assumes far: "find_alternative_routes d (Some caller) net = Inr (alts, old)"
    and w: "length (winners d (others d caller net @ [msg_route m])) \<le> 1"
  shows "old_winner_of d old m caller = None \<Longrightarrow> winners d (others d caller net @ [msg_route m]) = []"
    and "old_winner_of d old m caller = Some ow \<Longrightarrow> winners d (others d caller net @ [msg_route m]) = [rd_route ow]"
proof -
  have app: "winners d (others d caller net @ [msg_route m]) = winners d (others d caller net) @ winners d [msg_route m]"
    by (simp add: winners_def)
  note fa = find_alternative_routes_Inr [OF far]
  show "winners d (others d caller net @ [msg_route m]) = []" if "old_winner_of d old m caller = None"
    using that fa(2) unfolding app by (auto simp: old_winner_of_def winners_def split: option.splits if_splits)
  show "winners d (others d caller net @ [msg_route m]) = [rd_route ow]" if o: "old_winner_of d old m caller = Some ow"
  proof (cases old)
    case None
    with o fa(2) show ?thesis
      unfolding app by (auto simp: old_winner_of_def winners_def route_data_of_def split: if_splits)
  next
    case (Some w')
    with o fa(3) w show ?thesis
      unfolding app by (auto simp: old_winner_of_def winners_def split: if_splits)
  qed
qed

lemma delete_route_in_step:
  assumes del: "delete_route rtmsg caller d = Inr (d', res)" and net: "net = msg_net d rtmsg"
    and rts: "distinct (others d caller net @ [msg_route rtmsg])"
      "\<forall>rt \<in> set (others d caller net). rt_net (store d rt) = net"
    and w: "length (winners d (others d caller net @ [msg_route rtmsg])) \<le> 1"
      "t net = the_winner d (others d caller net @ [msg_route rtmsg])"
  shows "in_step d d' net (others d caller net) t
    \<and> (\<forall>rt. rt \<notin> set (others d caller net @ [msg_route rtmsg]) \<longrightarrow> store d' rt = store d rt)"
proof -
  let ?others = "others d caller net" and ?rt = "msg_route rtmsg"
  have rnet: "rt_net (store d ?rt) = net" using net by (simp add: msg_net_def)
  from del obtain alts old where far: "find_alternative_routes d (Some caller) net = Inr (alts, old)"
    by (auto simp: delete_route_def net split: if_splits)
  note fa = find_alternative_routes_Inr [OF far]
  from del far obtain new_winner where nw:
      "(if alts \<noteq> [] then find_winner d alts else Inr None) = Inr new_winner"
    by (auto simp: delete_route_def net Let_def split: if_splits)
  define ow where "ow = old_winner_of d old rtmsg caller"
  note ocorrect = old_winner_correct [OF far w(1), folded ow_def]
  have mem: "rd_route n \<in> set ?others \<and> rt_net (store d (rd_route n)) = net" if "new_winner = Some n" for n
  proof -
    have "n \<in> set alts" using nw that find_winner_member(1) [of d alts n] by (auto split: if_splits)
    then have "rd_route n \<in> set (map rd_route alts)" by auto
    then have "rd_route n \<in> set ?others" by (simp only: fa(1))
    with rts(2) show ?thesis by blast
  qed
  note step = del [unfolded delete_route_def, folded net, unfolded far res_bind.simps prod.case Let_def nw,
      folded old_winner_of_def, folded ow_def]
  show ?thesis
  proof (cases ow)
    case None
    then have none: "winners d (?others @ [?rt]) = []" using ocorrect(1) by simp
    then have nw0: "\<forall>rt \<in> set ?others. \<not> is_winner (store d rt)" "t net = None"
      using winner_mem [of _ "?others @ [?rt]" d] w(2) by (auto simp: the_winner_def)
    show ?thesis
    proof (cases new_winner)
      case None': None
      with None step have "d' = d" by (simp split: if_splits)
      with none w(2) show ?thesis
        using in_step_refl [of t net d "?others @ [?rt]" ?others] by (simp add: winners_def)
    next
      case (Some n)
      with None step obtain metric d2 where d2: "d2 = send (DownAdd (msg_of n)) (upd_route (rd_route n) (set_is_winner metric) d)"
          "d' = d2 \<or> d' = send DownPush d2"
        by (auto split: if_splits)
      have "in_step d d2 net ?others t"
        using nw0 mem [OF Some] rts(1) by (intro in_step_add [of _ _ "msg_of n"]) (auto simp: d2(1) msg_of_def)
      with d2 in_step_push mem [OF Some] show ?thesis by auto
    qed
  next
    case (Some o')
    then have one: "winners d (?others @ [?rt]) = [rd_route o']" using ocorrect(2) by simp
    note omem = winners_one(1) [OF this] and only = winners_one(2) [OF this]
    have onet: "rt_net (store d (rd_route o')) = net" using omem rts(2) rnet by auto
    have tn: "t net = Some (rd_route o')" using w(2) one by (simp add: the_winner_def)
    define mo where "mo = (if rd_route o' \<noteq> ?rt then (msg_of o')\<lparr>msg_push := msg_push rtmsg \<and> new_winner = None\<rparr>
      else if new_winner \<noteq> None then rtmsg\<lparr>msg_push := False\<rparr> else rtmsg)"
    define d1 where "d1 = (if rd_route o' \<noteq> ?rt then rd_set_is_not_winner o' (send (DownDelete mo) d)
      else upd_route ?rt set_is_not_winner (send (DownDelete mo) d))"
    have d1: "sent d1 = sent d @ [DownDelete mo]" "store d1 = (store d)(rd_route o' := set_is_not_winner (store d (rd_route o')))"
        "msg_route mo = rd_route o'"
      by (auto simp: d1_def mo_def msg_of_def)
    show ?thesis
    proof (cases new_winner)
      case None
      with Some step have "d' = d1" by (simp add: d1_def mo_def split: if_splits)
      moreover have "in_step d d1 net ?others t"
        using only tn onet by (intro in_step_delete [of _ _ mo]) (auto simp: d1)
      ultimately show ?thesis using omem by (auto simp: d1)
    next
      case n: (Some n)
      show ?thesis
      proof (cases "rd_route o' = rd_route n")
        case True
        have "d' = d" using step unfolding Some n option.case prod.case using True by (auto split: if_splits)
        moreover have "winners d ?others = winners d (?others @ [?rt])"
        proof -
          have "?rt \<noteq> rd_route n" using mem [OF n] rts(1) by auto
          then have "\<not> is_winner (store d ?rt)" using only [of ?rt] True by simp
          then show ?thesis by (simp add: winners_append_loser)
        qed
        ultimately show ?thesis
          using in_step_refl [of t net d "?others @ [?rt]" ?others] w by simp
      next
        case False
        with Some n step obtain metric d2 where d2: "d2 = send (DownAdd (msg_of n)) (upd_route (rd_route n) (set_is_winner metric) d1)"
            "d' = d2 \<or> d' = send DownPush d2"
          by (auto simp: d1_def mo_def split: if_splits)
        have "in_step d d2 net ?others t"
          using only mem [OF n] rts(1) tn onet False
          by (intro in_step_delete_add [of _ _ mo "msg_of n"]) (auto simp: d2(1) d1 msg_of_def)
        with d2 in_step_push mem [OF n] omem show ?thesis by (auto simp: d1)
      qed
    qed
  qed
qed

lemma replace_route_in_step:
  assumes rep: "replace_route old_rtmsg new_rtmsg caller d = Inr (d', res)" and net: "net = msg_net d new_rtmsg"
    and rts: "distinct (others d caller net @ [msg_route old_rtmsg, msg_route new_rtmsg])"
      "\<forall>rt \<in> set (others d caller net). rt_net (store d rt) = net"
    and w: "length (winners d (others d caller net @ [msg_route old_rtmsg])) \<le> 1"
      "t net = the_winner d (others d caller net @ [msg_route old_rtmsg])"
      "\<not> is_winner (store d (msg_route new_rtmsg))"
  shows "in_step d d' net (others d caller net @ [msg_route new_rtmsg]) t"
proof -
  let ?others = "others d caller net" and ?old = "msg_route old_rtmsg" and ?new = "msg_route new_rtmsg"
  let ?nr = "route_data_of new_rtmsg caller"
  from rep have net': "net = msg_net d old_rtmsg" by (auto simp: replace_route_def net split: if_splits)
  have rnet: "rt_net (store d ?old) = net" "rt_net (store d ?new) = net" using net net' by (simp_all add: msg_net_def)
  from rep obtain alts old where far: "find_alternative_routes d (Some caller) net = Inr (alts, old)"
    by (auto simp: replace_route_def net [symmetric] net' [symmetric] split: if_splits)
  note fa = find_alternative_routes_Inr [OF far]
  define ow where "ow = old_winner_of d old old_rtmsg caller"
  note ocorrect = old_winner_correct [OF far w(1), folded ow_def]
  note step = rep [unfolded replace_route_def, folded net net', unfolded far res_bind.simps prod.case Let_def,
      folded old_winner_of_def, folded ow_def]
  have dist: "distinct (?others @ [?old])" "distinct (?others @ [?new])" "?new \<notin> set (?others @ [?old])"
    using rts(1) by auto
  show ?thesis
  proof (cases ow)
    case None
    with step have "add_route new_rtmsg caller d = Inr (d', res)" by simp
    moreover have "winners d ?others = []" using ocorrect(1) [OF None] by (simp add: winners_def)
    moreover from this have "t net = the_winner d ?others"
      using w(2) ocorrect(1) [OF None] by (simp add: the_winner_def)
    ultimately show ?thesis using add_route_in_step [where t = t, OF _ net dist(2) rts(2) w(3)] by simp
  next
    case (Some o')
    have one: "winners d (?others @ [?old]) = [rd_route o']" by (rule ocorrect(2) [OF Some])
    note omem = winners_one(1) [OF one] and only = winners_one(2) [OF one]
    have onet: "rt_net (store d (rd_route o')) = net" using omem rts(2) rnet by auto
    have tn: "t net = Some (rd_route o')" using w(2) one by (simp add: the_winner_def)
    from step Some obtain nw where nw: "(if alts \<noteq> [] then find_winner d (alts @ [?nr])
        else res_map (\<lambda>ok. if ok then Some ?nr else None) (resolvable d (pa_nexthop (msg_attributes new_rtmsg)))) = Inr nw"
      by (auto split: if_splits)
    note step' = step [unfolded Some option.case nw res_bind.simps]
    show ?thesis
    proof (cases nw)
      case None
      with step' obtain d1 r1 where del: "delete_route old_rtmsg caller d = Inr (d1, r1)"
          "d' = d1 \<or> d' = send DownPush d1"
        by (auto split: if_splits)
      from delete_route_in_step [where t = t, OF del(1) net' dist(1) rts(2) w(1,2)]
      have s: "in_step d d1 net ?others t" "store d1 ?new = store d ?new" using dist(3) by simp_all
      then have "winners d1 (?others @ [?new]) = winners d1 ?others" using w(3) by (simp add: winners_append_loser)
      with s(1) have "in_step d d1 net (?others @ [?new]) t" by (simp add: in_step_def the_winner_def)
      with del(2) in_step_push show ?thesis by blast
    next
      case n: (Some n)
      have mem: "rd_route n \<in> set (?others @ [?new])" "rt_net (store d (rd_route n)) = net"
      proof -
        have "n \<in> set (alts @ [?nr])"
          using nw n find_winner_member(1) [of d "alts @ [?nr]" n] by (auto split: if_splits)
        then have "rd_route n \<in> set (map rd_route alts @ [?new])" by (auto simp: route_data_of_def)
        then show "rd_route n \<in> set (?others @ [?new])" by (simp only: fa(1))
        then show "rt_net (store d (rd_route n)) = net" using rts(2) rnet by auto
      qed
      show ?thesis
      proof (cases "rd_route n = rd_route o'")
        case True
        with step' n have "d' = d" by simp
        moreover have "\<not> is_winner (store d ?old)" using only [of ?old] True mem(1) dist rts(1) by auto
        then have "winners d (?others @ [?new]) = winners d (?others @ [?old])"
          using w(3) by (simp add: winners_append_loser)
        ultimately show ?thesis using in_step_refl [of t net d "?others @ [?old]" "?others @ [?new]"] w(1,2) by simp
      next
        case False
        define mo where "mo = (if rd_route o' = ?old then old_rtmsg\<lparr>msg_push := False\<rparr> else msg_of o')"
        define mn where "mn = (if rd_route n = ?new then new_rtmsg else (msg_of n)\<lparr>msg_push := msg_push new_rtmsg\<rparr>)"
        define d1 where "d1 = (if rd_route o' = ?old then d else rd_set_is_not_winner o' d)"
        from step' n False obtain metric where ig: "igp_distance d1 (pa_nexthop (rd_attributes n)) = Inr metric"
          unfolding d1_def by (cases "rd_route o' = ?old") (auto split: if_splits)
        note stepn = step' [unfolded n option.case, folded mo_def mn_def d1_def, unfolded ig res_bind.simps]
        have d': "d' = (if msg_origin_peer mo = msg_origin_peer mn
            then send (DownReplace mo mn) (upd_route (rd_route n) (set_is_winner metric) d1)
            else send (DownAdd mn) (send (DownDelete mo) (upd_route (rd_route n) (set_is_winner metric) d1)))"
          using stepn False by (simp split: if_splits)
        have m: "msg_route mo = rd_route o'" "msg_route mn = rd_route n" by (auto simp: mo_def mn_def msg_of_def)
        have flags: "is_winner (store d' rt) \<longleftrightarrow> rt = rd_route n" if "rt \<in> set (?others @ [?new])" for rt
        proof -
          have "is_winner (store d rt) \<longrightarrow> rt = rd_route o'"
            using that only [of rt] w(3) by auto
          moreover have "rt \<noteq> ?old" using that rts(1) by auto
          ultimately show ?thesis unfolding d' d1_def by auto
        qed
        have s: "sent d1 = sent d" by (simp add: d1_def)
        show ?thesis
        proof (cases "msg_origin_peer mo = msg_origin_peer mn")
          case True
          show ?thesis
            by (rule in_step_replace [of _ _ mo mn])
              (use True d' s m mem onet tn dist(2) flags in simp_all)
        next
          case False
          show ?thesis
            by (rule in_step_delete_add [of _ _ mo mn])
              (use False d' s m mem onet tn dist(2) flags in simp_all)
        qed
      qed
    qed
  qed
qed

subsection \<open>The handlers return\<close>

lemma alternatives_loop_total:
  "length (winners d (map rd_route (alternatives d caller net ps))) + (if prev = None then 0 else 1) \<le> 1 \<Longrightarrow>
     \<exists>alts old. alternatives_loop d caller net ps acc prev = Inr (alts, old)"
proof (induction ps arbitrary: acc prev)
  case (Cons pp ps)
  obtain parent pti where pp: "pp = (parent, pti)" by (cases pp)
  show ?case
  proof (cases "Some parent \<noteq> caller \<and> tables d parent net \<noteq> None")
    case False
    then have "alternatives d caller net (pp # ps) = alternatives d caller net ps"
      by (cases "tables d parent net") (auto simp: alternatives_def map_filter_simps pp)
    with Cons False show ?thesis
      by (cases "tables d parent net"; cases "Some parent = caller") (simp_all add: pp)
  next
    case True
    then obtain rt pa g where t: "tables d parent net = Some (rt, pa, g)" by auto
    let ?r = "\<lparr>rd_route = rt, rd_attributes = pa, rd_parent_table = parent,
      rd_peer_handler = pti_peer_handler pti, rd_genid = g\<rparr>"
    have a: "alternatives d caller net (pp # ps) = ?r # alternatives d caller net ps"
      using True t by (simp add: alternatives_def map_filter_simps pp)
    show ?thesis
    proof (cases "is_winner (store d rt)")
      case win: True
      with Cons.prems a have "prev = None" "winners d (map rd_route (alternatives d caller net ps)) = []"
        by (auto simp: winners_def filter_map split: if_splits)
      with Cons.IH [of "Some ?r" "acc @ [?r]"] True t win show ?thesis by (simp add: pp Let_def)
    next
      case lose: False
      with Cons.prems a Cons.IH [of prev "acc @ [?r]"] True t show ?thesis by (simp add: pp Let_def winners_def)
    qed
  qed
qed simp

lemma find_alternative_routes_total:
  assumes "length (winners d (others d caller net)) \<le> 1"
  obtains old where
    "find_alternative_routes d (Some caller) net = Inr (alternatives d (Some caller) net (parents d), old)"
proof -
  obtain alts old where "alternatives_loop d (Some caller) net (parents d) [] None = Inr (alts, old)"
    using alternatives_loop_total [of d "Some caller" net "parents d" None "[]"] assms by (auto simp: others_def)
  with alternatives_loop_Inr [OF this] that show thesis by (simp add: find_alternative_routes_def)
qed

lemma candidates_not_Nil:
  assumes "filter (\<lambda>r. nexthop_resolved (store d (rd_route r))) alts \<noteq> []"
    "\<And>r. r \<in> set alts \<Longrightarrow> nexthop_resolved (store d (rd_route r)) \<Longrightarrow> comparable d r"
  shows "candidates d alts \<noteq> []" "hd (candidates d alts) \<in> set alts"
    "nexthop_resolved (store d (rd_route (hd (candidates d alts))))"
proof -
  have med: "filter (\<lambda>r. \<forall>s \<in> set rs. first_as s = first_as r \<longrightarrow>
      unat (med (rd_attributes r)) \<le> unat (med (rd_attributes s))) rs \<noteq> []" if rs: "rs \<noteq> []" for rs
  proof -
    obtain r where "r \<in> set rs" "\<forall>s \<in> set rs. unat (med (rd_attributes r)) \<le> unat (med (rd_attributes s))"
      using best_by_not_Nil [OF rs, of "\<lambda>r. unat (med (rd_attributes r))"]
      by (auto simp: best_by_def filter_empty_conv)
    then show ?thesis by (auto simp: filter_empty_conv)
  qed
  show "candidates d alts \<noteq> []"
    unfolding candidates_def by (intro best_by_not_Nil med assms(1))
  then have "find_winner d alts = Inr (Some (hd (candidates d alts)))"
    using find_winner_candidates [OF assms(2)] by (cases "candidates d alts") simp_all
  from find_winner_member [OF this] show "hd (candidates d alts) \<in> set alts"
    "nexthop_resolved (store d (rd_route (hd (candidates d alts))))" .
qed

subsection \<open>Properties\<close>

text \<open>A table with two parents, of which the first has a route for the prefix, the current winner.\<close>

abbreviation ex_net :: ipnet where
  "ex_net \<equiv> \<lparr>masked_addr = IPv4 10, prefix_len = 8\<rparr>"

definition ex_pa :: "u32 \<Rightarrow> pa_list" where
  "ex_pa lp = \<lparr>pa_nexthop = IPv4 1, pa_aspath = path_of [as_seq [AsNum 701]], pa_origin = IGP,
     pa_local_pref = Some lp, pa_med = None\<rparr>"

definition ex_peer :: "u32 \<Rightarrow> peer_handler" where
  "ex_peer i = \<lparr>unique_id = i, peer_id = IPv4 i, ibgp = False\<rparr>"

definition ex_decision :: decision where
  "ex_decision = \<lparr>parents = [(1, \<lparr>pti_peer_handler = ex_peer 1, pti_genid = 1\<rparr>), (2, \<lparr>pti_peer_handler = ex_peer 2, pti_genid = 1\<rparr>)],
     sorted_parents = [(1, 1), (2, 2)],
     store = (\<lambda>rt. \<lparr>rt_net = ex_net, nexthop_resolved = True, is_winner = (rt = 10), igp_metric = 5\<rparr>),
     tables = (\<lambda>p n. if n \<noteq> ex_net then None else if p = 1 then Some (10, ex_pa 100, 1) else Some (20, ex_pa 200, 1)),
     nexthops = (\<lambda>nh. Some (True, 5)), has_next_table = True, next_result = 1, sent = [], notices = []\<rparr>"

definition ex_msg :: internal_message where
  "ex_msg = \<lparr>msg_route = 20, msg_attributes = ex_pa 200, msg_origin_peer = ex_peer 2, msg_genid = 1, msg_push = False\<rparr>"

definition ex_route :: "nat \<Rightarrow> u32 \<Rightarrow> nat \<Rightarrow> route_data" where
  "ex_route rt lp parent = \<lparr>rd_route = rt, rd_attributes = ex_pa lp, rd_parent_table = parent,
     rd_peer_handler = ex_peer (of_nat parent), rd_genid = 1\<rparr>"

lemma ex_alternatives: "alternatives ex_decision (Some 2) ex_net (parents ex_decision) = [ex_route 10 100 1]"
  by (simp add: alternatives_def ex_decision_def map_filter_simps ex_route_def)

lemma ex_others: "others ex_decision 2 ex_net = [10]"
  by (simp add: others_def ex_alternatives ex_route_def)

lemma ex_comparable: "unat lp < 2147483648 \<Longrightarrow> comparable ex_decision (ex_route rt lp parent)"
  by (simp add: comparable_def ex_route_def ex_pa_def ex_decision_def local_pref_def med_def igp_value_def
      neighbour_as_def path_first_asnum_def seg_first_asnum_def seg_path_length_def)

text \<open>
  C7: When the values of the resolvable alternatives fit in an \<open>int\<close>, the winner is the first of
  the routes that remain after comparing, in this order: local preference (highest), AS path
  length, origin, MED among routes of the same neighbouring AS, external before internal, IGP
  distance and BGP identifier (lowest each); without a resolvable route there is no winner.
\<close>

theorem find_winner_refines:
  assumes "\<And>r. r \<in> set alts \<Longrightarrow> nexthop_resolved (store d (rd_route r)) \<Longrightarrow> comparable d r"
  shows "find_winner d alts = Inr (case candidates d alts of [] \<Rightarrow> None | r # rs \<Rightarrow> Some r)"
  by (rule find_winner_candidates [OF assms])

theorem find_winner_refines_witness:
  "find_winner ex_decision [ex_route 10 100 1, ex_route 20 200 2] = Inr (Some (ex_route 20 200 2))"
proof -
  have "candidates ex_decision [ex_route 10 100 1, ex_route 20 200 2] = [ex_route 20 200 2]"
    by (simp add: candidates_def best_by_def ex_decision_def ex_route_def local_pref_def ex_pa_def)
  moreover have "find_winner ex_decision [ex_route 10 100 1, ex_route 20 200 2]
      = Inr (case candidates ex_decision [ex_route 10 100 1, ex_route 20 200 2] of [] \<Rightarrow> None | r # rs \<Rightarrow> Some r)"
    by (rule find_winner_refines) (use ex_comparable in auto)
  ultimately show ?thesis by simp
qed

text \<open>
  The states in which a handler is called: \<open>old\<close> are the routes that the caller no longer has and
  \<open>new\<close> the ones it has now. At most one of the routes before the event is flagged as winner, and
  \<open>t\<close>, the next table, holds exactly that route for the prefix; a new route is not flagged.
\<close>

definition ready :: "decision \<Rightarrow> nat \<Rightarrow> ipnet \<Rightarrow> nat list \<Rightarrow> nat list \<Rightarrow> (ipnet \<Rightarrow> nat option) \<Rightarrow> bool" where
  "ready d caller net old new t \<longleftrightarrow>
     distinct (others d caller net @ old @ new) \<and> (\<forall>rt \<in> set (others d caller net). rt_net (store d rt) = net)
     \<and> length (winners d (others d caller net @ old)) \<le> 1 \<and> t net = the_winner d (others d caller net @ old)
     \<and> (\<forall>rt \<in> set new. \<not> is_winner (store d rt))"

text \<open>
  C8: In a state where at most one of the routes that the parents have for a prefix is flagged
  as winner and the next table holds exactly that route, each of \<open>add_route\<close>, \<open>delete_route\<close> and
  \<open>replace_route\<close> sends calls that the next table can apply (no second add, no delete or replace
  of a route it does not hold), after which it again holds exactly the flagged route, there is at
  most one, and no other prefix is touched.
\<close>

theorem decision_in_step:
  "(add_route m caller d = Inr (d', res) \<and> ready d caller (msg_net d m) [] [msg_route m] t
      \<longrightarrow> in_step d d' (msg_net d m) (others d caller (msg_net d m) @ [msg_route m]) t)
   \<and> (delete_route m caller d = Inr (d', res) \<and> ready d caller (msg_net d m) [msg_route m] [] t
      \<longrightarrow> in_step d d' (msg_net d m) (others d caller (msg_net d m)) t)
   \<and> (replace_route m' m caller d = Inr (d', res) \<and> ready d caller (msg_net d m) [msg_route m'] [msg_route m] t
      \<longrightarrow> in_step d d' (msg_net d m) (others d caller (msg_net d m) @ [msg_route m]) t)"
proof (intro conjI impI; elim conjE)
  assume "add_route m caller d = Inr (d', res)" "ready d caller (msg_net d m) [] [msg_route m] t"
  then show "in_step d d' (msg_net d m) (others d caller (msg_net d m) @ [msg_route m]) t"
    by (intro add_route_in_step) (simp_all add: ready_def)
next
  assume "delete_route m caller d = Inr (d', res)" "ready d caller (msg_net d m) [msg_route m] [] t"
  then show "in_step d d' (msg_net d m) (others d caller (msg_net d m)) t"
    by (intro delete_route_in_step [THEN conjunct1]) (simp_all add: ready_def)
next
  assume "replace_route m' m caller d = Inr (d', res)" "ready d caller (msg_net d m) [msg_route m'] [msg_route m] t"
  then show "in_step d d' (msg_net d m) (others d caller (msg_net d m) @ [msg_route m]) t"
    by (intro replace_route_in_step) (simp_all add: ready_def)
qed

lemma ex_ready: "ready ex_decision 2 (msg_net ex_decision ex_msg) [] [msg_route ex_msg] [ex_net \<mapsto> 10]"
  by (simp add: ready_def msg_net_def ex_msg_def ex_decision_def others_def alternatives_def map_filter_simps
      winners_def the_winner_def)

lemma ex_msg_net: "msg_net ex_decision ex_msg = ex_net" "msg_route ex_msg = 20"
  by (simp_all add: msg_net_def ex_decision_def ex_msg_def)

theorem decision_in_step_witness:
  "\<exists>d' res. add_route ex_msg 2 ex_decision = Inr (d', res)
     \<and> in_step ex_decision d' ex_net [10, 20] [ex_net \<mapsto> 10]"
proof -
  obtain d' res where d': "add_route ex_msg 2 ex_decision = Inr (d', res)"
    by (simp add: add_route_def resolvable_def find_alternative_routes_def find_winner_def phase_local_pref_def
        igp_distance_def local_pref_def int_of_u32_def ex_decision_def ex_msg_def ex_pa_def msg_net_def route_data_of_def
        Let_def rd_set_is_not_winner_def upd_route_def send_def)
  with decision_in_step [of ex_msg 2 ex_decision d' res "[ex_net \<mapsto> 10]"] ex_ready
  have "in_step ex_decision d' (msg_net ex_decision ex_msg)
      (others ex_decision 2 (msg_net ex_decision ex_msg) @ [msg_route ex_msg]) [ex_net \<mapsto> 10]"
    by blast
  with d' show ?thesis by (simp add: ex_msg_net ex_others)
qed

text \<open>
  C14: A new route whose next hop the resolver knows as resolvable is decided when the resolvable
  alternatives and the new route are comparable (\<open>comparable\<close>: the resolver knows the next hop,
  the neighbouring AS of the path is defined, and local preference, path length, MED and IGP
  distance are below 2^31): \<open>add_route\<close> then returns, and the
  route that is flagged as winner afterwards is the best one among the alternatives and the new
  route.
\<close>

theorem add_route_selects_best:
  assumes "ready d caller (msg_net d m) [] [msg_route m] t"
    "resolvable d (pa_nexthop (msg_attributes m)) = Inr True" "nexthop_resolved (store d (msg_route m))"
    "alts = alternatives d (Some caller) (msg_net d m) (parents d) @ [route_data_of m caller]"
    "\<And>r. r \<in> set alts \<Longrightarrow> nexthop_resolved (store d (rd_route r)) \<Longrightarrow> comparable d r"
  shows "\<exists>d' res. add_route m caller d = Inr (d', res)
    \<and> the_winner d' (others d caller (msg_net d m) @ [msg_route m]) = Some (rd_route (hd (candidates d alts)))"
proof -
  let ?net = "msg_net d m" and ?new = "route_data_of m caller"
  let ?others = "others d caller (msg_net d m)" and ?as = "alternatives d (Some caller) (msg_net d m) (parents d)"
  note r = assms(1) [unfolded ready_def]
  then have w1: "length (winners d ?others) \<le> 1" by simp
  then obtain old where far: "find_alternative_routes d (Some caller) ?net = Inr (?as, old)"
    by (rule find_alternative_routes_total)
  have ne: "filter (\<lambda>r. nexthop_resolved (store d (rd_route r))) alts \<noteq> []"
    using assms(3,4) by (simp add: route_data_of_def)
  note c = candidates_not_Nil [OF ne assms(5)]
  define w where "w = hd (candidates d alts)"
  have fw: "find_winner d alts = Inr (Some w)"
    using find_winner_candidates [OF assms(5)] c(1) by (cases "candidates d alts") (simp_all add: w_def)
  have choice: "(if ?as \<noteq> [] then find_winner d (?as @ [?new]) else Inr (Some ?new)) = Inr (Some w)"
  proof (cases "?as = []")
    case True
    then have "w = ?new" using c(2) assms(4) by (simp add: w_def)
    with True show ?thesis by simp
  next
    case False
    with fw assms(4) show ?thesis by simp
  qed
  have "comparable d w" using assms(5) [OF c(2,3)] by (simp add: w_def)
  then obtain ok metric where "nexthops d (pa_nexthop (rd_attributes w)) = Some (ok, metric)"
    by (auto simp: comparable_def)
  then have ig: "igp_distance d1 (pa_nexthop (rd_attributes w)) = Inr metric" if "nexthops d1 = nexthops d" for d1
    using that by (simp add: igp_distance_def)
  have "\<exists>d' res. add_route m caller d = Inr (d', res) \<and> is_winner (store d' (rd_route w))"
  proof (cases old)
    case None
    then show ?thesis using assms(2,3) far choice ig by (simp add: add_route_def Let_def)
  next
    case (Some ow)
    have o: "winners d ?others = [rd_route ow]" using find_alternative_routes_Inr(3) [OF far Some] by simp
    show ?thesis
    proof (cases "rd_route ow = rd_route w")
      case True
      with Some show ?thesis
        using assms(2,3) far choice winners_one [OF o] by (auto simp: add_route_def Let_def)
    next
      case False
      with Some show ?thesis using assms(2,3) far choice ig by (simp add: add_route_def Let_def)
    qed
  qed
  then obtain d' res where d': "add_route m caller d = Inr (d', res)" "is_winner (store d' (rd_route w))" by blast
  have "in_step d d' ?net (?others @ [msg_route m]) t"
    by (rule add_route_in_step [OF d'(1) refl]) (use r in simp_all)
  then have "length (winners d' (?others @ [msg_route m])) \<le> 1" by (auto simp: in_step_def)
  moreover have "rd_route w \<in> set (winners d' (?others @ [msg_route m]))"
  proof (rule winner_mem [OF _ d'(2)])
    have "w \<in> set (?as @ [?new])" using c(2) assms(4) by (simp add: w_def)
    then show "rd_route w \<in> set (?others @ [msg_route m])" by (auto simp: others_def route_data_of_def)
  qed
  ultimately have "winners d' (?others @ [msg_route m]) = [rd_route w]"
    by (cases "winners d' (?others @ [msg_route m])") auto
  with d'(1) show ?thesis by (simp add: the_winner_def w_def)
qed

theorem add_route_selects_best_witness:
  "\<exists>d' res. add_route ex_msg 2 ex_decision = Inr (d', res) \<and> the_winner d' [10, 20] = Some 20"
proof -
  let ?alts = "[ex_route 10 100 1, ex_route 20 200 2]"
  have rd: "route_data_of ex_msg 2 = ex_route 20 200 2"
    by (simp add: route_data_of_def ex_msg_def ex_route_def)
  have "candidates ex_decision ?alts = [ex_route 20 200 2]"
    by (simp add: candidates_def best_by_def ex_decision_def ex_route_def local_pref_def ex_pa_def)
  moreover have "\<exists>d' res. add_route ex_msg 2 ex_decision = Inr (d', res)
      \<and> the_winner d' (others ex_decision 2 (msg_net ex_decision ex_msg) @ [msg_route ex_msg])
        = Some (rd_route (hd (candidates ex_decision ?alts)))"
  proof (rule add_route_selects_best [OF ex_ready])
    show "?alts = alternatives ex_decision (Some 2) (msg_net ex_decision ex_msg) (parents ex_decision) @ [route_data_of ex_msg 2]"
      by (simp add: ex_msg_net ex_alternatives rd)
  qed (use ex_comparable in \<open>auto simp: resolvable_def ex_decision_def\<close>)
  ultimately show ?thesis by (simp add: ex_msg_net ex_others ex_route_def)
qed

text \<open>Values of \<open>2 ^ 31\<close> and more turn negative: they are misordered, or fail an assertion.\<close>

lemma med_compared_signed:
  "pa_med (rd_attributes a) = Some 0x80000000 \<Longrightarrow> pa_med (rd_attributes b) = Some 0 \<Longrightarrow> route_med a < route_med b"
  by (simp add: route_med_def med_def int_of_u32_def)

lemma local_pref_assertion:
  "pa_local_pref (rd_attributes b) = Some 0x80000000 \<Longrightarrow> phase_local_pref [a, b] = Inl XlogAssert"
  by (simp add: phase_local_pref_def local_pref_def int_of_u32_def)

lemma neighbour_address_is_id: "peer_id p = peer_id q \<Longrightarrow> neighbour_address p = neighbour_address q"
  by (simp add: neighbour_address_def)

end
