(* ===== verification/Buffer.thy ===== *)
theory Buffer
  imports Xorp_Prelude
begin

text \<open>
  Access to byte buffers, as the packet code uses them (the helpers at the top of
  \<open>libproto/packet.hh\<close>, \<open>memcpy\<close> and \<open>vector::resize\<close>). A buffer is the list of its bytes, and a
  pointer into it the list from there on; an access behind the end is the error \<open>OutOfBounds\<close>.
\<close>

definition extract_16 :: "u8 \<Rightarrow> u8 \<Rightarrow> u16" where
  "extract_16 a b = push_bit 8 (ucast a) OR ucast b"

definition embed_16 :: "u16 \<Rightarrow> u8 list" where
  "embed_16 v = [ucast (drop_bit 8 v AND 0xff), ucast (v AND 0xff)]"

definition byte_at :: "u8 list \<Rightarrow> nat \<Rightarrow> u8 res" where
  "byte_at d i = (if i < length d then Inr (d ! i) else Inl OutOfBounds)"

definition word_at :: "u8 list \<Rightarrow> nat \<Rightarrow> u16 res" where
  "word_at d i = res_bind (byte_at d i) (\<lambda>a. res_map (extract_16 a) (byte_at d (i + 1)))"

definition put :: "nat \<Rightarrow> u8 list \<Rightarrow> u8 list \<Rightarrow> u8 list res" where
  "put i bs d = (if i + length bs \<le> length d then Inr (take i d @ bs @ drop (i + length bs) d) else Inl OutOfBounds)"

definition memcpy :: "nat \<Rightarrow> u8 list \<Rightarrow> nat \<Rightarrow> u8 list \<Rightarrow> u8 list res" where
  "memcpy i src n d = (if n \<le> length src then put i (take n src) d else Inl OutOfBounds)"

definition resize :: "nat \<Rightarrow> u8 list \<Rightarrow> u8 list" where
  "resize n d = take n d @ replicate (n - length d) 0"

lemma extract_embed_16 [simp]: "extract_16 (ucast (drop_bit 8 v AND 0xff)) (ucast (v AND 0xff)) = v"
proof -
  have masks: "(0xff :: u16) = mask 8" by (simp add: mask_eq_exp_minus_1)
  show ?thesis unfolding extract_16_def masks
    by (rule bit_word_eqI) (auto simp: bit_simps)
qed

lemma length_embed_16 [simp]: "length (embed_16 v) = 2"
  by (simp add: embed_16_def)

lemma length_resize [simp]: "length (resize n d) = n"
  by (simp add: resize_def)

lemma put_ok [simp]: "i + length bs \<le> length d \<Longrightarrow> put i bs d = Inr (take i d @ bs @ drop (i + length bs) d)"
  by (simp add: put_def)

lemma length_put: "put i bs d = Inr d' \<Longrightarrow> length d' = length d"
  by (auto simp: put_def split: if_splits)

lemma byte_at_put:
  assumes "put i bs d = Inr d'" "j < length d"
  shows "byte_at d' j = Inr (if i \<le> j \<and> j < i + length bs then bs ! (j - i) else d ! j)"
  using assms by (auto simp: put_def byte_at_def nth_append not_le split: if_splits)

end
