(* ===== verification/Bgp_Packet.thy ===== *)
theory Bgp_Packet
  imports Buffer As_Path IPv4_Addr
begin

text \<open>
  BGP messages on the wire (\<open>bgp/packet.hh\<close>, \<open>bgp/packet.cc\<close>, \<open>bgp/open_packet.cc\<close>,
  \<open>bgp/notification_packet.cc\<close>, \<open>bgp/parameter.hh\<close>, \<open>bgp/parameter.cc\<close>): the common header, the
  KEEPALIVE, NOTIFICATION and OPEN messages, and the optional parameters of an OPEN message with
  the capabilities they carry. A buffer is the list of its bytes; a read or a write behind the
  end of an allocated buffer is the error \<open>OutOfBounds\<close>.
\<close>

subsection \<open>Constants\<close>

definition MESSAGETYPEOPEN :: u8 where "MESSAGETYPEOPEN = 1"
definition MESSAGETYPEUPDATE :: u8 where "MESSAGETYPEUPDATE = 2"
definition MESSAGETYPENOTIFICATION :: u8 where "MESSAGETYPENOTIFICATION = 3"
definition MESSAGETYPEKEEPALIVE :: u8 where "MESSAGETYPEKEEPALIVE = 4"

lemmas message_types = MESSAGETYPEOPEN_def MESSAGETYPEUPDATE_def MESSAGETYPENOTIFICATION_def
  MESSAGETYPEKEEPALIVE_def

definition UNSPECIFIED :: nat where "UNSPECIFIED = 0"
definition MSGHEADERERR :: nat where "MSGHEADERERR = 1"
definition CONNNOTSYNC :: nat where "CONNNOTSYNC = 1"
definition BADMESSLEN :: nat where "BADMESSLEN = 2"
definition BADMESSTYPE :: nat where "BADMESSTYPE = 3"
definition OPENMSGERROR :: nat where "OPENMSGERROR = 2"
definition UNSUPVERNUM :: nat where "UNSUPVERNUM = 1"
definition BADASPEER :: nat where "BADASPEER = 2"
definition BADBGPIDENT :: nat where "BADBGPIDENT = 3"
definition UNSUPOPTPAR :: nat where "UNSUPOPTPAR = 4"
definition UNACCEPTHOLDTIME :: nat where "UNACCEPTHOLDTIME = 6"
definition UNSUPCAPABILITY :: nat where "UNSUPCAPABILITY = 7"
definition HOLDTIMEEXP :: nat where "HOLDTIMEEXP = 4"
definition FSMERROR :: nat where "FSMERROR = 5"
definition CEASE :: nat where "CEASE = 6"

lemmas notify_codes = UNSPECIFIED_def MSGHEADERERR_def CONNNOTSYNC_def BADMESSLEN_def BADMESSTYPE_def
  OPENMSGERROR_def UNSUPVERNUM_def BADASPEER_def BADBGPIDENT_def UNSUPOPTPAR_def
  UNACCEPTHOLDTIME_def UNSUPCAPABILITY_def HOLDTIMEEXP_def FSMERROR_def CEASE_def

definition MARKER_SIZE :: nat where "MARKER_SIZE = 16"
definition COMMON_HEADER_LEN :: nat where "COMMON_HEADER_LEN = MARKER_SIZE + 3"
definition TYPE_OFFSET :: nat where "TYPE_OFFSET = MARKER_SIZE + 2"
definition MINPACKETSIZE :: nat where "MINPACKETSIZE = COMMON_HEADER_LEN"
definition MAXPACKETSIZE :: nat where "MAXPACKETSIZE = 4096"
definition MINOPENPACKET :: nat where "MINOPENPACKET = COMMON_HEADER_LEN + 10"
definition MINKEEPALIVEPACKET :: nat where "MINKEEPALIVEPACKET = COMMON_HEADER_LEN"
definition MINNOTIFICATIONPACKET :: nat where "MINNOTIFICATIONPACKET = COMMON_HEADER_LEN + 2"

lemmas packet_sizes = MARKER_SIZE_def COMMON_HEADER_LEN_def TYPE_OFFSET_def MINPACKETSIZE_def
  MAXPACKETSIZE_def MINOPENPACKET_def MINKEEPALIVEPACKET_def MINNOTIFICATIONPACKET_def

subsection \<open>The common header\<close>

definition Marker :: "u8 list" where "Marker = replicate MARKER_SIZE 0xff"

definition basic_encode :: "nat \<Rightarrow> u8 \<Rightarrow> u8 list res" where
  "basic_encode len type =
     (if len < MARKER_SIZE + 3 then Inl XlogAssert
      else Inr (Marker @ [of_nat (len div 256), of_nat len, type]))"

subsection \<open>KEEPALIVE\<close>

definition keepalive_encode :: "u8 list res" where
  "keepalive_encode = basic_encode MINKEEPALIVEPACKET MESSAGETYPEKEEPALIVE"

definition keepalive_decode :: "u8 list \<Rightarrow> nat \<Rightarrow> unit res" where
  "keepalive_decode buf l =
     (if l \<noteq> MINKEEPALIVEPACKET
      then Inl (CorruptMessage MSGHEADERERR BADMESSLEN (take 2 (drop MARKER_SIZE buf)))
      else Inr ())"

subsection \<open>NOTIFICATION\<close>

record notification_packet =
  np_Length :: nat
  error_data :: "u8 list option"
  error_code :: u8
  error_subcode :: u8

definition NotificationPacket :: "u8 \<Rightarrow> u8 \<Rightarrow> u8 list option \<Rightarrow> notification_packet" where
  "NotificationPacket ec esc ed =
     (let ed = (if ed = Some [] then None else ed);
          elen = (case ed of None \<Rightarrow> 0 | Some d \<Rightarrow> length d)
      in \<lparr> np_Length = MINNOTIFICATIONPACKET + elen, error_data = ed, error_code = ec, error_subcode = esc \<rparr>)"

definition notification_decode :: "u8 list \<Rightarrow> nat \<Rightarrow> notification_packet res" where
  "notification_decode d l =
     (if l < MINNOTIFICATIONPACKET
      then Inl (CorruptMessage MSGHEADERERR BADMESSLEN (take 2 (drop MARKER_SIZE d)))
      else if length d < l then Inl OutOfBounds
      else Inr \<lparr> np_Length = l,
                 error_data = (if l - MINNOTIFICATIONPACKET > 0
                   then Some (take (l - MINNOTIFICATIONPACKET) (drop MINNOTIFICATIONPACKET d)) else None),
                 error_code = d ! COMMON_HEADER_LEN,
                 error_subcode = d ! (COMMON_HEADER_LEN + 1) \<rparr>)"

definition notification_encode :: "notification_packet \<Rightarrow> nat \<Rightarrow> u8 list option res" where
  "notification_encode np len =
     (if len < np_Length np then Inr None
      else res_bind (basic_encode (np_Length np) MESSAGETYPENOTIFICATION) (\<lambda>header.
        Inr (Some (header @ [error_code np, error_subcode np]
          @ (case error_data np of None \<Rightarrow> [] | Some d \<Rightarrow> take (np_Length np - MINNOTIFICATIONPACKET) d)))))"

definition validate_error_code :: "int \<Rightarrow> int \<Rightarrow> bool" where
  "validate_error_code error subcode =
     (let good_error_subcode =
        (if error = 1 then subcode \<in> {1, 2, 3}
         else if error = 2 then subcode \<in> {1, 2, 3, 4, 5, 6}
         else if error = 3 then subcode \<in> {1, 2, 3, 4, 5, 6, 8, 9, 10, 11}
         else False);
        good_error_code = error \<in> {1, 2, 3, 4, 5, 6}
      in good_error_code \<and> (good_error_subcode \<or> subcode = 0))"

subsection \<open>Optional parameters and capabilities\<close>

datatype afi = AFI_IPV4 | AFI_IPV6
datatype safi = SAFI_UNICAST | SAFI_MULTICAST

fun afi_val :: "afi \<Rightarrow> u16" where "afi_val AFI_IPV4 = 1" | "afi_val AFI_IPV6 = 2"
fun safi_val :: "safi \<Rightarrow> u8" where "safi_val SAFI_UNICAST = 1" | "safi_val SAFI_MULTICAST = 2"

text \<open>
  The subclasses of \<open>BGPCapParameter\<close> with their own fields, and the fields of the base classes:
  the raw bytes \<open>_data\<close>, \<open>_length\<close>, \<open>_cap_code\<close> (an enum, \<open>-1\<close> for an unknown capability) and
  \<open>_cap_length\<close>. \<open>_type\<close> is \<open>PARAMTYPECAP\<close> for each of them.
\<close>

datatype capability =
    Refresh (old_type_code: bool)
  | MultiProtocol afi safi
  | MultiRoute
  | FourByteAS u32
  | UnknownCap u8

record bgp_parameter =
  par_data :: "u8 list"
  par_length :: u8
  cap_code :: int
  cap_length :: u8
  cap :: capability

definition PARAMTYPEAUTH :: u8 where "PARAMTYPEAUTH = 1"
definition PARAMTYPECAP :: u8 where "PARAMTYPECAP = 2"
definition CAPABILITYMULTIPROTOCOL :: u8 where "CAPABILITYMULTIPROTOCOL = 1"
definition CAPABILITYREFRESH :: u8 where "CAPABILITYREFRESH = 2"
definition CAPABILITYREFRESHOLD :: u8 where "CAPABILITYREFRESHOLD = 128"
definition CAPABILITYMULTIROUTE :: u8 where "CAPABILITYMULTIROUTE = 4"
definition CAPABILITY4BYTEAS :: u8 where "CAPABILITY4BYTEAS = 65"
definition CAPABILITYUNKNOWN :: int where "CAPABILITYUNKNOWN = -1"

lemmas cap_codes = PARAMTYPEAUTH_def PARAMTYPECAP_def CAPABILITYMULTIPROTOCOL_def
  CAPABILITYREFRESH_def CAPABILITYREFRESHOLD_def CAPABILITYMULTIROUTE_def CAPABILITY4BYTEAS_def
  CAPABILITYUNKNOWN_def

text \<open>
  The constructors used to send a capability. Their \<open>_data\<close> is allocated without a value; every
  byte of it is written by \<open>encode\<close> before it is read, and \<open>_cap_length\<close> is 0 from the base
  class. \<open>BGP4ByteASCapability(const AsNum&)\<close> leaves \<open>_cap_code\<close> without a value: it is an argument
  here.
\<close>

definition BGPRefreshCapability :: bgp_parameter where
  "BGPRefreshCapability = \<lparr> par_data = replicate 4 0, par_length = 4,
     cap_code = uint CAPABILITYREFRESH, cap_length = 0, cap = Refresh False \<rparr>"

definition BGPMultiProtocolCapability :: "afi \<Rightarrow> safi \<Rightarrow> bgp_parameter" where
  "BGPMultiProtocolCapability a s = \<lparr> par_data = replicate 8 0, par_length = 8,
     cap_code = uint CAPABILITYMULTIPROTOCOL, cap_length = 0, cap = MultiProtocol a s \<rparr>"

definition BGP4ByteASCapability :: "int \<Rightarrow> as_num \<Rightarrow> bgp_parameter" where
  "BGP4ByteASCapability uninitialised n = \<lparr> par_data = replicate 8 0, par_length = 8,
     cap_code = uninitialised, cap_length = 0, cap = FourByteAS (as4 n) \<rparr>"

text \<open>\<open>encode()\<close> of each capability overwrites the first bytes of \<open>_data\<close>.\<close>

definition overwrite :: "u8 list \<Rightarrow> u8 list \<Rightarrow> u8 list res" where
  "overwrite bs d = (if length d < length bs then Inl OutOfBounds else Inr (bs @ drop (length bs) d))"

definition BGPRefreshCapability_encode :: "bool \<Rightarrow> u8 list \<Rightarrow> u8 list res" where
  "BGPRefreshCapability_encode old =
     overwrite [PARAMTYPECAP, 2, if old then CAPABILITYREFRESHOLD else CAPABILITYREFRESH, 0]"

definition BGPMultiProtocolCapability_encode :: "afi \<Rightarrow> safi \<Rightarrow> u8 list \<Rightarrow> u8 list res" where
  "BGPMultiProtocolCapability_encode a s =
     overwrite ([PARAMTYPECAP, 6, CAPABILITYMULTIPROTOCOL, 4] @ embed_16 (afi_val a) @ [0, safi_val s])"

definition BGPMultiRouteCapability_encode :: "u8 list \<Rightarrow> u8 list res" where
  "BGPMultiRouteCapability_encode = overwrite [PARAMTYPECAP, 6, CAPABILITYMULTIROUTE]"

definition BGP4ByteASCapability_encode :: "u32 \<Rightarrow> u8 list \<Rightarrow> u8 list res" where
  "BGP4ByteASCapability_encode n =
     overwrite ([PARAMTYPECAP, 6, CAPABILITY4BYTEAS, 4] @ le_bytes (htonl n))"

definition BGPUnknownCapability_encode :: "u8 list \<Rightarrow> u8 list res" where
  "BGPUnknownCapability_encode d = Inl XlogFatal"

text \<open>\<open>BGPParameter::data()\<close>: the virtual \<open>encode()\<close>, then \<open>_data\<close>.\<close>

definition par_encode :: "bgp_parameter \<Rightarrow> u8 list res" where
  "par_encode p = (case cap p of
     Refresh old \<Rightarrow> BGPRefreshCapability_encode old (par_data p)
   | MultiProtocol a s \<Rightarrow> BGPMultiProtocolCapability_encode a s (par_data p)
   | MultiRoute \<Rightarrow> BGPMultiRouteCapability_encode (par_data p)
   | FourByteAS n \<Rightarrow> BGP4ByteASCapability_encode n (par_data p)
   | UnknownCap _ \<Rightarrow> BGPUnknownCapability_encode (par_data p))"

lemmas par_encode_defs = par_encode_def BGPRefreshCapability_encode_def
  BGPMultiProtocolCapability_encode_def BGPMultiRouteCapability_encode_def
  BGP4ByteASCapability_encode_def BGPUnknownCapability_encode_def

text \<open>
  \<open>decode()\<close> of each capability reads the copy \<open>d\<close> of the parameter's bytes.
\<close>

definition BGPRefreshCapability_decode :: "u8 list \<Rightarrow> bgp_parameter res" where
  "BGPRefreshCapability_decode d =
     res_bind (byte_at d 0) (\<lambda>type. res_bind (byte_at d 1) (\<lambda>l. res_bind (byte_at d 2) (\<lambda>code.
       if type \<noteq> PARAMTYPECAP \<or> l + 2 \<noteq> 4
          \<or> (code \<noteq> CAPABILITYREFRESHOLD \<and> code \<noteq> CAPABILITYREFRESH) then Inl XlogAssert
       else res_bind (byte_at d 3) (\<lambda>cl.
         if cl > 0 then Inl (CorruptMessage OPENMSGERROR UNSPECIFIED [])
         else Inr \<lparr> par_data = d, par_length = l + 2, cap_code = uint CAPABILITYREFRESH,
                    cap_length = cl, cap = Refresh (code = CAPABILITYREFRESHOLD) \<rparr>))))"

definition afi_of :: "u8 \<Rightarrow> u8 \<Rightarrow> afi res" where
  "afi_of d4 d5 =
     (let afi = (push_bit 8 (ucast d4) :: u16); afi = ucast d5 in
      if afi = (1 :: u16) then Inr AFI_IPV4
      else if afi = 2 then Inr AFI_IPV6
      else Inl (CorruptMessage OPENMSGERROR UNSUPOPTPAR []))"

definition safi_of :: "u8 \<Rightarrow> safi res" where
  "safi_of b = (if b = 1 then Inr SAFI_UNICAST else if b = 2 then Inr SAFI_MULTICAST
     else Inl (CorruptMessage OPENMSGERROR UNSUPOPTPAR []))"

definition BGPMultiProtocolCapability_decode :: "u8 list \<Rightarrow> bgp_parameter res" where
  "BGPMultiProtocolCapability_decode d =
     res_bind (byte_at d 0) (\<lambda>type. res_bind (byte_at d 1) (\<lambda>l. res_bind (byte_at d 2) (\<lambda>code.
       if type \<noteq> PARAMTYPECAP \<or> code \<noteq> CAPABILITYMULTIPROTOCOL then Inl XlogAssert
       else res_bind (byte_at d 3) (\<lambda>cl. res_bind (byte_at d 4) (\<lambda>d4. res_bind (byte_at d 5) (\<lambda>d5.
         res_bind (afi_of d4 d5) (\<lambda>a. res_bind (byte_at d 7) (\<lambda>d7. res_bind (safi_of d7) (\<lambda>s.
           Inr \<lparr> par_data = d, par_length = l + 2, cap_code = uint CAPABILITYMULTIPROTOCOL,
                 cap_length = cl, cap = MultiProtocol a s \<rparr>)))))))))"

definition BGPMultiRouteCapability_decode :: "u8 list \<Rightarrow> bgp_parameter res" where
  "BGPMultiRouteCapability_decode d =
     res_bind (byte_at d 0) (\<lambda>type. res_bind (byte_at d 1) (\<lambda>l. res_bind (byte_at d 2) (\<lambda>code.
       if type \<noteq> PARAMTYPECAP \<or> code \<noteq> CAPABILITYMULTIROUTE then Inl XlogAssert
       else res_bind (byte_at d 3) (\<lambda>cl.
         Inr \<lparr> par_data = d, par_length = l + 2, cap_code = uint CAPABILITYMULTIROUTE,
               cap_length = cl, cap = MultiRoute \<rparr>))))"

definition extract_32_at :: "u8 list \<Rightarrow> nat \<Rightarrow> u32 res" where
  "extract_32_at d i = (if i + 4 \<le> length d
     then Inr (push_bit 24 (ucast (d ! i)) OR push_bit 16 (ucast (d ! (i + 1)))
                 OR push_bit 8 (ucast (d ! (i + 2))) OR ucast (d ! (i + 3)))
     else Inl OutOfBounds)"

definition BGP4ByteASCapability_decode :: "u8 list \<Rightarrow> bgp_parameter res" where
  "BGP4ByteASCapability_decode d =
     res_bind (byte_at d 0) (\<lambda>type. res_bind (byte_at d 1) (\<lambda>l. res_bind (byte_at d 2) (\<lambda>code.
       if type \<noteq> PARAMTYPECAP \<or> code \<noteq> CAPABILITY4BYTEAS then Inl XlogAssert
       else res_bind (byte_at d 3) (\<lambda>cl. res_bind (extract_32_at d 4) (\<lambda>n.
         Inr \<lparr> par_data = d, par_length = l + 2, cap_code = uint CAPABILITY4BYTEAS,
               cap_length = cl, cap = FourByteAS n \<rparr>)))))"

definition BGPUnknownCapability_decode :: "u8 list \<Rightarrow> bgp_parameter res" where
  "BGPUnknownCapability_decode d =
     res_bind (byte_at d 0) (\<lambda>type. res_bind (byte_at d 1) (\<lambda>l. res_bind (byte_at d 2) (\<lambda>code.
       if type \<noteq> PARAMTYPECAP then Inl XlogAssert
       else res_bind (byte_at d 3) (\<lambda>cl.
         Inr \<lparr> par_data = d, par_length = l + 2, cap_code = CAPABILITYUNKNOWN,
               cap_length = cl, cap = UnknownCap code \<rparr>))))"

text \<open>
  \<open>BGPParameter::create\<close>: the parameter at the start of \<open>d\<close> and the number of bytes it takes.
  The constructors copy \<open>uint8_t(len)\<close> bytes.
\<close>

definition par_create :: "u8 list \<Rightarrow> nat \<Rightarrow> (bgp_parameter \<times> nat) res" where
  "par_create d max_len =
     (if max_len < 2 then Inl (CorruptMessage OPENMSGERROR 0 [])
      else res_bind (byte_at d 0) (\<lambda>param_type. res_bind (byte_at d 1) (\<lambda>d1.
        let len = unat d1 + 2 in
        if len = 2 \<or> len > max_len then Inl (CorruptMessage OPENMSGERROR 0 [])
        else if param_type = PARAMTYPEAUTH then Inl (CorruptMessage OPENMSGERROR UNSUPOPTPAR [])
        else if param_type = PARAMTYPECAP then
          res_bind (byte_at d 2) (\<lambda>cap_type.
            if length d < len then Inl OutOfBounds
            else let copy = take (len mod 256) d in
            res_map (\<lambda>p. (p, len))
              (if cap_type = CAPABILITYMULTIPROTOCOL then BGPMultiProtocolCapability_decode copy
               else if cap_type = CAPABILITYREFRESH \<or> cap_type = CAPABILITYREFRESHOLD
                 then BGPRefreshCapability_decode copy
               else if cap_type = CAPABILITYMULTIROUTE then BGPMultiRouteCapability_decode copy
               else if cap_type = CAPABILITY4BYTEAS then BGP4ByteASCapability_decode copy
               else BGPUnknownCapability_decode copy))
        else Inl (CorruptMessage OPENMSGERROR UNSUPOPTPAR []))))"

text \<open>\<open>compare\<close> of the capability \<open>p\<close> with \<open>rhs\<close>; three classes inherit it from \<open>BGPCapParameter\<close>.\<close>

definition BGPCapParameter_compare :: "bgp_parameter \<Rightarrow> bgp_parameter \<Rightarrow> bool" where
  "BGPCapParameter_compare p rhs \<longleftrightarrow> cap_code rhs = cap_code p \<and> cap_length rhs = cap_length p"

fun BGPRefreshCapability_compare :: "bgp_parameter \<Rightarrow> bool" where
  "BGPRefreshCapability_compare rhs = (case cap rhs of Refresh _ \<Rightarrow> True | _ \<Rightarrow> False)"

fun BGPMultiProtocolCapability_compare :: "afi \<Rightarrow> safi \<Rightarrow> bgp_parameter \<Rightarrow> bool" where
  "BGPMultiProtocolCapability_compare a s rhs = (case cap rhs of
     MultiProtocol a' s' \<Rightarrow> if a \<noteq> a' then False else if s \<noteq> s' then False else True
   | _ \<Rightarrow> False)"

fun par_compare :: "bgp_parameter \<Rightarrow> bgp_parameter \<Rightarrow> bool" where
  "par_compare p rhs = (case cap p of
     Refresh _ \<Rightarrow> BGPRefreshCapability_compare rhs
   | MultiProtocol a s \<Rightarrow> BGPMultiProtocolCapability_compare a s rhs
   | _ \<Rightarrow> BGPCapParameter_compare p rhs)"

declare BGPCapParameter_compare_def [simp]

subsection \<open>OPEN\<close>

record open_packet =
  op_id :: ipv4
  op_as :: as_num
  HoldTime :: u16
  OptParmLen :: u8
  Version :: u8
  parameter_list :: "bgp_parameter list"

definition BGPVERSION :: u8 where "BGPVERSION = 4"

definition OpenPacket :: "as_num \<Rightarrow> ipv4 \<Rightarrow> u16 \<Rightarrow> open_packet" where
  "OpenPacket n bgpid holdtime = \<lparr> op_id = bgpid, op_as = n, HoldTime = holdtime, OptParmLen = 0,
     Version = BGPVERSION, parameter_list = [] \<rparr>"

definition open_add_parameter :: "bgp_parameter \<Rightarrow> open_packet \<Rightarrow> open_packet" where
  "open_add_parameter q p = p\<lparr> parameter_list := parameter_list p @ [q],
     OptParmLen := OptParmLen p + par_length q \<rparr>"

fun encode_parameters :: "bgp_parameter list \<Rightarrow> nat \<Rightarrow> nat \<Rightarrow> u8 list res" where
  "encode_parameters [] i len = Inr []"
| "encode_parameters (q # qs) i len =
     (if i + unat (par_length q) > len then Inl XlogAssert
      else res_bind (par_encode q) (\<lambda>d.
        if length d < unat (par_length q) then Inl OutOfBounds
        else res_map (\<lambda>bs. take (unat (par_length q)) d @ bs)
               (encode_parameters qs (i + unat (par_length q)) len)))"

definition open_encode :: "open_packet \<Rightarrow> nat \<Rightarrow> u8 list option res" where
  "open_encode p len =
     (if len < MINOPENPACKET + unat (OptParmLen p) then Inr None
      else let len = MINOPENPACKET + unat (OptParmLen p) in
        res_bind (basic_encode len MESSAGETYPEOPEN) (\<lambda>header.
          res_map (\<lambda>ps. Some (header @ [Version p] @ as_copy_out (op_as p) @ embed_16 (HoldTime p)
              @ copy_out (op_id p) @ [OptParmLen p] @ ps))
            (encode_parameters (parameter_list p) MINOPENPACKET len)))"

function open_parameters :: "u8 list \<Rightarrow> nat \<Rightarrow> nat \<Rightarrow> open_packet \<Rightarrow> open_packet res" where
  "open_parameters d i remaining p =
     (if i = 0 then Inr p
      else if remaining < 2 then Inl (CorruptMessage OPENMSGERROR UNSPECIFIED [])
      else res_bind (par_create d i) (\<lambda>ql.
        if snd ql = 0 \<or> i < snd ql then Inl XlogAssert
        else open_parameters (drop (snd ql) d) (i - snd ql) remaining (open_add_parameter (fst ql) p)))"
  by pat_completeness auto
termination
  by (relation "measure (\<lambda>(d, i, remaining, p). i)") auto

declare open_parameters.simps [simp del]

definition open_decode :: "u8 list \<Rightarrow> nat \<Rightarrow> open_packet res" where
  "open_decode d l =
     (if l < MINOPENPACKET
      then Inl (CorruptMessage MSGHEADERERR BADMESSLEN (take 2 (drop MARKER_SIZE d)))
      else let b = drop COMMON_HEADER_LEN d in
        res_bind (byte_at b 0) (\<lambda>version.
        res_bind (AsNum_bytes (drop 1 b)) (\<lambda>n.
        res_bind (byte_at b 3) (\<lambda>b3. res_bind (byte_at b 4) (\<lambda>b4.
        res_bind (copy_in (drop 5 b)) (\<lambda>bgpid.
        res_bind (byte_at b 9) (\<lambda>b9.
          let p = \<lparr> op_id = bgpid, op_as = n, HoldTime = push_bit 8 (ucast b3) + ucast b4,
                    OptParmLen = 0, Version = version, parameter_list = [] \<rparr>;
              remaining = l - COMMON_HEADER_LEN - 10
          in if remaining < unat b9 then Inl (CorruptMessage OPENMSGERROR UNSPECIFIED [])
             else res_bind (open_parameters (drop 10 b) (unat b9) remaining p) (\<lambda>p.
               if b9 \<noteq> OptParmLen p then Inl (CorruptMessage OPENMSGERROR UNSPECIFIED [])
               else Inr p))))))))"

subsection \<open>Round trips\<close>

lemma basic_encode_Inr [simp]:
  "19 \<le> len \<Longrightarrow> basic_encode len type = Inr (Marker @ [of_nat (len div 256), of_nat len, type])"
  by (simp add: basic_encode_def packet_sizes)

lemma length_Marker [simp]: "length Marker = 16"
  by (simp add: Marker_def packet_sizes)

lemma notification_decode_encode:
  assumes "np = NotificationPacket ec esc ed" "np_Length np \<le> len"
  shows "\<exists>bs. notification_encode np len = Inr (Some bs) \<and> length bs = np_Length np
           \<and> notification_decode bs (length bs) = Inr np"
proof (cases "ed = None \<or> ed = Some []")
  case True
  with assms show ?thesis
    by (auto simp: notification_encode_def notification_decode_def NotificationPacket_def packet_sizes nth_append)
next
  case False
  then obtain b bs where "ed = Some (b # bs)" by (cases ed) (auto simp: neq_Nil_conv)
  with assms show ?thesis
    by (auto simp: notification_encode_def notification_decode_def NotificationPacket_def packet_sizes nth_append)
qed

text \<open>
  A parameter that is ready to be sent has the length of its capability's format. \<open>par_received\<close>
  is what the other side holds of it: the same capability, with the code and the length that are
  on the wire.
\<close>

definition sendable :: "bgp_parameter \<Rightarrow> bool" where
  "sendable q = (case cap q of
     Refresh _ \<Rightarrow> par_length q = 4 \<and> length (par_data q) = 4
   | MultiProtocol _ _ \<Rightarrow> par_length q = 8 \<and> length (par_data q) = 8
   | FourByteAS _ \<Rightarrow> par_length q = 8 \<and> length (par_data q) = 8
   | _ \<Rightarrow> False)"

definition wire :: "bgp_parameter \<Rightarrow> u8 list" where
  "wire q = (case par_encode q of Inl _ \<Rightarrow> [] | Inr d \<Rightarrow> d)"

definition par_received :: "bgp_parameter \<Rightarrow> bgp_parameter" where
  "par_received q = q\<lparr> par_data := wire q,
     cap_code := (case cap q of Refresh _ \<Rightarrow> 2 | MultiProtocol _ _ \<Rightarrow> 1 | _ \<Rightarrow> 65),
     cap_length := (case cap q of Refresh _ \<Rightarrow> 0 | _ \<Rightarrow> 4) \<rparr>"

lemma sendable_made [simp]:
  "sendable BGPRefreshCapability" "sendable (BGPMultiProtocolCapability a s)"
  "sendable (BGP4ByteASCapability u n)"
  by (simp_all add: sendable_def BGPRefreshCapability_def BGPMultiProtocolCapability_def
      BGP4ByteASCapability_def)

lemma par_encode_sendable: "sendable q \<Longrightarrow> par_encode q = Inr (wire q)"
  by (auto simp: sendable_def wire_def par_encode_defs overwrite_def embed_16_def le_bytes_def
      split: capability.splits)

lemma length_wire: "sendable q \<Longrightarrow> length (wire q) = unat (par_length q)"
  by (auto simp: sendable_def wire_def par_encode_defs overwrite_def embed_16_def le_bytes_def
      split: capability.splits)

lemma par_length_sendable: "sendable q \<Longrightarrow> unat (par_length q) \<in> {4, 8}"
  by (auto simp: sendable_def split: capability.splits)

lemma extract_32_bswap:
  "push_bit 24 (ucast a) OR push_bit 16 (ucast b) OR push_bit 8 (ucast c) OR ucast d
     = (bswap32 (of_le_bytes a b c d) :: u32)"
  for a b c d :: u8
  by (rule bit_word_eqI) (auto simp: bit_bswap32 bit_of_le_bytes bit_simps dest: bit_imp_le_length)

lemma wire_Refresh: "sendable q \<Longrightarrow> cap q = Refresh old \<Longrightarrow> wire q = [2, 2, if old then 128 else 2, 0]"
  by (auto simp: sendable_def wire_def par_encode_defs overwrite_def cap_codes)

lemma wire_MultiProtocol:
  "sendable q \<Longrightarrow> cap q = MultiProtocol a s \<Longrightarrow> wire q = [2, 6, 1, 4, 0, ucast (afi_val a), 0, safi_val s]"
  by (cases a) (auto simp: sendable_def wire_def par_encode_defs overwrite_def cap_codes embed_16_def)

lemma wire_FourByteAS:
  "sendable q \<Longrightarrow> cap q = FourByteAS n \<Longrightarrow> wire q = [2, 6, 65, 4] @ le_bytes (htonl n)"
  by (auto simp: sendable_def wire_def par_encode_defs overwrite_def cap_codes le_bytes_def)

lemma par_create_wire:
  assumes "sendable q" "unat (par_length q) \<le> m"
  shows "par_create (wire q @ rest) m = Inr (par_received q, unat (par_length q))"
proof (cases "cap q")
  case (Refresh old)
  with assms show ?thesis
    by (auto simp: sendable_def par_create_def wire_Refresh [OF assms(1) Refresh] byte_at_def cap_codes
        BGPRefreshCapability_decode_def par_received_def intro!: bgp_parameter.equality)
next
  case (MultiProtocol a s)
  with assms show ?thesis
    by (cases a; cases s)
      (auto simp: sendable_def par_create_def wire_MultiProtocol [OF assms(1) MultiProtocol] byte_at_def cap_codes
        BGPMultiProtocolCapability_decode_def par_received_def afi_of_def safi_of_def Let_def
        intro!: bgp_parameter.equality)
next
  case (FourByteAS n)
  with assms show ?thesis
    by (auto simp: sendable_def par_create_def wire_FourByteAS [OF assms(1) FourByteAS] byte_at_def cap_codes
        BGP4ByteASCapability_decode_def par_received_def extract_32_at_def extract_32_bswap le_bytes_def Let_def
        intro!: bgp_parameter.equality)
qed (use assms in \<open>auto simp: sendable_def\<close>)

lemma par_length_received [simp]: "par_length (par_received q) = par_length q"
  by (simp add: par_received_def)

definition wire_length :: "bgp_parameter list \<Rightarrow> nat" where
  "wire_length qs = (\<Sum>q\<leftarrow>qs. unat (par_length q))"

lemma wire_length_simps [simp]:
  "wire_length [] = 0" "wire_length (q # qs) = unat (par_length q) + wire_length qs"
  "wire_length (qs @ rs) = wire_length qs + wire_length rs"
  by (simp_all add: wire_length_def)

lemma length_wires: "list_all sendable qs \<Longrightarrow> length (concat (map wire qs)) = wire_length qs"
  by (induction qs) (simp_all add: length_wire)

lemma encode_parameters_sendable:
  "list_all sendable qs \<Longrightarrow> i + wire_length qs \<le> len
   \<Longrightarrow> encode_parameters qs i len = Inr (concat (map wire qs))"
  by (induction qs arbitrary: i) (simp_all add: par_encode_sendable length_wire)

lemma open_parameters_0 [simp]: "open_parameters d 0 remaining p = Inr p"
  by (subst open_parameters.simps) simp

lemma open_parameters_wire:
  assumes "list_all sendable qs" "wire_length qs \<le> remaining"
  shows "open_parameters (concat (map wire qs) @ rest) (wire_length qs) remaining p
           = Inr (fold open_add_parameter (map par_received qs) p)"
  using assms
proof (induction qs arbitrary: p)
  case (Cons q qs)
  have q: "sendable q" and qs: "list_all sendable qs" using Cons.prems by simp_all
  note create = par_create_wire [OF q, of "unat (par_length q) + wire_length qs" "concat (map wire qs) @ rest"]
  have "unat (par_length q) \<in> {4, 8}" by (rule par_length_sendable [OF q])
  then show ?case
    using Cons.IH [OF qs, of "open_add_parameter (par_received q) p"] Cons.prems(2) create
    by (subst open_parameters.simps) (auto simp: length_wire [OF q])
qed simp

lemma fold_add_parameter:
  "fold open_add_parameter qs p = p\<lparr> parameter_list := parameter_list p @ qs,
     OptParmLen := OptParmLen p + of_nat (wire_length qs) \<rparr>"
  by (induction qs arbitrary: p) (simp_all add: open_add_parameter_def add.assoc)

lemma wire_length_received [simp]: "wire_length (map par_received qs) = wire_length qs"
  by (induction qs) simp_all

lemma hold_time_bytes:
  "push_bit 8 (ucast (ucast (drop_bit 8 v AND 0xff) :: u8)) + ucast (ucast (v AND 0xff) :: u8) = (v :: u16)"
proof -
  have "push_bit 8 (ucast (ucast (drop_bit 8 v AND mask 8) :: u8)) + ucast (ucast (v AND mask 8) :: u8)
    = push_bit 8 (ucast (ucast (drop_bit 8 v AND mask 8) :: u8)) OR (ucast (ucast (v AND mask 8) :: u8) :: u16)"
    by (rule disjunctive_add) (auto simp: bit_simps)
  also have "\<dots> = v"
    by (rule bit_word_eqI) (auto simp: bit_simps dest: bit_imp_le_length)
  finally show ?thesis by (simp add: mask_eq_exp_minus_1)
qed

text \<open>
  The bytes of an OPEN message built by \<open>OpenPacket\<close> and \<open>add_parameter\<close>.
\<close>

definition make_open :: "as_num \<Rightarrow> ipv4 \<Rightarrow> u16 \<Rightarrow> bgp_parameter list \<Rightarrow> open_packet" where
  "make_open n bgpid holdtime qs = fold open_add_parameter qs (OpenPacket n bgpid holdtime)"

lemma open_encode_make_open:
  assumes "list_all sendable qs" "wire_length qs \<le> 255" "MINOPENPACKET + wire_length qs \<le> len"
  shows "open_encode (make_open n bgpid ht qs) len =
    Inr (Some (Marker @ [of_nat ((29 + wire_length qs) div 256), of_nat (29 + wire_length qs), 1, 4] @ as_copy_out n
        @ embed_16 ht @ copy_out bgpid @ [of_nat (wire_length qs)] @ concat (map wire qs)))"
proof -
  have "unat (of_nat (wire_length qs) :: u8) = wire_length qs"
    using assms(2) by (simp add: unat_of_nat)
  with assms show ?thesis
    by (simp add: make_open_def fold_add_parameter open_encode_def OpenPacket_def BGPVERSION_def packet_sizes
        message_types encode_parameters_sendable)
qed

lemma open_decode_encode:
  assumes "list_all sendable qs" "wire_length qs \<le> 255" "MINOPENPACKET + wire_length qs \<le> len"
  shows "\<exists>bs. open_encode (make_open n bgpid ht qs) len = Inr (Some bs)
           \<and> length bs = MINOPENPACKET + wire_length qs
           \<and> open_decode bs (length bs) = Inr (make_open (squash n) bgpid ht (map par_received qs))"
proof -
  have w: "unat (of_nat (wire_length qs) :: u8) = wire_length qs"
    using assms(2) by (simp add: unat_of_nat)
  let ?bs = "Marker @ [of_nat ((29 + wire_length qs) div 256), of_nat (29 + wire_length qs), 1, 4] @ as_copy_out n
        @ embed_16 ht @ copy_out bgpid @ [of_nat (wire_length qs)] @ concat (map wire qs)"
  have len: "length ?bs = 29 + wire_length qs"
    by (simp add: embed_16_def copy_out_def le_bytes_def length_wires [OF assms(1)])
  obtain x y where as: "as_copy_out n = [x, y]" by (simp add: as_copy_out_def Let_def)
  obtain i j k l where id: "copy_out bgpid = [i, j, k, l]" by (simp add: copy_out_def le_bytes_def)
  have "AsNum_bytes ([x, y] @ ds) = Inr (squash n)" for ds
    using AsNum_bytes_copy_out [of n ds] by (simp add: as)
  moreover have "copy_in ([i, j, k, l] @ ds) = Inr bgpid" for ds
    using copy_in_copy_out [of bgpid ds] by (simp add: id)
  ultimately have "open_decode ?bs (length ?bs) = Inr (make_open (squash n) bgpid ht (map par_received qs))"
    unfolding len
    using open_parameters_wire [OF assms(1), of "wire_length qs" "[]"]
    by (simp add: open_decode_def packet_sizes as id embed_16_def byte_at_def hold_time_bytes w
        fold_add_parameter make_open_def OpenPacket_def BGPVERSION_def)
  with open_encode_make_open [OF assms] len show ?thesis by (simp add: packet_sizes)
qed

subsection \<open>Lengths of a received OPEN message\<close>

lemmas par_decodes = BGPRefreshCapability_decode_def BGPMultiProtocolCapability_decode_def
  BGPMultiRouteCapability_decode_def BGP4ByteASCapability_decode_def BGPUnknownCapability_decode_def

lemma byte_at_Inr_iff [simp]: "byte_at d i = Inr b \<longleftrightarrow> i < length d \<and> b = d ! i"
  by (auto simp: byte_at_def)

lemma par_decode_length:
  assumes "BGPRefreshCapability_decode d = Inr q \<or> BGPMultiProtocolCapability_decode d = Inr q
    \<or> BGPMultiRouteCapability_decode d = Inr q \<or> BGP4ByteASCapability_decode d = Inr q
    \<or> BGPUnknownCapability_decode d = Inr q"
  shows "par_length q = d ! 1 + 2 \<and> par_data q = d"
  using assms by (auto simp: par_decodes split: if_splits)

lemma par_create_length:
  assumes "par_create d i = Inr (q, len)" "i \<le> 255"
  shows "unat (par_length q) = len \<and> 2 < len \<and> len \<le> i \<and> par_data q = take len d"
proof -
  let ?len = "unat (d ! 1) + 2"
  have 1: "1 < length d" and len: "len = ?len" "2 < ?len" "?len \<le> i" and l: "?len \<le> length d"
    using assms by (auto simp: par_create_def Let_def split: if_splits)
  then have "?len mod 256 = ?len" using assms(2) by simp
  then have "par_length q = take ?len d ! 1 + 2 \<and> par_data q = take ?len d"
    using assms(1) by (intro par_decode_length) (auto simp: par_create_def Let_def split: if_splits)
  moreover have "unat (d ! 1 + 2) = ?len"
    using len assms(2) by (simp add: unat_add_lem [THEN iffD1])
  ultimately show ?thesis using len l by simp
qed

lemma open_parameters_length:
  assumes "open_parameters d i remaining p = Inr p'" "i \<le> 255"
  shows "\<exists>qs. p' = fold open_add_parameter qs p \<and> wire_length qs = i"
  using assms
proof (induction d i remaining p rule: open_parameters.induct)
  case (1 d i remaining p)
  show ?case
  proof (cases "i = 0")
    case True
    with "1.prems" have "p' = fold open_add_parameter [] p \<and> wire_length [] = i" by simp
    then show ?thesis ..
  next
    case False
    with "1.prems"(1) obtain q len where create: "par_create d i = Inr (q, len)"
      and ok: "\<not> remaining < 2" "\<not> (snd (q, len) = 0 \<or> i < snd (q, len))"
      and rest: "open_parameters (drop len d) (i - len) remaining (open_add_parameter q p) = Inr p'"
      by (subst (asm) open_parameters.simps) (auto split: if_splits)
    have "i - len \<le> 255" using "1.prems"(2) by simp
    with "1.IH" [OF False ok(1) create ok(2)] rest
    obtain qs where "p' = fold open_add_parameter qs (open_add_parameter q p)" "wire_length qs = i - len"
      by auto
    moreover have "unat (par_length q) = len" "len \<le> i"
      using par_create_length [OF create "1.prems"(2)] by simp_all
    ultimately have "p' = fold open_add_parameter (q # qs) p \<and> wire_length (q # qs) = i" by simp
    then show ?thesis ..
  qed
qed

text \<open>
  C18: Every OPEN message that the decoder accepts is consistent in its lengths: the optional
  parameters it holds take exactly \<open>OptParmLen\<close> bytes, without wrap-around of the 8-bit sum, and
  together with the fixed part they lie inside the \<open>l\<close> bytes that were received.
\<close>

theorem open_decode_bounds:
  assumes "open_decode d l = Inr p"
  shows "wire_length (parameter_list p) = unat (OptParmLen p)
    \<and> MINOPENPACKET + wire_length (parameter_list p) \<le> l"
proof -
  from assms obtain x y h v where l: "29 \<le> l" "unat (OptParmLen p) \<le> l - 29"
    and params: "open_parameters (drop 29 d) (unat (OptParmLen p)) (l - 29)
      \<lparr> op_id = x, op_as = y, HoldTime = h, OptParmLen = 0, Version = v, parameter_list = [] \<rparr> = Inr p"
    by (auto simp: open_decode_def packet_sizes Let_def split: if_splits)
  from open_parameters_length [OF params] unsigned_less [of "OptParmLen p", where 'a = nat]
  show ?thesis using l by (auto simp: fold_add_parameter packet_sizes)
qed

text \<open>
  An OPEN message of AS 7 from 10.0.0.1 with hold time 90 that offers IPv4 unicast.
\<close>

definition open_example :: open_packet where
  "open_example = make_open (AsNum 7) (IPv4 0x100000a) 90 [BGPMultiProtocolCapability AFI_IPV4 SAFI_UNICAST]"

lemma wire_length_example: "wire_length [BGPMultiProtocolCapability AFI_IPV4 SAFI_UNICAST] = 8"
  by (simp add: BGPMultiProtocolCapability_def)

lemma open_example_bytes:
  "\<exists>bs p. open_encode open_example 4096 = Inr (Some bs) \<and> length bs = 37
     \<and> open_decode bs (length bs) = Inr p \<and> OptParmLen p = 8"
  using open_decode_encode [of "[BGPMultiProtocolCapability AFI_IPV4 SAFI_UNICAST]" 4096 "AsNum 7" "IPv4 0x100000a" 90]
  by (auto simp: open_example_def BGPMultiProtocolCapability_def sendable_def packet_sizes make_open_def
      open_add_parameter_def OpenPacket_def)

theorem open_decode_bounds_witness:
  "\<exists>bs p. open_encode open_example 4096 = Inr (Some bs) \<and> open_decode bs (length bs) = Inr p
     \<and> wire_length (parameter_list p) = 8"
proof -
  obtain bs p where "open_encode open_example 4096 = Inr (Some bs)"
    and p: "open_decode bs (length bs) = Inr p" "OptParmLen p = 8"
    using open_example_bytes by blast
  with open_decode_bounds [OF p(1)] show ?thesis by auto
qed

text \<open>
  C17: An OPEN message survives the wire: any message built from sendable parameters of at most
  255 bytes is encoded (into the 4096 byte buffer of the caller), and decoding exactly these bytes
  gives it back, with the AS number as a two-byte peer sees it and the parameters as received.
\<close>

theorem open_packet_roundtrip:
  assumes "list_all sendable qs" "wire_length qs \<le> 255"
  shows "\<exists>bs. open_encode (make_open n bgpid ht qs) 4096 = Inr (Some bs)
           \<and> open_decode bs (length bs) = Inr (make_open (squash n) bgpid ht (map par_received qs))"
  using open_decode_encode [OF assms, of 4096 n bgpid ht] assms(2) by (auto simp: packet_sizes)

theorem open_packet_roundtrip_witness:
  "\<exists>bs. open_encode (make_open (AsNum 7) (IPv4 0x100000a) 90 [BGPRefreshCapability]) 4096 = Inr (Some bs)
     \<and> open_decode bs (length bs)
         = Inr (make_open (squash (AsNum 7)) (IPv4 0x100000a) 90 [par_received BGPRefreshCapability])"
  using open_packet_roundtrip [of "[BGPRefreshCapability]"] by (simp add: BGPRefreshCapability_def sendable_def)

text \<open>
  A NOTIFICATION survives the wire: what the constructor builds from an error code, a subcode
  and optional data is encoded into exactly \<open>_Length\<close> bytes, and decoding them gives the same
  packet.
\<close>

theorem notification_roundtrip:
  assumes "np = NotificationPacket ec esc ed" "np_Length np \<le> 4096"
  shows "\<exists>bs. notification_encode np 4096 = Inr (Some bs) \<and> length bs = np_Length np
           \<and> notification_decode bs (length bs) = Inr np"
  using notification_decode_encode [OF assms] .

theorem notification_roundtrip_witness:
  "\<exists>bs. notification_encode (NotificationPacket 2 7 (Some [1, 2])) 4096 = Inr (Some bs) \<and> length bs = 23
     \<and> notification_decode bs (length bs) = Inr (NotificationPacket 2 7 (Some [1, 2]))"
  using notification_roundtrip [OF refl, of 2 7 "Some [1, 2]"]
  by (simp add: NotificationPacket_def packet_sizes)

subsection \<open>Parameters that the decoder does not survive\<close>

text \<open>
  The comment in \<open>BGPRefreshCapability::decode\<close> says that \<open>create\<close> has already checked the
  length, but it has not: a received capability parameter that starts with the route refresh
  code and is not exactly 4 bytes long (for instance one that packs a second capability behind
  it) fails the assertion, and the process aborts.
\<close>

theorem refresh_parameter_aborts:
  assumes "d = PARAMTYPECAP # l # code # rest" "code = CAPABILITYREFRESH \<or> code = CAPABILITYREFRESHOLD"
    and "l \<noteq> 0" "l \<noteq> 2" "unat l + 2 \<le> max_len" "max_len \<le> 255" "unat l + 2 \<le> length d"
  shows "par_create d max_len = Inl XlogAssert"
proof -
  have "0 < unat l" using assms(3) by (simp add: unat_gt_0)
  moreover have "l + 2 \<noteq> 4"
  proof
    assume "l + 2 = 4"
    then have "l + 2 - 2 = 4 - 2" by (rule arg_cong)
    then show False using assms(4) by simp
  qed
  moreover have "(unat l + 2) mod 256 = Suc (Suc (unat l))" using assms(5,6) by simp
  moreover obtain m where "unat l = Suc m" using calculation(1) by (cases "unat l") auto
  ultimately show ?thesis using assms
    by (auto simp: par_create_def byte_at_def cap_codes Let_def BGPRefreshCapability_decode_def)
qed

theorem refresh_parameter_aborts_witness:
  "par_create [2, 6, 2, 0, 65, 4, 0, 0] 8 = Inl XlogAssert"
  using refresh_parameter_aborts [where l = 6 and code = 2 and rest = "[0, 65, 4, 0, 0]" and max_len = 8, OF refl] by (simp add: cap_codes)

text \<open>
  The other capabilities are read without a look at the length of the parameter: a multiprotocol
  or a 4-byte AS capability that is shorter than its format is read behind the end of the copy.
\<close>

lemma short_capability_overread:
  "par_create [2, 1, 65] 3 = Inl OutOfBounds" "par_create [2, 3, 1, 4, 0] 5 = Inl OutOfBounds"
  by (simp_all add: par_create_def byte_at_def cap_codes BGP4ByteASCapability_decode_def
      BGPMultiProtocolCapability_decode_def Let_def)

text \<open>The high byte of the address family is dropped: AFI 257 is taken for IPv4.\<close>

lemma afi_high_byte_ignored: "afi_of h d5 = afi_of 0 d5"
  by (simp add: afi_of_def)

text \<open>\<open>UNSUPCAPABILITY\<close> has a name and a text, and is not a valid subcode.\<close>

lemma unsupported_capability_invalid: "\<not> validate_error_code (int OPENMSGERROR) (int UNSUPCAPABILITY)"
  by (simp add: validate_error_code_def notify_codes)

end
