(* ===== verification/Bgp_Socket.thy ===== *)
theory Bgp_Socket
  imports Bgp_Packet
begin

text \<open>
  The TCP connection of a BGP peering (\<open>class SocketClient\<close> of \<open>bgp/socket.hh\<close>, \<open>bgp/socket.cc\<close>):
  the descriptor, the pending outgoing connect, the asynchronous reader and the queue of the
  asynchronous writer; and the reader's division of the byte stream into messages. The results
  of the system calls are arguments. An operation that calls the connect callback returns the
  value that it is called with.
\<close>

subsection \<open>State\<close>

text \<open>
  A queued buffer with the routine that is called when it has been written:
  \<open>BGPPeer::send_message_complete\<close>, \<open>BGPPeer::send_notification_complete\<close> with its arguments
  \<open>restart\<close> and \<open>automatic\<close>, or \<open>AcceptSession::send_notification_cb\<close>.
\<close>

datatype send_callback =
    send_message_cb
  | send_notification_cb (cb_restart: bool) (cb_automatic: bool)
  | accept_notification_cb

type_synonym out_buffer = "u8 list \<times> send_callback"

record socket_client =
  sock :: "nat option"
  connecting :: bool
  reader :: bool
  writer :: "out_buffer list option"

definition SocketClient :: socket_client where
  "SocketClient = \<lparr> sock = None, connecting = False, reader = False, writer = None \<rparr>"

subsection \<open>Operations\<close>

definition is_connected :: "socket_client \<Rightarrow> bool" where
  "is_connected s \<longleftrightarrow> \<not> connecting s \<and> sock s \<noteq> None"

definition still_reading :: "socket_client \<Rightarrow> bool" where
  "still_reading s \<longleftrightarrow> reader s"

definition close_socket :: "socket_client \<Rightarrow> socket_client" where
  "close_socket s = s\<lparr> sock := None \<rparr>"

text \<open>When \<open>comm_sock_open\<close> gives no descriptor, the bind that follows fails: the case \<open>BindFails\<close> below.\<close>

definition create_socket :: "nat \<Rightarrow> socket_client \<Rightarrow> socket_client res" where
  "create_socket fd s = (if sock s \<noteq> None then Inl XlogAssert else Inr (s\<lparr> sock := Some fd \<rparr>))"

text \<open>
  Flushing a queue calls the completion routine of every buffer with \<open>FLUSHING\<close>, which for the
  routines of \<open>BGPPeer\<close> only frees the buffer.
\<close>

definition flush_transmit_queue :: "socket_client \<Rightarrow> socket_client" where
  "flush_transmit_queue s = s\<lparr> writer := map_option (\<lambda>_. []) (writer s) \<rparr>"

definition async_remove_reader :: "socket_client \<Rightarrow> socket_client" where
  "async_remove_reader s = s\<lparr> reader := False \<rparr>"

definition stop_reader :: "socket_client \<Rightarrow> socket_client" where
  "stop_reader s = async_remove_reader s"

definition async_remove :: "socket_client \<Rightarrow> socket_client" where
  "async_remove s = async_remove_reader (s\<lparr> writer := None \<rparr>)"

definition async_add :: "socket_client \<Rightarrow> socket_client res" where
  "async_add s = (if writer s \<noteq> None \<or> reader s then Inl XlogAssert
     else Inr (s\<lparr> writer := Some [], reader := True \<rparr>))"

definition disconnect :: "socket_client \<Rightarrow> socket_client res" where
  "disconnect s = (if sock s = None then Inl XlogAssert else Inr (close_socket (async_remove s)))"

definition connect_socket_break :: "socket_client \<Rightarrow> socket_client" where
  "connect_socket_break s = close_socket (s\<lparr> connecting := False \<rparr>)"

definition connect_break :: "socket_client \<Rightarrow> socket_client" where
  "connect_break s = connect_socket_break s"

definition connected :: "nat \<Rightarrow> socket_client \<Rightarrow> socket_client res" where
  "connected fd s = (if sock s \<noteq> None \<or> connecting s then Inl XlogAssert
     else async_add ((async_remove s)\<lparr> sock := Some fd \<rparr>))"

text \<open>
  The system's answers to a connect: the bind fails, the connect is in progress, or it is
  complete at once. \<open>connect_socket_complete\<close> returns the argument of the callback.
\<close>

datatype connect_result = BindFails | InProgress | Complete bool

definition connect_socket_complete :: "bool \<Rightarrow> socket_client \<Rightarrow> (socket_client \<times> bool) res" where
  "connect_socket_complete ok s =
     (if \<not> connecting s then Inl XlogAssert
      else let s = s\<lparr> connecting := False \<rparr> in
        if ok then res_map (\<lambda>s. (s, True)) (async_add (async_remove s))
        else Inr (close_socket s, False))"

definition connect_socket :: "connect_result \<Rightarrow> socket_client \<Rightarrow> (socket_client \<times> bool option) res" where
  "connect_socket r s =
     (if r = BindFails then Inr (close_socket s, Some False)
      else if connecting s then Inl XlogAssert
      else let s = s\<lparr> connecting := True \<rparr> in
        (case r of
           Complete ok \<Rightarrow> res_map (\<lambda>(s, b). (s, Some b)) (connect_socket_complete ok s)
         | _ \<Rightarrow> Inr (s, None)))"

definition sc_connect :: "nat \<Rightarrow> connect_result \<Rightarrow> socket_client \<Rightarrow> (socket_client \<times> bool option) res" where
  "sc_connect fd r s = res_bind (create_socket fd s) (connect_socket r)"

definition sc_send_message :: "u8 list \<Rightarrow> send_callback \<Rightarrow> socket_client \<Rightarrow> (socket_client \<times> bool) res" where
  "sc_send_message buf cb s =
     (if \<not> is_connected s then Inr (s, False)
      else (case writer s of
        None \<Rightarrow> Inl XlogAssert
      | Some q \<Rightarrow> Inr (s\<lparr> writer := Some (q @ [(buf, cb)]) \<rparr>, True)))"

definition output_queue_busy :: "socket_client \<Rightarrow> bool res" where
  "output_queue_busy s = (case writer s of None \<Rightarrow> Inl XlogAssert | Some q \<Rightarrow> Inr (length q > 20))"

subsection \<open>Reading messages\<close>

text \<open>
  \<open>async_read_message\<close> when the \<open>buf_bytes\<close> wanted have arrived in \<open>_read_buf\<close>: an illegal length,
  a complete message, or a further read up to the length that the header gives.
\<close>

datatype packet_status = GOOD_MESSAGE | ILLEGAL_MESSAGE_LENGTH | CONNECTION_CLOSED

datatype read_action = Dispatch packet_status | ReadMore nat

definition fh_length :: "u8 list \<Rightarrow> nat" where
  "fh_length buf = unat (extract_16 (buf ! MARKER_SIZE) (buf ! (MARKER_SIZE + 1)))"

definition async_read_message :: "u8 list \<Rightarrow> nat \<Rightarrow> read_action" where
  "async_read_message buf buf_bytes =
     (if fh_length buf < MINPACKETSIZE \<or> fh_length buf > MAXPACKETSIZE then Dispatch ILLEGAL_MESSAGE_LENGTH
      else if buf_bytes = fh_length buf then Dispatch GOOD_MESSAGE
      else ReadMore (fh_length buf))"

text \<open>
  The messages dispatched for the bytes \<open>s\<close> of the stream when the next \<open>buf_bytes\<close> are wanted,
  as long as the client keeps reading; a dispatch of an illegal length ends the reading, since
  the callbacks return false for it.
\<close>

function read_stream :: "nat \<Rightarrow> u8 list \<Rightarrow> (packet_status \<times> u8 list) list" where
  "read_stream buf_bytes s =
     (if length s < buf_bytes then []
      else (case async_read_message s buf_bytes of
        Dispatch GOOD_MESSAGE \<Rightarrow>
          (GOOD_MESSAGE, take buf_bytes s) # read_stream COMMON_HEADER_LEN (drop buf_bytes s)
      | Dispatch st \<Rightarrow> [(st, take buf_bytes s)]
      | ReadMore n \<Rightarrow> read_stream n s))"
  by pat_completeness auto
termination
  by (relation "measures [\<lambda>(b, s). length s, \<lambda>(b, s). if b = fh_length s then 0 else 1]")
    (auto simp: async_read_message_def packet_sizes split: if_splits)

declare read_stream.simps [simp del]

subsection \<open>Framing\<close>

text \<open>A message whose header carries its own length.\<close>

definition framed :: "u8 list \<Rightarrow> bool" where
  "framed m \<longleftrightarrow> MINPACKETSIZE \<le> length m \<and> length m \<le> MAXPACKETSIZE \<and> fh_length m = length m"

lemma fh_length_append: "18 \<le> length m \<Longrightarrow> fh_length (m @ s) = fh_length m"
  by (simp add: fh_length_def nth_append packet_sizes)

lemma read_stream_framed:
  assumes "framed m"
  shows "read_stream COMMON_HEADER_LEN (m @ s) = (GOOD_MESSAGE, m) # read_stream COMMON_HEADER_LEN s"
proof -
  have m: "19 \<le> length m" "length m \<le> 4096" and fh: "fh_length (m @ s) = length m"
    using assms by (auto simp: framed_def packet_sizes fh_length_append)
  have full: "read_stream (length m) (m @ s) = (GOOD_MESSAGE, m) # read_stream COMMON_HEADER_LEN s"
    using m fh by (subst read_stream.simps) (simp add: async_read_message_def packet_sizes)
  show ?thesis
  proof (cases "length m = COMMON_HEADER_LEN")
    case True
    with full show ?thesis by simp
  next
    case False
    then have "async_read_message (m @ s) COMMON_HEADER_LEN = ReadMore (length m)"
      using m fh by (simp add: async_read_message_def packet_sizes)
    then show ?thesis
      using m full by (subst read_stream.simps) (simp add: packet_sizes)
  qed
qed

text \<open>
  C22: The reader recovers the messages of the stream: for any sequence of messages whose headers
  carry their lengths, followed by the beginning of a further header, exactly these messages
  are dispatched, in order and with all their bytes.
\<close>

theorem stream_framing:
  assumes "list_all framed ms" "length s < COMMON_HEADER_LEN"
  shows "read_stream COMMON_HEADER_LEN (concat ms @ s) = map (Pair GOOD_MESSAGE) ms"
  using assms
proof (induction ms)
  case Nil
  then show ?case by (subst read_stream.simps) simp
qed (simp add: read_stream_framed)

text \<open>What the packet classes encode is framed: \<open>basic_encode\<close> writes the length into the header.\<close>

lemma unat_extract_16:
  assumes "n < 65536"
  shows "unat (extract_16 (of_nat (n div 256)) (of_nat n)) = n"
proof -
  have "extract_16 (of_nat (n div 256)) (of_nat n) = of_nat n"
    by (rule bit_word_eqI)
      (auto simp: extract_16_def bit_simps drop_bit_eq_div [where n = 8, simplified, symmetric])
  then show ?thesis using assms by (simp add: unat_of_nat)
qed

lemma framed_basic_encode:
  assumes "basic_encode (length m) type = Inr header" "take 19 m = header" "length m \<le> MAXPACKETSIZE"
  shows "framed m"
proof -
  have len: "19 \<le> length m" and header: "header = Marker @ [of_nat (length m div 256), of_nat (length m), type]"
    using assms(1) by (auto simp: basic_encode_def packet_sizes split: if_splits)
  have nth: "m ! i = header ! i" if "i < 19" for i
    using that assms(2) by (metis nth_take)
  have "m ! 16 = of_nat (length m div 256)" "m ! 17 = of_nat (length m)"
    using nth [of 16] nth [of 17] by (simp_all add: header nth_append)
  then have "fh_length m = length m"
    using unat_extract_16 [of "length m"] assms(3) by (simp add: fh_length_def packet_sizes)
  then show ?thesis using len assms(3) by (simp add: framed_def packet_sizes)
qed

lemma length_basic_encode: "basic_encode n type = Inr header \<Longrightarrow> length header = 19"
  by (auto simp: basic_encode_def split: if_splits)

lemma framed_notification:
  assumes "notification_encode (NotificationPacket ec esc ed) 4096 = Inr (Some bs)"
  shows "framed bs"
proof -
  let ?np = "NotificationPacket ec esc ed"
  have l: "np_Length ?np \<le> 4096" using assms by (auto simp: notification_encode_def split: if_splits)
  have "length bs = np_Length ?np"
    using notification_decode_encode [OF refl l] assms by auto
  moreover obtain header tail where header: "basic_encode (np_Length ?np) MESSAGETYPENOTIFICATION = Inr header"
    and bs: "bs = header @ tail"
    using assms by (auto simp: notification_encode_def split: if_splits)
  moreover have "take 19 bs = header" using length_basic_encode [OF header] bs by simp
  ultimately show ?thesis
    using l by (intro framed_basic_encode [of _ MESSAGETYPENOTIFICATION header]) (simp_all only: MAXPACKETSIZE_def)
qed

lemma framed_keepalive:
  assumes "keepalive_encode = Inr bs"
  shows "framed bs"
  using assms by (intro framed_basic_encode [where type = MESSAGETYPEKEEPALIVE, OF _ refl])
    (auto simp: keepalive_encode_def packet_sizes)

theorem stream_framing_witness:
  "\<exists>k n. keepalive_encode = Inr k \<and> notification_encode (NotificationPacket 6 0 None) 4096 = Inr (Some n)
     \<and> read_stream COMMON_HEADER_LEN (concat [k, n, k] @ [0xff]) = map (Pair GOOD_MESSAGE) [k, n, k]"
proof -
  obtain k where k: "keepalive_encode = Inr k" by (simp add: keepalive_encode_def packet_sizes)
  obtain n where n: "notification_encode (NotificationPacket 6 0 None) 4096 = Inr (Some n)"
    using notification_decode_encode [OF refl, of 6 0 None 4096] by (auto simp: NotificationPacket_def packet_sizes)
  have "read_stream COMMON_HEADER_LEN (concat [k, n, k] @ [0xff]) = map (Pair GOOD_MESSAGE) [k, n, k]"
    by (rule stream_framing) (simp_all add: framed_keepalive [OF k] framed_notification [OF n] packet_sizes)
  with k n show ?thesis by blast
qed

end
