(* ===== verification/Peer_Data.thy ===== *)
theory Peer_Data
  imports Bgp_Packet
begin

text \<open>
  What a BGP process knows of itself and of one peering (\<open>bgp/local_data.hh\<close>, \<open>bgp/peer_data.hh\<close>,
  \<open>bgp/peer_data.cc\<close>): AS numbers, timer durations, the kind of the peering, and the negotiation of
  capabilities from the optional parameters that both sides sent.
\<close>

subsection \<open>State\<close>

record local_data =
  get_as :: as_num
  ld_use_4byte_asnums :: bool
  get_id :: ipv4
  get_confed_id :: as_num
  get_route_reflector :: bool
  get_jitter :: bool

datatype peer_type = PEER_TYPE_EBGP | PEER_TYPE_IBGP | PEER_TYPE_EBGP_CONFED | PEER_TYPE_IBGP_CLIENT
  | PEER_TYPE_UNCONFIGURED | PEER_TYPE_INTERNAL

datatype direction = SENT | RECEIVED | NEGOTIATED

record peer_data =
  pd_as :: as_num
  pd_use_4byte_asnums :: bool
  route_reflector :: bool
  confederation :: bool
  prefix_limit :: "u32 \<times> bool"
  configured_hold_time :: u16
  delay_open_time :: u32
  pd_id :: ipv4
  hold_duration :: u32
  retry_duration :: u32
  keepalive_duration :: u32
  next_hop_rewrite :: ipv4
  peer_kind :: peer_type
  sent_parameters :: "bgp_parameter list"
  recv_parameters :: "bgp_parameter list"
  negotiated_parameters :: "bgp_parameter list"
  multiprotocol :: "direction \<Rightarrow> afi \<Rightarrow> safi \<Rightarrow> bool"

subsection \<open>Parameter lists\<close>

fun remove_parameter :: "bgp_parameter list \<Rightarrow> bgp_parameter \<Rightarrow> bgp_parameter list" where
  "remove_parameter [] p = []"
| "remove_parameter (q # qs) p = (if par_compare p q then qs else q # remove_parameter qs p)"

definition add_parameter :: "bgp_parameter list \<Rightarrow> bgp_parameter \<Rightarrow> bgp_parameter list" where
  "add_parameter qs p = remove_parameter qs p @ [p]"

definition add_sent_parameter :: "bgp_parameter \<Rightarrow> peer_data \<Rightarrow> peer_data" where
  "add_sent_parameter p pd = pd\<lparr> sent_parameters := add_parameter (sent_parameters pd) p \<rparr>"

definition add_recv_parameter :: "bgp_parameter \<Rightarrow> peer_data \<Rightarrow> peer_data" where
  "add_recv_parameter p pd = pd\<lparr> recv_parameters := add_parameter (recv_parameters pd) p \<rparr>"

definition is_multiprotocol :: "bgp_parameter \<Rightarrow> bool" where
  "is_multiprotocol p = (case cap p of MultiProtocol _ _ \<Rightarrow> True | _ \<Rightarrow> False)"

definition save_parameters :: "bgp_parameter list \<Rightarrow> peer_data \<Rightarrow> peer_data" where
  "save_parameters plist pd =
     (let pd = fold add_recv_parameter plist pd in
      if list_ex is_multiprotocol plist then pd
      else add_recv_parameter (BGPMultiProtocolCapability AFI_IPV4 SAFI_UNICAST) pd)"

subsection \<open>Negotiation\<close>

text \<open>
  The four arrays \<open>_ipv4_unicast\<close>, \<open>_ipv6_unicast\<close>, \<open>_ipv4_multicast\<close> and \<open>_ipv6_multicast\<close>, indexed by the
  direction, are one function here.
\<close>

fun negotiate_recv :: "bgp_parameter \<Rightarrow> bgp_parameter list \<Rightarrow> bgp_parameter list" where
  "negotiate_recv s [] = []"
| "negotiate_recv s (r # rs) = (if par_compare r s then s # negotiate_recv s rs else negotiate_recv s rs)"

definition negotiate :: "bgp_parameter list \<Rightarrow> bgp_parameter list \<Rightarrow> bgp_parameter list" where
  "negotiate sent recv = concat (map (\<lambda>s. negotiate_recv s recv) sent)"

fun mark_multiprotocol :: "direction \<Rightarrow> bgp_parameter list \<Rightarrow> (direction \<Rightarrow> afi \<Rightarrow> safi \<Rightarrow> bool)
    \<Rightarrow> (direction \<Rightarrow> afi \<Rightarrow> safi \<Rightarrow> bool)" where
  "mark_multiprotocol d [] f = f"
| "mark_multiprotocol d (q # qs) f = mark_multiprotocol d qs (case cap q of
     MultiProtocol a s \<Rightarrow> f(d := (f d)(a := (f d a)(s := True))) | _ \<Rightarrow> f)"

fun take_4byte_as :: "bgp_parameter list \<Rightarrow> peer_data \<Rightarrow> peer_data" where
  "take_4byte_as [] pd = pd"
| "take_4byte_as (q # qs) pd = take_4byte_as qs (case cap q of
     FourByteAS n \<Rightarrow> pd\<lparr> pd_use_4byte_asnums := True, pd_as := AsNum n \<rparr> | _ \<Rightarrow> pd)"

definition open_negotiation :: "local_data \<Rightarrow> peer_data \<Rightarrow> peer_data" where
  "open_negotiation ld pd =
     (let pd = pd\<lparr> negotiated_parameters := negotiate (sent_parameters pd) (recv_parameters pd) \<rparr>;
          f = (\<lambda>d a s. False);
          f = mark_multiprotocol SENT (sent_parameters pd) f;
          f = mark_multiprotocol RECEIVED (recv_parameters pd) f;
          f = mark_multiprotocol NEGOTIATED (negotiated_parameters pd) f;
          pd = pd\<lparr> multiprotocol := f \<rparr>
      in if ld_use_4byte_asnums ld then take_4byte_as (recv_parameters pd) pd else pd)"

subsection \<open>The peering\<close>

text \<open>
  The constructor. \<open>uninitialised\<close> is the value of \<open>_cap_code\<close> that
  \<open>BGP4ByteASCapability(const AsNum&)\<close> leaves unset; \<open>_id\<close> and the next hop rewrite are 0.0.0.0
  from the default constructor of \<open>IPv4\<close>.
\<close>

definition BGPPeerData :: "int \<Rightarrow> local_data \<Rightarrow> as_num \<Rightarrow> u16 \<Rightarrow> peer_data" where
  "BGPPeerData uninitialised ld n holdtime =
     (let pd = \<lparr> pd_as = n, pd_use_4byte_asnums = False, route_reflector = False,
           confederation = False, prefix_limit = (0, False), configured_hold_time = holdtime,
           delay_open_time = 0, pd_id = ipv4_ZERO, hold_duration = 0, retry_duration = 2 * 60,
           keepalive_duration = 0, next_hop_rewrite = ipv4_ZERO, peer_kind = PEER_TYPE_UNCONFIGURED,
           sent_parameters = [], recv_parameters = [], negotiated_parameters = [],
           multiprotocol = (\<lambda>d a s. False) \<rparr>;
          pd = (if ld_use_4byte_asnums ld
                then add_sent_parameter (BGP4ByteASCapability uninitialised n) pd else pd)
      in open_negotiation ld pd)"

definition my_AS_number :: "local_data \<Rightarrow> peer_data \<Rightarrow> as_num" where
  "my_AS_number ld pd =
     (let confid = get_confed_id ld in
      if as_of confid = AS_INVALID then get_as ld
      else if confederation pd then get_as ld
      else confid)"

definition compute_peer_type :: "local_data \<Rightarrow> peer_data \<Rightarrow> peer_data" where
  "compute_peer_type ld pd =
     (if get_as ld = pd_as pd then
        pd\<lparr> peer_kind := if get_route_reflector ld \<and> route_reflector pd
              then PEER_TYPE_IBGP_CLIENT else PEER_TYPE_IBGP \<rparr>
      else
        pd\<lparr> peer_kind := if as_of (get_confed_id ld) \<noteq> AS_INVALID \<and> confederation pd
              then PEER_TYPE_EBGP_CONFED else PEER_TYPE_EBGP \<rparr>)"

definition ibgp :: "peer_data \<Rightarrow> bool res" where
  "ibgp pd = (if peer_kind pd = PEER_TYPE_UNCONFIGURED then Inl XlogAssert
     else Inr (peer_kind pd = PEER_TYPE_IBGP \<or> peer_kind pd = PEER_TYPE_IBGP_CLIENT))"

definition ibgp_vanilla :: "peer_data \<Rightarrow> bool res" where
  "ibgp_vanilla pd = (if peer_kind pd = PEER_TYPE_UNCONFIGURED then Inl XlogAssert
     else Inr (peer_kind pd = PEER_TYPE_IBGP))"

definition ibgp_client :: "peer_data \<Rightarrow> bool res" where
  "ibgp_client pd = (if peer_kind pd = PEER_TYPE_UNCONFIGURED then Inl XlogAssert
     else Inr (peer_kind pd = PEER_TYPE_IBGP_CLIENT))"

definition ebgp_vanilla :: "peer_data \<Rightarrow> bool res" where
  "ebgp_vanilla pd = (if peer_kind pd = PEER_TYPE_UNCONFIGURED then Inl XlogAssert
     else Inr (peer_kind pd = PEER_TYPE_EBGP))"

definition ebgp_confed :: "peer_data \<Rightarrow> bool res" where
  "ebgp_confed pd = (if peer_kind pd = PEER_TYPE_UNCONFIGURED then Inl XlogAssert
     else Inr (peer_kind pd = PEER_TYPE_EBGP_CONFED))"

subsection \<open>Which address families are negotiated\<close>

text \<open>
  A parameter as the decoder or a constructor leaves it has the capability code of its class (the
  4-byte AS capability that is sent has no code at all).
\<close>

definition par_ok :: "bgp_parameter \<Rightarrow> bool" where
  "par_ok q = (case cap q of
     Refresh _ \<Rightarrow> cap_code q = 2
   | MultiProtocol _ _ \<Rightarrow> cap_code q = 1
   | MultiRoute \<Rightarrow> cap_code q = 4
   | FourByteAS _ \<Rightarrow> cap_code q = 65
   | UnknownCap _ \<Rightarrow> cap_code q = -1)"

lemma par_create_ok:
  assumes "par_create d i = Inr (q, len)"
  shows "par_ok q"
  using assms by (auto simp: par_create_def Let_def par_decodes par_ok_def cap_codes split: if_splits)

lemma mark_multiprotocol_iff:
  "mark_multiprotocol d qs f d' a s \<longleftrightarrow> f d' a s \<or> (d' = d \<and> MultiProtocol a s \<in> cap ` set qs)"
proof (induction qs arbitrary: f)
  case (Cons q qs)
  show ?case by (cases "cap q") (auto simp: Cons.IH)
qed simp

lemma set_negotiate_recv: "set (negotiate_recv s rs) = (if \<exists>r\<in>set rs. par_compare r s then {s} else {})"
  by (induction rs) auto

lemma set_negotiate: "set (negotiate ss rs) = {s \<in> set ss. \<exists>r\<in>set rs. par_compare r s}"
  by (auto simp: negotiate_def set_negotiate_recv split: if_splits)

lemma par_compare_multiprotocol:
  assumes "par_ok r" "par_ok s" "cap s = MultiProtocol a b"
  shows "par_compare r s \<longleftrightarrow> cap r = MultiProtocol a b"
  using assms by (cases "cap r") (auto simp: par_ok_def)

lemma take_4byte_as_fields [simp]:
  "multiprotocol (take_4byte_as qs pd) = multiprotocol pd"
  "negotiated_parameters (take_4byte_as qs pd) = negotiated_parameters pd"
  "sent_parameters (take_4byte_as qs pd) = sent_parameters pd"
  "recv_parameters (take_4byte_as qs pd) = recv_parameters pd"
  by (induction qs arbitrary: pd) (auto split: capability.splits)

lemma open_negotiation_flags:
  "multiprotocol (open_negotiation ld pd) SENT a s \<longleftrightarrow> MultiProtocol a s \<in> cap ` set (sent_parameters pd)"
  "multiprotocol (open_negotiation ld pd) RECEIVED a s \<longleftrightarrow> MultiProtocol a s \<in> cap ` set (recv_parameters pd)"
  "multiprotocol (open_negotiation ld pd) NEGOTIATED a s
     \<longleftrightarrow> MultiProtocol a s \<in> cap ` set (negotiate (sent_parameters pd) (recv_parameters pd))"
  by (auto simp: open_negotiation_def Let_def mark_multiprotocol_iff)

subsection \<open>Received parameters\<close>

lemma par_ok_multiprotocol [simp]: "par_ok (BGPMultiProtocolCapability a s)"
  by (simp add: par_ok_def BGPMultiProtocolCapability_def cap_codes)

lemma set_remove_parameter: "set (remove_parameter qs p) \<subseteq> set qs"
  by (induction qs) auto

lemma add_parameter_ok:
  "list_all par_ok qs \<Longrightarrow> par_ok p \<Longrightarrow> list_all par_ok (add_parameter qs p)"
  using set_remove_parameter [of qs p] by (auto simp: add_parameter_def list_all_iff)

lemma fold_add_recv_ok:
  "list_all par_ok ps \<Longrightarrow> list_all par_ok (recv_parameters pd)
   \<Longrightarrow> list_all par_ok (recv_parameters (fold add_recv_parameter ps pd))"
  by (induction ps arbitrary: pd) (simp_all add: add_recv_parameter_def add_parameter_ok)

lemma save_parameters_ok:
  "list_all par_ok ps \<Longrightarrow> list_all par_ok (recv_parameters pd)
   \<Longrightarrow> list_all par_ok (recv_parameters (save_parameters ps pd))"
  using fold_add_recv_ok [of ps pd]
  by (auto simp: save_parameters_def Let_def add_recv_parameter_def intro!: add_parameter_ok)

text \<open>
  What the negotiation is about: the address families for which a parameter list has the
  multiprotocol capability. Adding a parameter replaces an equal one and loses no family.
\<close>

definition announces :: "bgp_parameter list \<Rightarrow> afi \<Rightarrow> safi \<Rightarrow> bool" where
  "announces qs a s = list_ex (\<lambda>q. cap q = MultiProtocol a s) qs"

lemma announces_iff: "announces qs a s \<longleftrightarrow> MultiProtocol a s \<in> cap ` set qs"
  by (force simp: announces_def list_ex_iff)

lemma announces_add_parameter:
  assumes "list_all par_ok qs" "par_ok p"
  shows "announces (add_parameter qs p) a s \<longleftrightarrow> announces qs a s \<or> cap p = MultiProtocol a s"
proof -
  have "announces (remove_parameter qs p) a s \<or> cap p = MultiProtocol a s \<longleftrightarrow> announces qs a s \<or> cap p = MultiProtocol a s"
    using assms(1)
  proof (induction qs)
    case (Cons q qs)
    have "cap q = MultiProtocol a s \<Longrightarrow> par_compare p q \<Longrightarrow> cap p = MultiProtocol a s"
      using par_compare_multiprotocol [OF assms(2)] Cons.prems by simp
    with Cons show ?case by (auto simp: announces_def simp del: par_compare.simps)
  qed simp
  then show ?thesis by (auto simp: add_parameter_def announces_def)
qed

lemma announces_fold:
  "list_all par_ok ps \<Longrightarrow> list_all par_ok (recv_parameters pd)
   \<Longrightarrow> announces (recv_parameters (fold add_recv_parameter ps pd)) a s \<longleftrightarrow> announces ps a s \<or> announces (recv_parameters pd) a s"
proof (induction ps arbitrary: pd)
  case (Cons p ps)
  then have "list_all par_ok (recv_parameters (add_recv_parameter p pd))"
    by (simp add: add_recv_parameter_def add_parameter_ok)
  with Cons show ?case by (auto simp: announces_def [of "p # ps"] add_recv_parameter_def announces_add_parameter)
      (auto simp: announces_def)
qed (simp add: announces_def)

lemma cap_multiprotocol: "cap (BGPMultiProtocolCapability a s) = MultiProtocol a s"
  by (simp add: BGPMultiProtocolCapability_def)

lemma announces_received:
  assumes "list_all par_ok ps" "list_all par_ok (recv_parameters pd)"
  shows "announces (recv_parameters (save_parameters ps pd)) a s \<longleftrightarrow> announces ps a s \<or> announces (recv_parameters pd) a s
    \<or> (\<not> list_ex is_multiprotocol ps \<and> a = AFI_IPV4 \<and> s = SAFI_UNICAST)"
  using announces_fold [OF assms] fold_add_recv_ok [OF assms]
  by (auto simp: save_parameters_def Let_def add_recv_parameter_def announces_add_parameter cap_multiprotocol)

lemma fold_add_recv_sent [simp]: "sent_parameters (fold add_recv_parameter ps pd) = sent_parameters pd"
  by (induction ps arbitrary: pd) (simp_all add: add_recv_parameter_def)

lemma save_parameters_sent [simp]: "sent_parameters (save_parameters ps pd) = sent_parameters pd"
  by (simp add: save_parameters_def Let_def add_recv_parameter_def)

lemma announces_negotiate:
  assumes "\<forall>p \<in> set ss. is_multiprotocol p \<longrightarrow> par_ok p" "list_all par_ok rs"
  shows "announces (negotiate ss rs) a s \<longleftrightarrow> announces ss a s \<and> announces rs a s"
proof -
  have "par_compare r q \<longleftrightarrow> cap r = MultiProtocol a s" if "r \<in> set rs" "q \<in> set ss" "cap q = MultiProtocol a s" for r q
    using that assms by (intro par_compare_multiprotocol) (auto simp: is_multiprotocol_def list_all_iff)
  then show ?thesis
    unfolding announces_iff set_negotiate by (auto simp: image_iff simp del: par_compare.simps) metis+
qed

text \<open>
  C24: The address families that an OPEN negotiates. After \<open>save_parameters\<close> and \<open>open_negotiation\<close> a
  family is flagged as sent exactly when a sent parameter announces it. It is flagged as received
  exactly when the OPEN announces it, or an earlier OPEN of the peering did (nothing clears
  \<open>_recv_parameters\<close>), or the OPEN has no multiprotocol capability and the family is IPv4 unicast.
  It is flagged as negotiated exactly when both hold, the intersection and not the union that the
  comment in the code speaks of. The parameters are as the decoder and the constructors build them.
\<close>

theorem negotiated_families:
  assumes "list_all par_ok ps" "list_all par_ok (recv_parameters pd)"
    and "\<forall>p \<in> set (sent_parameters pd). is_multiprotocol p \<longrightarrow> par_ok p"
    and "f = multiprotocol (open_negotiation ld (save_parameters ps pd))"
  shows "(f SENT a s \<longleftrightarrow> announces (sent_parameters pd) a s)
    \<and> (f RECEIVED a s \<longleftrightarrow> announces ps a s \<or> announces (recv_parameters pd) a s
        \<or> (\<not> list_ex is_multiprotocol ps \<and> a = AFI_IPV4 \<and> s = SAFI_UNICAST))
    \<and> (f NEGOTIATED a s \<longleftrightarrow> announces (sent_parameters pd) a s \<and>
        (announces ps a s \<or> announces (recv_parameters pd) a s
         \<or> (\<not> list_ex is_multiprotocol ps \<and> a = AFI_IPV4 \<and> s = SAFI_UNICAST)))"
  using announces_received [OF assms(1,2), of a s] announces_negotiate [OF assms(3) save_parameters_ok [OF assms(1,2)], of a s]
  unfolding assms(4) open_negotiation_flags announces_iff [symmetric] save_parameters_sent by blast

definition local_example :: local_data where
  "local_example = \<lparr> get_as = AsNum 7, ld_use_4byte_asnums = False, get_id = IPv4 0x100000a,
     get_confed_id = AsNum 0, get_route_reflector = False, get_jitter = False \<rparr>"

definition peer_data_example :: peer_data where
  "peer_data_example = add_sent_parameter (BGPMultiProtocolCapability AFI_IPV4 SAFI_UNICAST)
     (BGPPeerData 0 local_example (AsNum 9) 90)"

text \<open>
  A peer that announced IPv6 unicast once and now sends an OPEN without capabilities: IPv4
  unicast is negotiated from the fallback, IPv6 unicast from the earlier OPEN, and IPv4
  multicast, which was sent and never received, is not.
\<close>

theorem negotiated_families_witness:
  "\<exists>pd f. announces (recv_parameters pd) AFI_IPV6 SAFI_UNICAST
     \<and> f = multiprotocol (open_negotiation local_example (save_parameters [] pd))
     \<and> f NEGOTIATED AFI_IPV4 SAFI_UNICAST \<and> f NEGOTIATED AFI_IPV6 SAFI_UNICAST
     \<and> f SENT AFI_IPV4 SAFI_MULTICAST \<and> \<not> f NEGOTIATED AFI_IPV4 SAFI_MULTICAST"
proof -
  let ?m = BGPMultiProtocolCapability
  define pd where "pd = peer_data_example\<lparr> recv_parameters := [?m AFI_IPV6 SAFI_UNICAST],
    sent_parameters := [?m AFI_IPV4 SAFI_UNICAST, ?m AFI_IPV6 SAFI_UNICAST, ?m AFI_IPV4 SAFI_MULTICAST] \<rparr>"
  have ok: "list_all par_ok []" "list_all par_ok (recv_parameters pd)"
    "\<forall>p \<in> set (sent_parameters pd). is_multiprotocol p \<longrightarrow> par_ok p" by (simp_all add: pd_def)
  note f = negotiated_families [OF ok refl, of local_example]
  have "announces (recv_parameters pd) AFI_IPV6 SAFI_UNICAST" "announces (sent_parameters pd) AFI_IPV4 SAFI_UNICAST"
    "announces (sent_parameters pd) AFI_IPV6 SAFI_UNICAST" "announces (sent_parameters pd) AFI_IPV4 SAFI_MULTICAST"
    "\<not> announces [] AFI_IPV4 SAFI_MULTICAST" "\<not> announces (recv_parameters pd) AFI_IPV4 SAFI_MULTICAST"
    by (simp_all add: pd_def announces_def BGPMultiProtocolCapability_def)
  then show ?thesis using f by (intro exI [of _ pd] exI [of _ "multiprotocol (open_negotiation local_example (save_parameters [] pd))"]) auto
qed

text \<open>
  A parameter of an earlier session is replaced only by an equal one: when the peer comes back
  without a capability that it once sent, the capability stays in \<open>_recv_parameters\<close>, and the
  address family stays negotiated.
\<close>

lemma remove_parameter_keeps:
  "q \<in> set qs \<Longrightarrow> \<not> par_compare p q \<Longrightarrow> q \<in> set (remove_parameter qs p)"
  by (induction qs) (auto simp del: par_compare.simps)

lemma fold_add_recv_keeps:
  "q \<in> set (recv_parameters pd) \<Longrightarrow> \<forall>p \<in> set ps. \<not> par_compare p q
   \<Longrightarrow> q \<in> set (recv_parameters (fold add_recv_parameter ps pd))"
  by (induction ps arbitrary: pd) (simp_all add: add_recv_parameter_def add_parameter_def remove_parameter_keeps del: par_compare.simps)

lemma stale_capability_survives:
  assumes "q \<in> set (recv_parameters pd)" "cap q = MultiProtocol AFI_IPV6 s"
    and "\<forall>p \<in> set ps. \<not> par_compare p q" "list_ex is_multiprotocol ps"
  shows "multiprotocol (open_negotiation ld (save_parameters ps pd)) RECEIVED AFI_IPV6 s"
  using fold_add_recv_keeps [OF assms(1,3)] assms(2,4)
  by (force simp: open_negotiation_flags save_parameters_def Let_def)

text \<open>
  The 4-byte AS capability that a process sends carries the AS number of the peer, not its own:
  the constructor passes its argument \<open>as\<close>, the peer's.
\<close>

lemma sends_as_of_peer:
  assumes "ld_use_4byte_asnums ld"
  shows "map cap (sent_parameters (BGPPeerData u ld n ht)) = [FourByteAS (as4 n)]"
  using assms by (simp add: BGPPeerData_def Let_def open_negotiation_def add_sent_parameter_def add_parameter_def
      BGP4ByteASCapability_def negotiate_def)

end
