(* ===== verification/Peer_FSM.thy ===== *)
theory Peer_FSM
  imports Peer_Data Bgp_Socket
begin

text \<open>
  The BGP finite state machine of one peering (\<open>class BGPPeer\<close> and \<open>class DampPeerOscillations\<close> of
  \<open>bgp/peer.hh\<close>, \<open>bgp/peer.cc\<close>): the state, its timers and counters, the messages it sends through
  its \<open>SocketClient\<close>, the calls it makes on its \<open>PeerHandler\<close>, and one definition per event.
  \<open>XLOG_FATAL\<close> and \<open>XLOG_ASSERT\<close> end the process: they are error values. A timer is the number of
  seconds it was set to (before the jitter), or \<open>None\<close> when it is not scheduled.
\<close>

subsection \<open>State\<close>

datatype fsm_state = STATEIDLE | STATECONNECT | STATEACTIVE | STATEOPENSENT | STATEOPENCONFIRM
  | STATEESTABLISHED | STATESTOPPED

text \<open>
  The timer \<open>_idle_hold\<close> is set by \<open>start_idle_hold_timer\<close> and also by \<open>start_delay_open_timer\<close>, with
  another callback.
\<close>

datatype idle_callback = Idle_hold_exp | Delay_open_exp

text \<open>An UPDATE as far as the state machine looks at it: its NLRI count and its NEXT_HOP attribute.\<close>

record update_packet =
  nlri_count :: nat
  nexthop_att :: "ipv4 option"

datatype handler_call = Plumbed | Came_up | Went_down | Handler_stop | Process_update update_packet
  | No_longer_busy

record peer =
  pstate :: fsm_state
  sc :: socket_client
  output_queue_was_busy :: bool
  pd :: peer_data
  ld :: local_data
  handler :: "bool option"
  calls :: "handler_call list"
  t_connect_retry :: "u32 option"
  t_hold :: "u32 option"
  t_keepalive :: "u32 option"
  t_idle_hold :: "(idle_callback \<times> u32) option"
  t_delay_open :: "u32 option"
  t_stopped :: "u32 option"
  in_updates :: u32
  out_updates :: u32
  in_total_messages :: u32
  out_total_messages :: u32
  last_error :: "u8 \<times> u8"
  established_transitions :: u32
  damping_peer_oscillations :: bool
  restart_counter :: u32
  t_zero_restart :: "u32 option"
  current_peer_state :: bool

definition zero_stats :: "peer \<Rightarrow> peer" where
  "zero_stats p = p\<lparr> in_updates := 0, out_updates := 0, in_total_messages := 0, out_total_messages := 0,
     last_error := (0, 0), established_transitions := 0 \<rparr>"

definition BGPPeer :: "local_data \<Rightarrow> peer_data \<Rightarrow> socket_client \<Rightarrow> peer" where
  "BGPPeer l d s = \<lparr> pstate = STATEIDLE, sc = s, output_queue_was_busy = False, pd = d, ld = l,
     handler = None, calls = [], t_connect_retry = None, t_hold = None, t_keepalive = None,
     t_idle_hold = None, t_delay_open = None, t_stopped = None, in_updates = 0, out_updates = 0,
     in_total_messages = 0, out_total_messages = 0, last_error = (0, 0), established_transitions = 0,
     damping_peer_oscillations = True, restart_counter = 0, t_zero_restart = None,
     current_peer_state = False \<rparr>"

definition clear_last_error :: "peer \<Rightarrow> peer" where
  "clear_last_error p = p\<lparr> last_error := (0, 0) \<rparr>"

subsection \<open>Damping of peer oscillations\<close>

definition damp_restart :: "peer \<Rightarrow> peer" where
  "damp_restart p = p\<lparr> restart_counter := restart_counter p + 1,
     t_zero_restart := if restart_counter p = 0 then Some (5 * 60) else t_zero_restart p \<rparr>"

definition zero_restart_count :: "peer \<Rightarrow> peer" where
  "zero_restart_count p = p\<lparr> restart_counter := 0 \<rparr>"

definition damp_reset :: "peer \<Rightarrow> peer" where
  "damp_reset p = zero_restart_count (p\<lparr> t_zero_restart := None \<rparr>)"

definition idle_holdtime :: "peer \<Rightarrow> u32" where
  "idle_holdtime p = (if restart_counter p < 10 then 0 else 2 * 60)"

definition automatic_restart :: "peer \<Rightarrow> peer" where
  "automatic_restart p = (if \<not> damping_peer_oscillations p then p else damp_restart p)"

subsection \<open>Timers\<close>

definition start_connect_retry_timer :: "peer \<Rightarrow> peer" where
  "start_connect_retry_timer p = p\<lparr> t_connect_retry := Some (retry_duration (pd p)) \<rparr>"

definition clear_connect_retry_timer :: "peer \<Rightarrow> peer" where
  "clear_connect_retry_timer p = p\<lparr> t_connect_retry := None \<rparr>"

definition restart_connect_retry_timer :: "peer \<Rightarrow> peer" where
  "restart_connect_retry_timer p = start_connect_retry_timer (clear_connect_retry_timer p)"

definition start_hold_timer :: "peer \<Rightarrow> peer" where
  "start_hold_timer p =
     (if hold_duration (pd p) \<noteq> 0 then p\<lparr> t_hold := Some (hold_duration (pd p) + 1) \<rparr> else p)"

definition clear_hold_timer :: "peer \<Rightarrow> peer" where
  "clear_hold_timer p = p\<lparr> t_hold := None \<rparr>"

definition restart_hold_timer :: "peer \<Rightarrow> peer" where
  "restart_hold_timer p = start_hold_timer (clear_hold_timer p)"

definition start_keepalive_timer :: "peer \<Rightarrow> peer" where
  "start_keepalive_timer p =
     (if keepalive_duration (pd p) > 0 then p\<lparr> t_keepalive := Some (keepalive_duration (pd p)) \<rparr> else p)"

definition clear_keepalive_timer :: "peer \<Rightarrow> peer" where
  "clear_keepalive_timer p = p\<lparr> t_keepalive := None \<rparr>"

definition start_stopped_timer :: "peer \<Rightarrow> peer" where
  "start_stopped_timer p = p\<lparr> t_stopped := Some 10 \<rparr>"

definition clear_stopped_timer :: "peer \<Rightarrow> peer" where
  "clear_stopped_timer p = p\<lparr> t_stopped := None \<rparr>"

definition start_idle_hold_timer :: "peer \<Rightarrow> peer" where
  "start_idle_hold_timer p = (if \<not> damping_peer_oscillations p then p
     else p\<lparr> t_idle_hold := Some (Idle_hold_exp, idle_holdtime p) \<rparr>)"

definition clear_idle_hold_timer :: "peer \<Rightarrow> peer" where
  "clear_idle_hold_timer p = (if \<not> damping_peer_oscillations p then p else p\<lparr> t_idle_hold := None \<rparr>)"

definition running_idle_hold_timer :: "peer \<Rightarrow> bool" where
  "running_idle_hold_timer p \<longleftrightarrow> damping_peer_oscillations p \<and> t_idle_hold p \<noteq> None"

definition start_delay_open_timer :: "peer \<Rightarrow> peer" where
  "start_delay_open_timer p = p\<lparr> t_idle_hold := Some (Delay_open_exp, delay_open_time (pd p)) \<rparr>"

definition clear_delay_open_timer :: "peer \<Rightarrow> peer" where
  "clear_delay_open_timer p = p\<lparr> t_delay_open := None \<rparr>"

definition clear_all_timers :: "peer \<Rightarrow> peer" where
  "clear_all_timers p = clear_idle_hold_timer (clear_delay_open_timer (clear_stopped_timer
     (clear_keepalive_timer (clear_hold_timer (clear_connect_retry_timer p)))))"

subsection \<open>Sending\<close>

datatype out_message = Open_msg open_packet | Keepalive_msg | Update_msg "u8 list option"
  | Notification_msg notification_packet

text \<open>
  \<open>XLOG_ASSERT(p.encode(buf, ccnt, _peerdata))\<close> with a buffer of \<open>MAXPACKETSIZE\<close> bytes. The encoded
  UPDATE is given: \<open>None\<close> when it does not fit.
\<close>

fun assert_encoded :: "u8 list option \<Rightarrow> u8 list res" where
  "assert_encoded None = Inl XlogAssert"
| "assert_encoded (Some bs) = Inr bs"

fun encode_packet :: "out_message \<Rightarrow> u8 list res" where
  "encode_packet (Open_msg op) = res_bind (open_encode op MAXPACKETSIZE) assert_encoded"
| "encode_packet Keepalive_msg = keepalive_encode"
| "encode_packet (Update_msg bs) = assert_encoded bs"
| "encode_packet (Notification_msg np) = res_bind (notification_encode np MAXPACKETSIZE) assert_encoded"

datatype output_state = PEER_OUTPUT_OK | PEER_OUTPUT_BUSY | PEER_OUTPUT_FAIL

definition send_message :: "out_message \<Rightarrow> peer \<Rightarrow> (peer \<times> output_state) res" where
  "send_message m p =
     (let p = p\<lparr> out_total_messages := out_total_messages p + 1 \<rparr>;
          p = (case m of Update_msg _ \<Rightarrow> p\<lparr> out_updates := out_updates p + 1 \<rparr> | _ \<Rightarrow> p)
      in res_bind (encode_packet m) (\<lambda>buf.
         res_bind (sc_send_message buf send_message_cb (sc p)) (\<lambda>(s, ret).
           let p = p\<lparr> sc := s \<rparr> in
           if ret then res_map (\<lambda>busy.
               if busy then (p\<lparr> output_queue_was_busy := True \<rparr>, PEER_OUTPUT_BUSY) else (p, PEER_OUTPUT_OK))
             (output_queue_busy s)
           else Inr (p, PEER_OUTPUT_FAIL))))"

definition send_notification :: "notification_packet \<Rightarrow> bool \<Rightarrow> bool \<Rightarrow> peer \<Rightarrow> peer res" where
  "send_notification np restart automatic p =
     (let p = p\<lparr> sc := stop_reader (flush_transmit_queue (sc p)) \<rparr>
      in res_bind (encode_packet (Notification_msg np)) (\<lambda>buf.
         res_map (\<lambda>(s, ret). p\<lparr> sc := s \<rparr>)
           (sc_send_message buf (send_notification_cb restart automatic) (sc p))))"

definition is_cap_parameter :: "bgp_parameter \<Rightarrow> bool" where
  "is_cap_parameter q = True"

definition generate_open_message :: "peer \<Rightarrow> open_packet \<Rightarrow> open_packet" where
  "generate_open_message p op =
     (let ignore = (unat (fst (last_error p)) = OPENMSGERROR \<and> unat (snd (last_error p)) = UNSUPOPTPAR)
      in fold (\<lambda>q op. if ignore \<and> is_cap_parameter q then op else open_add_parameter q op)
           (sent_parameters (pd p)) op)"

definition own_open :: "peer \<Rightarrow> open_packet" where
  "own_open p = generate_open_message p
     (OpenPacket (my_AS_number (ld p) (pd p)) (get_id (ld p)) (configured_hold_time (pd p)))"

definition send_open :: "peer \<Rightarrow> peer res" where
  "send_open p = res_map fst (send_message (Open_msg (own_open p)) p)"

subsection \<open>Changing the state\<close>

definition release_resources :: "peer \<Rightarrow> peer res" where
  "release_resources p =
     (let p = (if handler p = Some True then p\<lparr> handler := Some False, calls := calls p @ [Went_down] \<rparr> else p)
      in res_map (\<lambda>s. p\<lparr> sc := s, in_updates := 0, out_updates := 0, in_total_messages := 0, out_total_messages := 0 \<rparr>)
         (if is_connected (sc p) then disconnect (sc p) else Inr (sc p)))"

definition established :: "peer \<Rightarrow> peer" where
  "established p =
     (let p = (case handler p of
          None \<Rightarrow> p\<lparr> handler := Some True, calls := calls p @ [Plumbed] \<rparr>
        | Some _ \<Rightarrow> p\<lparr> handler := Some True, calls := calls p @ [Came_up] \<rparr>)
      in p\<lparr> established_transitions := established_transitions p + 1 \<rparr>)"

text \<open>
  \<open>set_state\<close> up to its recursive call of \<open>event_start\<close>, which it makes on a transition to idle with
  \<open>restart\<close> and without \<open>automatic\<close>. \<open>event_start\<close> itself changes the state without \<open>restart\<close>, so
  its calls of \<open>set_state\<close> are calls of this definition; \<open>set_state\<close> follows \<open>event_start\<close> below.
\<close>

definition enter_state :: "fsm_state \<Rightarrow> bool \<Rightarrow> bool \<Rightarrow> peer \<Rightarrow> peer res" where
  "enter_state s restart automatic p =
     (let previous = pstate p;
          p = p\<lparr> pstate := s \<rparr>;
          p = (if previous = STATESTOPPED \<and> s \<noteq> STATESTOPPED then clear_stopped_timer p else p)
      in case s of
        STATEIDLE \<Rightarrow>
          if previous \<noteq> STATEIDLE then
            res_map (\<lambda>p. if restart \<and> automatic then start_idle_hold_timer (automatic_restart p) else p)
              (release_resources (clear_all_timers p))
          else Inr p
      | STATESTOPPED \<Rightarrow>
          let p = (if previous \<noteq> STATESTOPPED then start_stopped_timer (clear_all_timers p) else p)
          in if previous = STATEESTABLISHED then
               (if handler p = None then Inl XlogAssert else Inr (p\<lparr> calls := calls p @ [Handler_stop] \<rparr>))
             else Inr p
      | STATEESTABLISHED \<Rightarrow> Inr (if previous \<noteq> STATEESTABLISHED then established p else p)
      | _ \<Rightarrow> Inr p)"

subsection \<open>Connecting\<close>

definition event_open :: "peer \<Rightarrow> peer res" where
  "event_open p = (if pstate p = STATECONNECT \<or> pstate p = STATEACTIVE then
       (if delay_open_time (pd p) \<noteq> 0
        then Inr (clear_connect_retry_timer (start_delay_open_timer p))
        else res_bind (send_open p) (\<lambda>p.
          let p = clear_connect_retry_timer p;
              p = start_hold_timer (p\<lparr> pd := (pd p)\<lparr> hold_duration := 4 * 60 \<rparr> \<rparr>)
          in enter_state STATEOPENSENT True True p))
     else Inl XlogFatal)"

definition event_openfail :: "peer \<Rightarrow> peer res" where
  "event_openfail p = (if pstate p = STATECONNECT then
       res_bind (if delay_open_time (pd p) = 0 then enter_state STATEIDLE False True p else Inr p)
         (\<lambda>p. enter_state STATEACTIVE True True (restart_connect_retry_timer p))
     else Inl XlogFatal)"

definition connect_to_peer_complete :: "bool \<Rightarrow> peer \<Rightarrow> peer res" where
  "connect_to_peer_complete success p = (if success then event_open p else event_openfail p)"

definition connect_to_peer :: "nat \<Rightarrow> connect_result \<Rightarrow> peer \<Rightarrow> peer res" where
  "connect_to_peer fd r p = res_bind (sc_connect fd r (sc p)) (\<lambda>(s, done).
     let p = p\<lparr> sc := s \<rparr> in
     case done of None \<Rightarrow> Inr p | Some success \<Rightarrow> connect_to_peer_complete success p)"

text \<open>The event loop's callback when a connect that was in progress ends.\<close>

definition connect_done :: "bool \<Rightarrow> peer \<Rightarrow> peer res" where
  "connect_done ok p = res_bind (connect_socket_complete ok (sc p)) (\<lambda>(s, success).
     connect_to_peer_complete success (p\<lparr> sc := s \<rparr>))"

definition event_start :: "nat \<Rightarrow> connect_result \<Rightarrow> peer \<Rightarrow> peer res" where
  "event_start fd r p =
     (let p = p\<lparr> pd := compute_peer_type (ld p) (pd p) \<rparr>;
          start = (\<lambda>p. res_bind (enter_state STATECONNECT True True (start_connect_retry_timer p))
                         (connect_to_peer fd r))
      in case pstate p of
        STATESTOPPED \<Rightarrow>
          res_bind (enter_state STATEIDLE False True (p\<lparr> sc := flush_transmit_queue (sc p) \<rparr>)) start
      | STATEIDLE \<Rightarrow> start p
      | _ \<Rightarrow> Inr p)"

definition set_state :: "nat \<Rightarrow> connect_result \<Rightarrow> fsm_state \<Rightarrow> bool \<Rightarrow> bool \<Rightarrow> peer \<Rightarrow> peer res" where
  "set_state fd r s restart automatic p =
     res_bind (enter_state s restart automatic p) (\<lambda>p'.
       if s = STATEIDLE \<and> pstate p \<noteq> STATEIDLE \<and> restart \<and> \<not> automatic then event_start fd r p' else Inr p')"

subsection \<open>The other events\<close>

definition notification :: "nat \<Rightarrow> notification_packet" where
  "notification code = NotificationPacket (of_nat code) 0 None"

text \<open>The sequence that ends a session: send a notification and wait in STOPPED.\<close>

definition notify_and_stop :: "notification_packet \<Rightarrow> peer \<Rightarrow> peer res" where
  "notify_and_stop np p = res_bind (send_notification np True True p) (enter_state STATESTOPPED True True)"

definition event_stop :: "nat \<Rightarrow> connect_result \<Rightarrow> bool \<Rightarrow> bool \<Rightarrow> peer \<Rightarrow> peer res" where
  "event_stop fd r restart automatic p = (case pstate p of
     STATEIDLE \<Rightarrow> Inr p
   | STATECONNECT \<Rightarrow> set_state fd r STATEIDLE restart automatic
       (clear_connect_retry_timer (p\<lparr> sc := connect_break (sc p) \<rparr>))
   | STATEACTIVE \<Rightarrow> set_state fd r STATEIDLE restart automatic p
   | STATESTOPPED \<Rightarrow> set_state fd r STATEIDLE restart automatic (p\<lparr> sc := flush_transmit_queue (sc p) \<rparr>)
   | _ \<Rightarrow> res_bind (send_notification (notification CEASE) restart automatic p)
            (set_state fd r STATESTOPPED restart automatic))"

definition event_closed :: "peer \<Rightarrow> peer res" where
  "event_closed p = (case pstate p of
     STATEIDLE \<Rightarrow> Inr p
   | STATECONNECT \<Rightarrow> enter_state STATEIDLE True True (clear_connect_retry_timer
       (if is_connected (sc p) then p\<lparr> sc := connect_break (sc p) \<rparr> else p))
   | STATEOPENSENT \<Rightarrow> res_bind (disconnect (sc p)) (\<lambda>s.
       enter_state STATEACTIVE True True (restart_connect_retry_timer (p\<lparr> sc := s \<rparr>)))
   | STATESTOPPED \<Rightarrow> enter_state STATEIDLE True True (p\<lparr> sc := flush_transmit_queue (sc p) \<rparr>)
   | _ \<Rightarrow> enter_state STATEIDLE True True p)"

definition event_tranfatal :: "peer \<Rightarrow> peer res" where
  "event_tranfatal p = (case pstate p of
     STATEIDLE \<Rightarrow> Inr p
   | STATESTOPPED \<Rightarrow> enter_state STATEIDLE True True (p\<lparr> sc := flush_transmit_queue (sc p) \<rparr>)
   | _ \<Rightarrow> enter_state STATEIDLE True True p)"

definition event_connexp :: "nat \<Rightarrow> connect_result \<Rightarrow> peer \<Rightarrow> peer res" where
  "event_connexp fd r p = (case pstate p of
     STATEIDLE \<Rightarrow> Inr p
   | STATESTOPPED \<Rightarrow> Inr p
   | STATECONNECT \<Rightarrow>
       (let p = restart_connect_retry_timer p in
        connect_to_peer fd r (p\<lparr> sc := connect_break (sc p) \<rparr>))
   | STATEACTIVE \<Rightarrow>
       res_bind (enter_state STATECONNECT True True (restart_connect_retry_timer p)) (connect_to_peer fd r)
   | _ \<Rightarrow> notify_and_stop (notification FSMERROR) p)"

definition event_holdexp :: "peer \<Rightarrow> peer res" where
  "event_holdexp p = (case pstate p of
     STATEIDLE \<Rightarrow> Inr p
   | STATESTOPPED \<Rightarrow> Inr p
   | STATECONNECT \<Rightarrow> enter_state STATEIDLE True True p
   | STATEACTIVE \<Rightarrow> enter_state STATEIDLE True True p
   | _ \<Rightarrow> notify_and_stop (notification HOLDTIMEEXP) p)"

definition event_keepexp :: "peer \<Rightarrow> peer res" where
  "event_keepexp p = (if pstate p = STATEOPENCONFIRM \<or> pstate p = STATEESTABLISHED
     then res_map fst (send_message Keepalive_msg (start_keepalive_timer p))
     else Inl XlogFatal)"

definition event_delay_open_exp :: "peer \<Rightarrow> peer res" where
  "event_delay_open_exp p =
     (if pstate p \<in> {STATEIDLE, STATESTOPPED, STATEOPENSENT, STATEESTABLISHED}
      then notify_and_stop (notification FSMERROR) p
      else res_bind (send_open p) (\<lambda>p.
        enter_state STATEOPENSENT True True
          (if pstate p = STATEACTIVE \<or> pstate p = STATECONNECT
           then start_hold_timer (p\<lparr> pd := (pd p)\<lparr> hold_duration := 4 * 60 \<rparr> \<rparr>) else p)))"

definition event_idle_hold_exp :: "nat \<Rightarrow> connect_result \<Rightarrow> peer \<Rightarrow> peer res" where
  "event_idle_hold_exp fd r p = (if pstate p \<noteq> STATEIDLE then Inl XlogAssert else event_start fd r p)"

definition notify_peer_of_error :: "nat \<Rightarrow> nat \<Rightarrow> u8 list \<Rightarrow> peer \<Rightarrow> peer res" where
  "notify_peer_of_error error subcode data p =
     (if is_connected (sc p)
      then notify_and_stop (NotificationPacket (of_nat error) (of_nat subcode) (Some data)) p
      else event_tranfatal p)"

text \<open>
  \<open>check_open_packet\<close> returns the peer data as it is when the check ends, and the exception, if
  one is thrown: the identifier is stored before the hold time is looked at.
\<close>

definition check_open_packet :: "open_packet \<Rightarrow> peer_data \<Rightarrow> peer_data \<times> xorp_error option" where
  "check_open_packet op d =
     (if Version op \<noteq> BGPVERSION
        then (d, Some (CorruptMessage OPENMSGERROR UNSUPVERNUM (embed_16 (ucast BGPVERSION))))
      else if op_as op \<noteq> pd_as d then (d, Some (CorruptMessage OPENMSGERROR BADASPEER []))
      else if \<not> is_unicast (op_id op) \<or> is_zero (op_id op)
        then (d, Some (CorruptMessage OPENMSGERROR BADBGPIDENT []))
      else let d = d\<lparr> pd_id := op_id op \<rparr>; hold_secs = HoldTime op in
        if hold_secs = 1 \<or> hold_secs = 2
          then (d, Some (CorruptMessage OPENMSGERROR UNACCEPTHOLDTIME []))
        else let hold_secs = (if configured_hold_time d < hold_secs then configured_hold_time d else hold_secs) in
          (d\<lparr> hold_duration := ucast hold_secs, keepalive_duration := ucast (hold_secs div 3) \<rparr>, None))"

definition process_open :: "open_packet \<Rightarrow> peer \<Rightarrow> peer res" where
  "process_open op p = (case check_open_packet op (pd p) of
     (d, Some (CorruptMessage error subcode data)) \<Rightarrow> notify_peer_of_error error subcode data (p\<lparr> pd := d \<rparr>)
   | (d, Some e) \<Rightarrow> Inl e
   | (d, None) \<Rightarrow> res_bind (send_message Keepalive_msg (p\<lparr> pd := d \<rparr>)) (\<lambda>(p, _).
       let p = start_hold_timer (start_keepalive_timer (clear_all_timers p));
           p = p\<lparr> pd := open_negotiation (ld p) (save_parameters (parameter_list op) (pd p)) \<rparr>
       in enter_state STATEOPENCONFIRM True True p))"

definition event_openmess :: "open_packet \<Rightarrow> peer \<Rightarrow> peer res" where
  "event_openmess op p = (case pstate p of
     STATECONNECT \<Rightarrow> res_bind (send_open (clear_delay_open_timer p)) (process_open op)
   | STATEACTIVE \<Rightarrow> res_bind (send_open (clear_delay_open_timer p)) (process_open op)
   | STATEOPENSENT \<Rightarrow> process_open op p
   | STATESTOPPED \<Rightarrow> Inr p
   | _ \<Rightarrow> notify_peer_of_error FSMERROR UNSPECIFIED [] p)"

definition event_keepmess :: "peer \<Rightarrow> peer res" where
  "event_keepmess p = (case pstate p of
     STATESTOPPED \<Rightarrow> Inr p
   | STATEOPENSENT \<Rightarrow> notify_and_stop (notification FSMERROR) p
   | STATEOPENCONFIRM \<Rightarrow> res_map restart_hold_timer (enter_state STATEESTABLISHED True True p)
   | STATEESTABLISHED \<Rightarrow> Inr (restart_hold_timer p)
   | _ \<Rightarrow> Inl XlogFatal)"

text \<open>
  \<open>prefix_count\<close> is the number of prefixes that the handler holds of this peer. With no handler
  the prefix limit is a use of a null pointer, and the update fails an assertion.
\<close>

definition event_recvupdate :: "nat \<Rightarrow> update_packet \<Rightarrow> peer \<Rightarrow> peer res" where
  "event_recvupdate prefix_count u p = (case pstate p of
     STATESTOPPED \<Rightarrow> Inr p
   | STATEESTABLISHED \<Rightarrow>
       (let p = restart_hold_timer p; (limit, enabled) = prefix_limit (pd p) in
        if enabled \<and> handler p = None then Inl Abort
        else if enabled \<and> prefix_count + nlri_count u > unat limit
          then notify_and_stop (notification CEASE) p
        else if handler p = None then Inl XlogAssert
        else let nh = next_hop_rewrite (pd p);
                 u = (if \<not> is_zero nh \<and> nexthop_att u \<noteq> None then u\<lparr> nexthop_att := Some nh \<rparr> else u)
             in Inr (p\<lparr> calls := calls p @ [Process_update u] \<rparr>))
   | _ \<Rightarrow> notify_and_stop (notification FSMERROR) p)"

definition event_recvnotify :: "notification_packet \<Rightarrow> peer \<Rightarrow> peer res" where
  "event_recvnotify np p =
     (let p = p\<lparr> last_error := (error_code np, error_subcode np) \<rparr> in
      case pstate p of
        STATEIDLE \<Rightarrow> Inl XlogFatal
      | STATESTOPPED \<Rightarrow> Inr p
      | _ \<Rightarrow> enter_state STATEIDLE True True p)"

definition event_open_sock :: "nat \<Rightarrow> peer \<Rightarrow> peer res" where
  "event_open_sock fd p =
     (if pstate p = STATECONNECT \<or> pstate p = STATEACTIVE then
        res_bind (connected fd (if pstate p = STATECONNECT then connect_break (sc p) else sc p)) (\<lambda>s.
          event_open (p\<lparr> sc := s \<rparr>))
      else Inr p)"

definition hook_stopped :: "peer \<Rightarrow> peer res" where
  "hook_stopped p = (if pstate p \<noteq> STATESTOPPED then Inl XlogAssert else enter_state STATEIDLE True True p)"

definition swap_sockets :: "socket_client \<Rightarrow> peer \<Rightarrow> (peer \<times> socket_client) res" where
  "swap_sockets new_sock p =
     (if pstate p \<notin> {STATEACTIVE, STATECONNECT, STATEOPENSENT, STATEOPENCONFIRM} then Inl XlogAssert
      else res_bind (enter_state STATEACTIVE True True (p\<lparr> sc := new_sock \<rparr>)) (\<lambda>p'.
        res_map (\<lambda>p'. (p', sc p)) (event_open p')))"

subsection \<open>Completion of writes\<close>

datatype write_event = DATA | FLUSHING | ERROR

definition send_message_complete :: "write_event \<Rightarrow> peer \<Rightarrow> peer res" where
  "send_message_complete ev p = (case ev of
     DATA \<Rightarrow>
       if output_queue_was_busy p then
         res_map (\<lambda>busy.
           if busy then p
           else let p = p\<lparr> output_queue_was_busy := False \<rparr> in
             if handler p \<noteq> None then p\<lparr> calls := calls p @ [No_longer_busy] \<rparr> else p)
           (output_queue_busy (sc p))
       else Inr p
   | FLUSHING \<Rightarrow> Inr p
   | ERROR \<Rightarrow> event_closed p)"

definition send_notification_complete :: "nat \<Rightarrow> connect_result \<Rightarrow> write_event \<Rightarrow> bool \<Rightarrow> bool \<Rightarrow> peer \<Rightarrow> peer res" where
  "send_notification_complete fd r ev restart automatic p = (case ev of
     DATA \<Rightarrow> if pstate p \<noteq> STATESTOPPED then Inl XlogAssert else set_state fd r STATEIDLE restart True p
   | FLUSHING \<Rightarrow> Inr p
   | ERROR \<Rightarrow> if pstate p \<noteq> STATESTOPPED then Inl XlogAssert else set_state fd r STATEIDLE restart automatic p)"

text \<open>
  The writer reports the buffer at the head of its queue: it is taken off before \<open>DATA\<close> is
  dispatched and stays in the queue when \<open>ERROR\<close> is.
\<close>

definition write_complete :: "nat \<Rightarrow> connect_result \<Rightarrow> write_event \<Rightarrow> peer \<Rightarrow> peer res" where
  "write_complete fd r ev p = (case writer (sc p) of
     Some ((buf, cb) # q) \<Rightarrow>
       (let p = (if ev = DATA then p\<lparr> sc := (sc p)\<lparr> writer := Some q \<rparr> \<rparr> else p) in
        case cb of
          send_message_cb \<Rightarrow> send_message_complete ev p
        | send_notification_cb restart automatic \<Rightarrow> send_notification_complete fd r ev restart automatic p
        | accept_notification_cb \<Rightarrow> Inr p)
   | _ \<Rightarrow> Inr p)"

subsection \<open>Receiving\<close>

text \<open>
  What the decoder of an UPDATE message makes of its bytes: a packet, the exception
  \<open>CorruptMessage\<close> with its codes and data, or the exception \<open>UnusableMessage\<close>.
\<close>

datatype update_result = Update_ok update_packet | Update_corrupt nat nat "u8 list" | Update_unusable

text \<open>
  The body of the \<open>try\<close> block of \<open>get_message\<close>: the decoders may throw \<open>CorruptMessage\<close>, which is
  handled with the state at that point; the events themselves do not throw it.
\<close>

definition catch_corrupt :: "'a res \<Rightarrow> (nat \<Rightarrow> nat \<Rightarrow> u8 list \<Rightarrow> 'b res) \<Rightarrow> ('a \<Rightarrow> 'b res) \<Rightarrow> 'b res" where
  "catch_corrupt m handle f = (case m of
     Inl (CorruptMessage error subcode data) \<Rightarrow> handle error subcode data
   | Inl e \<Rightarrow> Inl e
   | Inr x \<Rightarrow> f x)"

definition get_message :: "(u8 list \<Rightarrow> update_result) \<Rightarrow> nat \<Rightarrow> packet_status \<Rightarrow> u8 list \<Rightarrow> peer \<Rightarrow> (peer \<times> bool) res" where
  "get_message decode_update prefix_count status buf p =
     (let corrupt = (\<lambda>p error subcode data. res_map (\<lambda>p. (p, False)) (notify_peer_of_error error subcode data p));
          finish = res_map (\<lambda>p. (p, is_connected (sc p) \<and> still_reading (sc p)))
      in case status of
        ILLEGAL_MESSAGE_LENGTH \<Rightarrow> corrupt p MSGHEADERERR BADMESSLEN (take 2 (drop MARKER_SIZE buf))
      | CONNECTION_CLOSED \<Rightarrow> res_map (\<lambda>p. (p, False)) (event_closed p)
      | GOOD_MESSAGE \<Rightarrow>
          (let p = p\<lparr> in_total_messages := in_total_messages p + 1 \<rparr>; type = buf ! TYPE_OFFSET in
           if take MARKER_SIZE buf \<noteq> Marker then corrupt p MSGHEADERERR CONNNOTSYNC []
           else if type = MESSAGETYPEOPEN then
             catch_corrupt (open_decode buf (length buf)) (corrupt p) (\<lambda>op. finish (event_openmess op p))
           else if type = MESSAGETYPEKEEPALIVE then
             catch_corrupt (keepalive_decode buf (length buf)) (corrupt p) (\<lambda>_. finish (event_keepmess p))
           else if type = MESSAGETYPEUPDATE then
             (let p = p\<lparr> in_updates := in_updates p + 1 \<rparr> in
              case decode_update buf of
                Update_ok u \<Rightarrow> finish (event_recvupdate prefix_count u p)
              | Update_corrupt error subcode data \<Rightarrow> corrupt p error subcode data
              | Update_unusable \<Rightarrow> finish (Inr p))
           else if type = MESSAGETYPENOTIFICATION then
             catch_corrupt (notification_decode buf (length buf)) (corrupt p) (\<lambda>np. finish (event_recvnotify np p))
           else corrupt p MSGHEADERERR BADMESSTYPE [type]))"

definition send_update_message :: "u8 list option \<Rightarrow> peer \<Rightarrow> (peer \<times> output_state) res" where
  "send_update_message bs p =
     (if pstate p \<noteq> STATEESTABLISHED then Inl Abort else send_message (Update_msg bs) p)"

subsection \<open>Commands\<close>

text \<open>\<open>enable_peer\<close>, \<open>disable_peer\<close> and \<open>bounce_peer\<close> of \<open>BGPMain\<close>, and \<open>all_stop\<close> of \<open>BGPPeerList\<close> on one peer.\<close>

definition enable_peer :: "nat \<Rightarrow> connect_result \<Rightarrow> peer \<Rightarrow> peer res" where
  "enable_peer fd r p = res_map (\<lambda>p. p\<lparr> current_peer_state := True \<rparr>) (event_start fd r (clear_last_error p))"

definition disable_peer :: "nat \<Rightarrow> connect_result \<Rightarrow> peer \<Rightarrow> peer res" where
  "disable_peer fd r p = res_map (\<lambda>p. p\<lparr> current_peer_state := False \<rparr>) (event_stop fd r False False p)"

definition bounce_peer :: "nat \<Rightarrow> connect_result \<Rightarrow> peer \<Rightarrow> peer res" where
  "bounce_peer fd r p = (if current_peer_state p \<and> pstate p = STATEIDLE
     then event_start fd r p else event_stop fd r True False p)"

definition stop_one :: "nat \<Rightarrow> connect_result \<Rightarrow> bool \<Rightarrow> peer \<Rightarrow> peer res" where
  "stop_one fd r restart p = res_bind (event_stop fd r restart False p) (\<lambda>p.
     if restart \<and> current_peer_state p \<and> pstate p = STATEIDLE then event_start fd r p else Inr p)"

end
