(* ===== verification/Accept_FSM.thy ===== *)
theory Accept_FSM
  imports Peer_FSM
begin

text \<open>
  The second state machine of a peering (\<open>class AcceptSession\<close> of \<open>bgp/peer.hh\<close>, \<open>bgp/peer.cc\<close>, and
  \<open>BGPPeer::connected\<close>). A session is the second, small state machine that holds
  an incoming connection until it is given to the peer, refused, or ended with a CEASE. An
  operation acts on the session and on the peer; the session in its result is \<open>None\<close> once it has
  removed itself, and the assertions of its destructor are checked at that point.
\<close>

subsection \<open>State\<close>

record session =
  ac_sock :: "nat option"
  socket_client :: socket_client
  accept_messages :: bool
  open_wait :: "u32 option"

type_synonym outcome = "(session option \<times> peer) res"

definition AcceptSession :: "nat \<Rightarrow> session" where
  "AcceptSession fd = \<lparr> ac_sock = Some fd, socket_client = SocketClient, accept_messages = True, open_wait = None \<rparr>"

subsection \<open>Ending a session\<close>

definition remove_session :: "session \<Rightarrow> peer \<Rightarrow> outcome" where
  "remove_session a p =
     (if ac_sock a \<noteq> None \<or> is_connected (socket_client a) \<or> open_wait a \<noteq> None then Inl XlogAssert
      else Inr (None, p))"

text \<open>
  \<open>_socket_client->disconnect()\<close> flushes the writer. A CEASE that is still in the queue runs
  \<open>send_notification_cb\<close> with \<open>FLUSHING\<close> from inside: its own \<open>disconnect\<close> returns at once, and its
  \<open>remove\<close> deletes the session before the socket is closed.
\<close>

definition session_disconnect :: "session \<Rightarrow> peer \<Rightarrow> session res" where
  "session_disconnect a p =
     (if sock (socket_client a) = None then Inl XlogAssert
      else if (case writer (socket_client a) of
          Some q \<Rightarrow> list_ex (\<lambda>b. snd b = accept_notification_cb) q | None \<Rightarrow> False)
        then res_bind (remove_session a p) (\<lambda>_. Inl DanglingIterator)
      else res_map (\<lambda>s. a\<lparr> socket_client := s \<rparr>) (disconnect (socket_client a)))"

definition disconnect_and_remove :: "session \<Rightarrow> peer \<Rightarrow> outcome" where
  "disconnect_and_remove a p = res_bind (session_disconnect a p) (\<lambda>a. remove_session a p)"

definition send_notification_accept :: "notification_packet \<Rightarrow> session \<Rightarrow> peer \<Rightarrow> outcome" where
  "send_notification_accept np a p =
     (let a = a\<lparr> accept_messages := False \<rparr> in
      res_bind (case ac_sock a of
          Some fd \<Rightarrow> res_map (\<lambda>s. a\<lparr> socket_client := s, ac_sock := None \<rparr>) (connected fd (socket_client a))
        | None \<Rightarrow> Inr a) (\<lambda>a.
      let a = a\<lparr> socket_client := stop_reader (socket_client a) \<rparr> in
      res_bind (encode_packet (Notification_msg np)) (\<lambda>buf.
      res_bind (sc_send_message buf accept_notification_cb (socket_client a)) (\<lambda>(s, ret).
        let a = a\<lparr> socket_client := s \<rparr> in
        if ret then Inr (Some a, p) else remove_session a p))))"

text \<open>
  The writer reports the buffer at the head of its queue, as in \<open>write_complete\<close>. A socket that
  was taken over from the peer by a swap still has the buffers of the peer in its queue, whose
  completion routines are those of the peer.
\<close>

definition accept_written :: "nat \<Rightarrow> connect_result \<Rightarrow> write_event \<Rightarrow> session \<Rightarrow> peer \<Rightarrow> outcome" where
  "accept_written fd r ev a p = (case writer (socket_client a) of
     Some ((buf, cb) # q) \<Rightarrow>
       (let a = (if ev = DATA then a\<lparr> socket_client := (socket_client a)\<lparr> writer := Some q \<rparr> \<rparr> else a) in
        case cb of
          accept_notification_cb \<Rightarrow> disconnect_and_remove a p
        | send_message_cb \<Rightarrow> res_map (\<lambda>p. (Some a, p)) (send_message_complete ev p)
        | send_notification_cb restart automatic \<Rightarrow>
            res_map (\<lambda>p. (Some a, p)) (send_notification_complete fd r ev restart automatic p))
   | _ \<Rightarrow> Inr (Some a, p))"

definition cease :: "session \<Rightarrow> peer \<Rightarrow> outcome" where
  "cease a p = send_notification_accept (notification CEASE) a p"

definition no_open_received :: "session \<Rightarrow> peer \<Rightarrow> outcome" where
  "no_open_received a p = cease a p"

subsection \<open>Collisions\<close>

definition accept_swap_sockets :: "session \<Rightarrow> peer \<Rightarrow> (session \<times> peer) res" where
  "accept_swap_sockets a p =
     res_bind (case ac_sock a of
         Some fd \<Rightarrow> res_map (\<lambda>s. a\<lparr> socket_client := s, ac_sock := None \<rparr>) (connected fd (socket_client a))
       | None \<Rightarrow> Inr a) (\<lambda>a.
     res_map (\<lambda>(p, old). (a\<lparr> socket_client := old \<rparr>, p)) (swap_sockets (socket_client a) p))"

text \<open>The received OPEN is encoded again and given to \<open>get_message\<close> of the peer.\<close>

definition swap_sockets_open :: "(u8 list \<Rightarrow> update_result) \<Rightarrow> open_packet \<Rightarrow> session \<Rightarrow> peer \<Rightarrow> (session \<times> peer) res" where
  "swap_sockets_open upd op a p =
     res_bind (accept_swap_sockets a p) (\<lambda>(a, p).
     res_bind (encode_packet (Open_msg op)) (\<lambda>buf.
       res_map (\<lambda>(p, _). (a, p)) (get_message upd 0 GOOD_MESSAGE buf p)))"

definition collision :: "session \<Rightarrow> peer \<Rightarrow> outcome" where
  "collision a p =
     res_bind (if get_id (ld p) < pd_id (pd p) then accept_swap_sockets a p else Inr (a, p)) (\<lambda>(a, p). cease a p)"

definition accept_start :: "session \<Rightarrow> peer \<Rightarrow> outcome" where
  "accept_start a p = (case ac_sock a of
     None \<Rightarrow> Inr (Some a, p)
   | Some fd \<Rightarrow> (case pstate p of
       STATEIDLE \<Rightarrow> remove_session (a\<lparr> ac_sock := None \<rparr>) p
     | STATEOPENSENT \<Rightarrow>
         (let hold = (if hold_duration (pd p) = 0 then 4 * 60 else hold_duration (pd p)) in
          res_map (\<lambda>s. (Some (a\<lparr> open_wait := Some hold, socket_client := s, ac_sock := None \<rparr>), p))
            (connected fd (socket_client a)))
     | STATEOPENCONFIRM \<Rightarrow> collision a p
     | STATEESTABLISHED \<Rightarrow> cease a p
     | _ \<Rightarrow> res_bind (event_open_sock fd p) (remove_session (a\<lparr> ac_sock := None \<rparr>))))"

text \<open>\<open>BGPPeer::connected\<close>: a simultaneous open is ignored, any other connection gets a session.\<close>

definition peer_connected :: "nat \<Rightarrow> peer \<Rightarrow> outcome" where
  "peer_connected fd p = (if sock (sc p) = Some fd then Inr (None, p) else accept_start (AcceptSession fd) p)"

subsection \<open>Messages on the incoming connection\<close>

definition event_openmess_accept :: "(u8 list \<Rightarrow> update_result) \<Rightarrow> open_packet \<Rightarrow> session \<Rightarrow> peer \<Rightarrow> outcome" where
  "event_openmess_accept upd op a p =
     (let compare = res_bind (if get_id (ld p) < op_id op then swap_sockets_open upd op a p else Inr (a, p)) (\<lambda>(a, p).
            if ac_sock a \<noteq> None then Inl XlogAssert else cease a p)
      in case pstate p of
        STATEIDLE \<Rightarrow> disconnect_and_remove a p
      | STATEACTIVE \<Rightarrow> res_bind (swap_sockets_open upd op a p) (\<lambda>(a, p). remove_session a p)
      | STATEESTABLISHED \<Rightarrow> cease a p
      | STATESTOPPED \<Rightarrow> res_bind (swap_sockets_open upd op a p) (\<lambda>(a, p).
          if sock (socket_client a) \<noteq> None then Inl XlogAssert else remove_session a p)
      | _ \<Rightarrow> compare)"

definition notify_peer_of_error_accept :: "nat \<Rightarrow> nat \<Rightarrow> u8 list \<Rightarrow> session \<Rightarrow> peer \<Rightarrow> outcome" where
  "notify_peer_of_error_accept error subcode data a p =
     (if is_connected (socket_client a)
      then send_notification_accept (NotificationPacket (of_nat error) (of_nat subcode) (Some data)) a p
      else Inr (Some a, p))"

definition event_closed_accept :: "session \<Rightarrow> peer \<Rightarrow> outcome" where
  "event_closed_accept a p = disconnect_and_remove a p"

definition event_keepmess_accept :: "session \<Rightarrow> peer \<Rightarrow> outcome" where
  "event_keepmess_accept a p = cease a p"

definition event_recvupdate_accept :: "session \<Rightarrow> peer \<Rightarrow> outcome" where
  "event_recvupdate_accept a p = cease a p"

definition event_recvnotify_accept :: "session \<Rightarrow> peer \<Rightarrow> outcome" where
  "event_recvnotify_accept a p = disconnect_and_remove a p"

definition get_message_accept :: "(u8 list \<Rightarrow> update_result) \<Rightarrow> packet_status \<Rightarrow> u8 list \<Rightarrow> session \<Rightarrow> peer \<Rightarrow> outcome" where
  "get_message_accept upd status buf a p =
     (let a = a\<lparr> open_wait := None \<rparr>;
          corrupt = (\<lambda>error subcode data. notify_peer_of_error_accept error subcode data a p)
      in if \<not> accept_messages a then Inr (Some a, p)
      else case status of
        ILLEGAL_MESSAGE_LENGTH \<Rightarrow> corrupt MSGHEADERERR BADMESSLEN (take 2 (drop MARKER_SIZE buf))
      | CONNECTION_CLOSED \<Rightarrow> event_closed_accept a p
      | GOOD_MESSAGE \<Rightarrow>
          (let type = buf ! TYPE_OFFSET in
           if take MARKER_SIZE buf \<noteq> Marker then corrupt MSGHEADERERR CONNNOTSYNC []
           else if type = MESSAGETYPEOPEN then
             catch_corrupt (open_decode buf (length buf)) corrupt (\<lambda>op. event_openmess_accept upd op a p)
           else if type = MESSAGETYPEKEEPALIVE then
             catch_corrupt (keepalive_decode buf (length buf)) corrupt (\<lambda>_. event_keepmess_accept a p)
           else if type = MESSAGETYPEUPDATE then
             (case upd buf of
                Update_ok u \<Rightarrow> event_recvupdate_accept a p
              | Update_corrupt error subcode data \<Rightarrow> corrupt error subcode data
              | Update_unusable \<Rightarrow> Inr (Some a, p))
           else if type = MESSAGETYPENOTIFICATION then
             catch_corrupt (notification_decode buf (length buf)) corrupt (\<lambda>np. event_recvnotify_accept a p)
           else corrupt MSGHEADERERR BADMESSTYPE [type]))"

end
