(* ===== verification/Peer_Safety.thy ===== *)
theory Peer_Safety
  imports Peer_FSM
begin

text \<open>
  What the state machine of a peering keeps true (\<open>bgp/peer.cc\<close>): the invariant \<open>peer_inv\<close> that ties
  the connection, the timers and the handler to the state, and one lemma per event that it is
  handled without a failing assertion and keeps the invariant, when open messages are not delayed
  and the event is \<open>benign\<close>. The runs are in \<open>Peer_Runs\<close>.
\<close>

subsection \<open>The invariant\<close>

lemmas timer_defs = start_connect_retry_timer_def clear_connect_retry_timer_def restart_connect_retry_timer_def
  start_hold_timer_def clear_hold_timer_def restart_hold_timer_def start_keepalive_timer_def
  clear_keepalive_timer_def start_stopped_timer_def clear_stopped_timer_def start_idle_hold_timer_def
  clear_idle_hold_timer_def start_delay_open_timer_def clear_delay_open_timer_def

lemma clear_all_timers_eq:
  "clear_all_timers p = p\<lparr> t_connect_retry := None, t_hold := None, t_keepalive := None, t_stopped := None,
     t_delay_open := None, t_idle_hold := if damping_peer_oscillations p then None else t_idle_hold p \<rparr>"
  by (cases "damping_peer_oscillations p") (simp_all add: timer_defs clear_all_timers_def)

lemmas damp_defs = automatic_restart_def damp_restart_def idle_holdtime_def

lemmas socket_defs = SocketClient_def is_connected_def still_reading_def close_socket_def create_socket_def
  flush_transmit_queue_def async_remove_reader_def stop_reader_def async_remove_def async_add_def
  disconnect_def connect_socket_break_def connect_break_def connected_def connect_socket_complete_def
  connect_socket_def sc_connect_def sc_send_message_def output_queue_busy_def

text \<open>What the connection looks like in each state.\<close>

definition no_link :: "socket_client \<Rightarrow> bool" where
  "no_link s \<longleftrightarrow> s = SocketClient"

definition pending_link :: "socket_client \<Rightarrow> bool" where
  "pending_link s \<longleftrightarrow> sock s \<noteq> None \<and> connecting s \<and> \<not> reader s \<and> writer s = None"

definition live_link :: "socket_client \<Rightarrow> bool" where
  "live_link s \<longleftrightarrow> sock s \<noteq> None \<and> \<not> connecting s \<and> reader s
     \<and> (\<exists>q. writer s = Some q \<and> list_all (\<lambda>b. snd b = send_message_cb) q)"

fun is_notification_cb :: "send_callback \<Rightarrow> bool" where
  "is_notification_cb (send_notification_cb _ _) = True"
| "is_notification_cb _ = False"

definition closing_link :: "socket_client \<Rightarrow> bool" where
  "closing_link s \<longleftrightarrow> sock s \<noteq> None \<and> \<not> connecting s \<and> \<not> reader s
     \<and> (\<exists>q. writer s = Some q \<and> list_all (\<lambda>b. is_notification_cb (snd b)) q)"

fun link_ok :: "fsm_state \<Rightarrow> socket_client \<Rightarrow> bool" where
  "link_ok STATEIDLE s = no_link s"
| "link_ok STATEACTIVE s = no_link s"
| "link_ok STATECONNECT s = pending_link s"
| "link_ok STATEOPENSENT s = live_link s"
| "link_ok STATEOPENCONFIRM s = live_link s"
| "link_ok STATEESTABLISHED s = live_link s"
| "link_ok STATESTOPPED s = closing_link s"

lemmas link_defs = no_link_def pending_link_def live_link_def closing_link_def

definition timers_ok :: "peer \<Rightarrow> bool" where
  "timers_ok p \<longleftrightarrow>
     (t_connect_retry p = None \<longleftrightarrow> pstate p \<noteq> STATECONNECT \<and> pstate p \<noteq> STATEACTIVE)
   \<and> (t_hold p = None \<or> pstate p \<noteq> STATEIDLE \<and> pstate p \<noteq> STATESTOPPED)
   \<and> (pstate p = STATEOPENSENT \<longrightarrow> t_hold p \<noteq> None)
   \<and> (t_keepalive p = None \<or> pstate p = STATEOPENCONFIRM \<or> pstate p = STATEESTABLISHED)
   \<and> (t_stopped p = None \<longleftrightarrow> pstate p \<noteq> STATESTOPPED)
   \<and> (t_idle_hold p = None \<or> pstate p = STATEIDLE \<and> fst (the (t_idle_hold p)) = Idle_hold_exp)"

definition handler_ok :: "peer \<Rightarrow> bool" where
  "handler_ok p \<longleftrightarrow> (pstate p = STATEESTABLISHED \<longrightarrow> handler p = Some True)
     \<and> (handler p = Some True \<longrightarrow> pstate p = STATEESTABLISHED \<or> pstate p = STATESTOPPED)"

definition config_ok :: "peer \<Rightarrow> bool" where
  "config_ok p \<longleftrightarrow> delay_open_time (pd p) = 0 \<and> damping_peer_oscillations p
     \<and> list_all sendable (sent_parameters (pd p)) \<and> wire_length (sent_parameters (pd p)) \<le> 255"

definition peer_inv :: "peer \<Rightarrow> bool" where
  "peer_inv p \<longleftrightarrow> link_ok (pstate p) (sc p) \<and> timers_ok p \<and> handler_ok p \<and> config_ok p"

subsection \<open>Messages that are sent\<close>

text \<open>\<open>p'\<close> is \<open>p\<close> after some messages were put into the queue of a live connection.\<close>

definition queued :: "peer \<Rightarrow> peer \<Rightarrow> bool" where
  "queued p p' \<longleftrightarrow> (\<exists>q b n m. p' = p\<lparr> sc := (sc p)\<lparr> writer := Some q \<rparr>, output_queue_was_busy := b,
     out_total_messages := n, out_updates := m \<rparr> \<and> list_all (\<lambda>b. snd b = send_message_cb) q)"

lemma queuedI:
  assumes "sc p' = (sc p)\<lparr> writer := Some q \<rparr>" "list_all (\<lambda>b. snd b = send_message_cb) q"
    and "p' = p\<lparr> sc := sc p', output_queue_was_busy := output_queue_was_busy p',
      out_total_messages := out_total_messages p', out_updates := out_updates p' \<rparr>"
  shows "queued p p'"
  unfolding queued_def
  by (intro exI conjI) (rule assms(3) [unfolded assms(1)], rule assms(2))

lemma send_message_queued:
  assumes "encode_packet m = Inr bs" "live_link (sc p)"
  shows "\<exists>p' st. send_message m p = Inr (p', st) \<and> queued p p'"
proof -
  obtain q where q: "writer (sc p) = Some q" "list_all (\<lambda>b. snd b = send_message_cb) q"
    and c: "is_connected (sc p)"
    using assms(2) by (auto simp: live_link_def is_connected_def)
  have "list_all (\<lambda>b. snd b = send_message_cb) (q @ [(bs, send_message_cb)])" using q(2) by simp
  note queuedI = queuedI [OF _ this]
  from assms(1) q(1) c show ?thesis
    by (cases m; cases "length q > 19")
      (auto simp: send_message_def Let_def sc_send_message_def output_queue_busy_def
        simp del: encode_packet.simps intro!: queuedI)
qed

lemma queued_fields:
  assumes "queued p p'"
  shows "pstate p' = pstate p" "pd p' = pd p" "ld p' = ld p" "handler p' = handler p"
    "t_connect_retry p' = t_connect_retry p" "t_hold p' = t_hold p" "t_keepalive p' = t_keepalive p"
    "t_idle_hold p' = t_idle_hold p" "t_stopped p' = t_stopped p"
    "damping_peer_oscillations p' = damping_peer_oscillations p"
  using assms by (auto simp: queued_def)

lemma queued_live: "queued p p' \<Longrightarrow> live_link (sc p) \<Longrightarrow> live_link (sc p')"
  by (auto simp: queued_def live_link_def)

lemma queued_config: "queued p p' \<Longrightarrow> config_ok p' = config_ok p"
  by (simp add: config_ok_def queued_fields)

lemma encode_keepalive: "\<exists>bs. encode_packet Keepalive_msg = Inr bs"
  by (simp add: keepalive_encode_def packet_sizes)

lemma encode_notification:
  assumes "length data \<le> 4075"
  shows "\<exists>bs. encode_packet (Notification_msg (NotificationPacket ec esc (Some data))) = Inr bs"
  using notification_decode_encode [OF refl, of ec esc "Some data" 4096] assms
  by (cases data) (auto simp: NotificationPacket_def packet_sizes)

lemma encode_code: "\<exists>bs. encode_packet (Notification_msg (notification code)) = Inr bs"
  using notification_decode_encode [OF refl, of "of_nat code" 0 None 4096]
  by (auto simp: notification_def NotificationPacket_def packet_sizes)

lemma fold_ignore: "fold (\<lambda>q op. if True \<and> is_cap_parameter q then op else open_add_parameter q op) qs op = op"
  by (induction qs) (simp_all add: is_cap_parameter_def)

lemma own_open_eq:
  "\<exists>qs. own_open p = make_open (my_AS_number (ld p) (pd p)) (get_id (ld p)) (configured_hold_time (pd p)) qs
     \<and> (qs = sent_parameters (pd p) \<or> qs = [])"
proof (cases "unat (fst (last_error p)) = OPENMSGERROR \<and> unat (snd (last_error p)) = UNSUPOPTPAR")
  case True
  then have "own_open p = make_open (my_AS_number (ld p) (pd p)) (get_id (ld p)) (configured_hold_time (pd p)) []"
    unfolding own_open_def generate_open_message_def Let_def make_open_def using fold_ignore by auto
  then show ?thesis by blast
next
  case False
  then show ?thesis
    by (auto simp: own_open_def generate_open_message_def Let_def make_open_def)
qed

lemma encode_own_open:
  assumes "config_ok p"
  shows "\<exists>bs. encode_packet (Open_msg (own_open p)) = Inr bs"
proof -
  obtain qs where "own_open p = make_open (my_AS_number (ld p) (pd p)) (get_id (ld p)) (configured_hold_time (pd p)) qs"
    and qs: "qs = sent_parameters (pd p) \<or> qs = []"
    using own_open_eq by blast
  moreover have "list_all sendable qs" "wire_length qs \<le> 255"
    using assms qs by (auto simp: config_ok_def)
  ultimately show ?thesis
    using open_encode_make_open [of qs 4096] by (auto simp: packet_sizes)
qed

lemma send_open_queued:
  assumes "config_ok p" "live_link (sc p)"
  shows "\<exists>p'. send_open p = Inr p' \<and> queued p p'"
  using encode_own_open [OF assms(1)] send_message_queued [OF _ assms(2)]
  unfolding send_open_def by fastforce

lemma send_keepalive_queued:
  assumes "live_link (sc p)"
  shows "\<exists>p' st. send_message Keepalive_msg p = Inr (p', st) \<and> queued p p'"
  using encode_keepalive send_message_queued [OF _ assms] by blast

lemma send_notification_closing:
  assumes "encode_packet (Notification_msg np) = Inr bs" "live_link (sc p)"
  shows "\<exists>s. send_notification np restart automatic p = Inr (p\<lparr> sc := s \<rparr>) \<and> closing_link s"
proof -
  let ?s = "(sc p)\<lparr> reader := False, writer := Some [(bs, send_notification_cb restart automatic)] \<rparr>"
  have "send_notification np restart automatic p = Inr (p\<lparr> sc := ?s \<rparr>)"
    using assms by (auto simp: send_notification_def Let_def live_link_def socket_defs simp del: encode_packet.simps)
  moreover have "closing_link ?s" using assms(2) by (auto simp: live_link_def closing_link_def)
  ultimately show ?thesis by blast
qed

subsection \<open>Entering a state\<close>

definition same_timers :: "peer \<Rightarrow> peer \<Rightarrow> bool" where
  "same_timers p p' \<longleftrightarrow> t_connect_retry p' = t_connect_retry p \<and> t_hold p' = t_hold p
     \<and> t_keepalive p' = t_keepalive p \<and> t_idle_hold p' = t_idle_hold p \<and> t_stopped p' = t_stopped p"

lemma not_connected_SocketClient [simp]: "\<not> is_connected SocketClient"
  by (simp add: SocketClient_def is_connected_def)

lemma disconnect_link:
  assumes "live_link s \<or> closing_link s"
  shows "is_connected s \<and> disconnect s = Inr SocketClient"
proof -
  from assms have s: "sock s \<noteq> None" "\<not> connecting s" by (auto simp: link_defs)
  moreover from s(2) have "close_socket (async_remove s) = SocketClient"
    by (simp add: close_socket_def async_remove_def async_remove_reader_def SocketClient_def)
  ultimately show ?thesis by (simp add: is_connected_def disconnect_def)
qed

lemma release_resources_ok:
  assumes "no_link (sc p) \<or> live_link (sc p) \<or> closing_link (sc p)"
  shows "\<exists>p'. release_resources p = Inr p' \<and> no_link (sc p') \<and> handler p' \<noteq> Some True \<and> pstate p' = pstate p
    \<and> same_timers p p' \<and> pd p' = pd p \<and> ld p' = ld p
    \<and> damping_peer_oscillations p' = damping_peer_oscillations p"
proof -
  have "(if is_connected (sc p) then disconnect (sc p) else Inr (sc p)) = Inr SocketClient"
    using assms disconnect_link [of "sc p"] by (auto simp: no_link_def)
  then show ?thesis
    by (cases "handler p = Some True"; cases "is_connected (sc p)") (simp_all add: release_resources_def Let_def no_link_def same_timers_def)
qed

lemma idle_timers:
  assumes "damping_peer_oscillations p"
  shows "t_idle_hold (start_idle_hold_timer (automatic_restart p)) = Some (Idle_hold_exp, idle_holdtime (automatic_restart p))"
    and "sc (start_idle_hold_timer (automatic_restart p)) = sc p"
    and "pstate (start_idle_hold_timer (automatic_restart p)) = pstate p"
    and "handler (start_idle_hold_timer (automatic_restart p)) = handler p"
    and "pd (start_idle_hold_timer (automatic_restart p)) = pd p"
    and "ld (start_idle_hold_timer (automatic_restart p)) = ld p"
    and "damping_peer_oscillations (start_idle_hold_timer (automatic_restart p)) = damping_peer_oscillations p"
    and "t_connect_retry (start_idle_hold_timer (automatic_restart p)) = t_connect_retry p"
    and "t_hold (start_idle_hold_timer (automatic_restart p)) = t_hold p"
    and "t_keepalive (start_idle_hold_timer (automatic_restart p)) = t_keepalive p"
    and "t_stopped (start_idle_hold_timer (automatic_restart p)) = t_stopped p"
  using assms by (simp_all add: start_idle_hold_timer_def automatic_restart_def damp_restart_def)

lemma enter_idle:
  assumes "pstate p \<noteq> STATEIDLE" "config_ok p" "no_link (sc p) \<or> live_link (sc p) \<or> closing_link (sc p)"
  shows "\<exists>p'. enter_state STATEIDLE restart automatic p = Inr p' \<and> peer_inv p' \<and> pstate p' = STATEIDLE
    \<and> pd p' = pd p \<and> ld p' = ld p \<and> (t_idle_hold p' = None \<longleftrightarrow> \<not> (restart \<and> automatic))"
proof -
  let ?p = "clear_all_timers (p\<lparr> pstate := STATEIDLE, t_stopped := None \<rparr>)"
  have damping: "damping_peer_oscillations p" using assms(2) by (simp add: config_ok_def)
  have fields: "sc ?p = sc p" "pstate ?p = STATEIDLE" "pd ?p = pd p" "ld ?p = ld p"
      "damping_peer_oscillations ?p"
      "t_connect_retry ?p = None" "t_hold ?p = None" "t_keepalive ?p = None" "t_idle_hold ?p = None" "t_stopped ?p = None"
    using damping by (simp_all add: clear_all_timers_eq)
  have cleared: "clear_all_timers (if pstate p = STATESTOPPED then clear_stopped_timer (p\<lparr> pstate := STATEIDLE \<rparr>)
      else p\<lparr> pstate := STATEIDLE \<rparr>) = ?p"
    by (cases "pstate p = STATESTOPPED") (simp_all add: clear_all_timers_eq clear_stopped_timer_def)
  obtain p1 where p1: "release_resources ?p = Inr p1" "no_link (sc p1)" "handler p1 \<noteq> Some True"
      "pstate p1 = STATEIDLE" "same_timers ?p p1" "pd p1 = pd p" "ld p1 = ld p" "damping_peer_oscillations p1"
    using release_resources_ok [of ?p, unfolded fields, OF assms(3)] by (elim exE conjE) (simp add: fields(5))
  have enter: "enter_state STATEIDLE restart automatic p
      = Inr (if restart \<and> automatic then start_idle_hold_timer (automatic_restart p1) else p1)"
    using assms(1) p1(1) by (simp add: enter_state_def cleared)
  have t: "t_connect_retry p1 = None" "t_hold p1 = None" "t_keepalive p1 = None" "t_idle_hold p1 = None" "t_stopped p1 = None"
    using p1(5) unfolding same_timers_def fields by simp_all
  show ?thesis
    using p1 t assms(2) unfolding enter
    by (cases "restart \<and> automatic")
      (simp_all add: peer_inv_def timers_ok_def handler_ok_def config_ok_def idle_timers)
qed

lemma enter_stopped:
  assumes "pstate p \<noteq> STATESTOPPED" "config_ok p" "closing_link (sc p)"
    and "pstate p = STATEESTABLISHED \<longrightarrow> handler p = Some True"
  shows "\<exists>p'. enter_state STATESTOPPED restart automatic p = Inr p' \<and> peer_inv p' \<and> pstate p' = STATESTOPPED"
proof -
  have damping: "damping_peer_oscillations p" using assms(2) by (simp add: config_ok_def)
  let ?p = "p\<lparr> pstate := STATESTOPPED, t_connect_retry := None, t_hold := None, t_keepalive := None,
    t_stopped := Some 10, t_delay_open := None, t_idle_hold := None \<rparr>"
  have "enter_state STATESTOPPED restart automatic p
      = Inr (if pstate p = STATEESTABLISHED then ?p\<lparr> calls := calls p @ [Handler_stop] \<rparr> else ?p)"
    using assms(1,4) damping
    by (cases "pstate p = STATEESTABLISHED")
      (simp_all add: enter_state_def Let_def clear_all_timers_eq start_stopped_timer_def)
  with assms(2,3) show ?thesis
    by (simp add: peer_inv_def timers_ok_def handler_ok_def config_ok_def)
qed

lemma notify_and_stop_inv:
  assumes "encode_packet (Notification_msg np) = Inr bs" "live_link (sc p)" "config_ok p"
    and "pstate p \<noteq> STATESTOPPED" "pstate p = STATEESTABLISHED \<longrightarrow> handler p = Some True"
  shows "\<exists>p'. notify_and_stop np p = Inr p' \<and> peer_inv p' \<and> pstate p' = STATESTOPPED"
proof -
  obtain s where s: "send_notification np True True p = Inr (p\<lparr> sc := s \<rparr>)" "closing_link s"
    using send_notification_closing [OF assms(1,2)] by blast
  have "config_ok (p\<lparr> sc := s \<rparr>)" using assms(3) by (simp add: config_ok_def)
  with s assms(4,5) enter_stopped [of "p\<lparr> sc := s \<rparr>" True True] show ?thesis
    by (simp add: notify_and_stop_def)
qed

subsection \<open>Connecting\<close>

text \<open>
  A peer that is about to connect or to use a new connection: no timer but those of the connect
  and the hold time runs.
\<close>

definition quiet :: "peer \<Rightarrow> bool" where
  "quiet p \<longleftrightarrow> config_ok p \<and> handler p \<noteq> Some True \<and> t_keepalive p = None \<and> t_idle_hold p = None \<and> t_stopped p = None"

lemma quiet_sc [simp]: "quiet (p\<lparr> sc := s \<rparr>) = quiet p"
  by (simp add: quiet_def config_ok_def)

lemma quietI:
  assumes "peer_inv p" "pstate p = STATECONNECT \<or> pstate p = STATEACTIVE \<or> pstate p = STATEOPENSENT"
  shows "quiet p"
  using assms(2)
  by (elim disjE) (use assms(1) in \<open>simp_all add: peer_inv_def quiet_def timers_ok_def handler_ok_def\<close>)

lemma enter_plain:
  assumes "s \<in> {STATECONNECT, STATEACTIVE, STATEOPENSENT, STATEOPENCONFIRM}" "pstate p \<noteq> STATESTOPPED"
  shows "enter_state s restart automatic p = Inr (p\<lparr> pstate := s \<rparr>)"
  using assms by (auto simp: enter_state_def)

lemma start_hold_timer_240:
  "start_hold_timer (p\<lparr> pd := (pd p)\<lparr> hold_duration := 240 \<rparr> \<rparr>)
     = p\<lparr> pd := (pd p)\<lparr> hold_duration := 240 \<rparr>, t_hold := Some 241 \<rparr>"
  by (simp add: start_hold_timer_def)

lemma event_open_inv:
  assumes "pstate p = STATECONNECT \<or> pstate p = STATEACTIVE" "live_link (sc p)" "quiet p"
  shows "\<exists>p'. event_open p = Inr p' \<and> peer_inv p' \<and> pstate p' = STATEOPENSENT
    \<and> pd p' = (pd p)\<lparr> hold_duration := 240 \<rparr>"
proof -
  have config: "config_ok p" "delay_open_time (pd p) = 0" using assms(3) by (simp_all add: quiet_def config_ok_def)
  obtain p1 where p1: "send_open p = Inr p1" "queued p p1"
    using send_open_queued [OF config(1) assms(2)] by blast
  note fields = queued_fields [OF p1(2)]
  have "pstate p1 \<noteq> STATESTOPPED" using assms(1) fields(1) by auto
  then have "event_open p = Inr (p1\<lparr> t_connect_retry := None, pd := (pd p1)\<lparr> hold_duration := 240 \<rparr>,
      t_hold := Some 241, pstate := STATEOPENSENT \<rparr>)"
    using assms(1) config(2) p1(1)
    unfolding event_open_def clear_connect_retry_timer_def by (simp add: start_hold_timer_240 enter_plain)
  moreover have "live_link (sc p1)" by (rule queued_live [OF p1(2) assms(2)])
  ultimately show ?thesis
    using assms(3) fields unfolding quiet_def peer_inv_def timers_ok_def handler_ok_def config_ok_def by simp
qed

lemma event_openfail_inv:
  assumes "pstate p = STATECONNECT" "no_link (sc p)" "config_ok p"
  shows "\<exists>p'. event_openfail p = Inr p' \<and> peer_inv p' \<and> pstate p' = STATEACTIVE"
proof -
  obtain p1 where p1: "enter_state STATEIDLE False True p = Inr p1" "peer_inv p1" "pstate p1 = STATEIDLE"
      "t_idle_hold p1 = None"
    using enter_idle [of p False True] assms by auto
  have "delay_open_time (pd p) = 0" using assms(3) by (simp add: config_ok_def)
  with assms(1) p1 have "event_openfail p
      = Inr (p1\<lparr> pstate := STATEACTIVE, t_connect_retry := Some (retry_duration (pd p1)) \<rparr>)"
    by (simp add: event_openfail_def enter_plain restart_connect_retry_timer_def start_connect_retry_timer_def
        clear_connect_retry_timer_def)
  with p1(2,3,4) show ?thesis
    by (simp add: peer_inv_def timers_ok_def handler_ok_def config_ok_def)
qed

lemma connect_to_peer_inv:
  assumes "pstate p = STATECONNECT" "no_link (sc p)" "quiet p" "t_connect_retry p \<noteq> None"
  shows "\<exists>p'. connect_to_peer fd r p = Inr p' \<and> peer_inv p'
    \<and> pstate p' \<in> {STATECONNECT, STATEACTIVE, STATEOPENSENT}"
proof -
  let ?s = "SocketClient\<lparr> sock := Some fd, connecting := True \<rparr>"
  let ?live = "SocketClient\<lparr> sock := Some fd, writer := Some [], reader := True \<rparr>"
  have s: "sc p = SocketClient" using assms(2) by (simp add: no_link_def)
  have config: "config_ok p" using assms(3) by (simp add: quiet_def)
  note defs = connect_to_peer_def connect_to_peer_complete_def s socket_defs Let_def
  have fail: "\<exists>p'. event_openfail (p\<lparr> sc := SocketClient \<rparr>) = Inr p' \<and> peer_inv p' \<and> pstate p' = STATEACTIVE"
    using config assms(1) by (intro event_openfail_inv) (simp_all add: no_link_def config_ok_def)
  have ok: "\<exists>p'. event_open (p\<lparr> sc := ?live \<rparr>) = Inr p' \<and> peer_inv p' \<and> pstate p' = STATEOPENSENT"
    using assms(1,3) event_open_inv [of "p\<lparr> sc := ?live \<rparr>"] by (auto simp: live_link_def SocketClient_def)
  have r: "r = BindFails \<or> r = InProgress \<or> r = Complete True \<or> r = Complete False"
    by (cases r) auto
  then show ?thesis
  proof (elim disjE)
    assume "r = InProgress"
    then have "connect_to_peer fd r p = Inr (p\<lparr> sc := ?s \<rparr>)" by (simp add: defs)
    then show ?thesis
      using assms by (auto simp: quiet_def peer_inv_def link_defs timers_ok_def handler_ok_def config_ok_def SocketClient_def)
  next
    assume "r = Complete True"
    then have "connect_to_peer fd r p = event_open (p\<lparr> sc := ?live \<rparr>)" by (simp add: defs)
    with ok show ?thesis by auto
  next
    assume "r = Complete False"
    then have "connect_to_peer fd r p = event_openfail (p\<lparr> sc := SocketClient \<rparr>)" by (simp add: defs)
    with fail show ?thesis by auto
  next
    assume "r = BindFails"
    then have "connect_to_peer fd r p = event_openfail (p\<lparr> sc := SocketClient \<rparr>)" by (simp add: defs)
    with fail show ?thesis by auto
  qed
qed

lemma event_start_idle:
  assumes "peer_inv p" "pstate p = STATEIDLE" "t_idle_hold p = None"
  shows "\<exists>p'. event_start fd r p = Inr p' \<and> peer_inv p' \<and> pstate p' \<in> {STATECONNECT, STATEACTIVE, STATEOPENSENT}"
proof -
  let ?p = "p\<lparr> pd := compute_peer_type (ld p) (pd p), t_connect_retry := Some (retry_duration (pd p)),
    pstate := STATECONNECT \<rparr>"
  have type: "retry_duration (compute_peer_type (ld p) (pd p)) = retry_duration (pd p)"
      "delay_open_time (compute_peer_type (ld p) (pd p)) = delay_open_time (pd p)"
      "sent_parameters (compute_peer_type (ld p) (pd p)) = sent_parameters (pd p)"
    by (simp_all add: compute_peer_type_def)
  have "event_start fd r p = connect_to_peer fd r ?p"
    using assms(2) by (simp add: event_start_def enter_plain start_connect_retry_timer_def type)
  moreover have "\<exists>p'. connect_to_peer fd r ?p = Inr p' \<and> peer_inv p' \<and> pstate p' \<in> {STATECONNECT, STATEACTIVE, STATEOPENSENT}"
    using assms by (intro connect_to_peer_inv)
      (auto simp: peer_inv_def quiet_def timers_ok_def handler_ok_def config_ok_def type)
  ultimately show ?thesis by simp
qed

subsection \<open>One lemma per event\<close>

text \<open>\<open>goes_on m\<close>: the event is handled without a failure, and the invariant holds afterwards.\<close>

definition goes_on :: "peer res \<Rightarrow> bool" where
  "goes_on m \<longleftrightarrow> (\<exists>p'. m = Inr p' \<and> peer_inv p')"

lemma goes_on_Inr [simp]: "goes_on (Inr p) = peer_inv p"
  by (simp add: goes_on_def)

lemma goes_onI: "m = Inr p' \<Longrightarrow> peer_inv p' \<Longrightarrow> goes_on m"
  by (simp add: goes_on_def)

lemma peer_inv_states:
  assumes "peer_inv p"
  shows "pstate p = STATEIDLE \<Longrightarrow> no_link (sc p)" "pstate p = STATEACTIVE \<Longrightarrow> no_link (sc p)"
    and "pstate p = STATECONNECT \<Longrightarrow> pending_link (sc p)" "pstate p = STATEOPENSENT \<Longrightarrow> live_link (sc p)"
    and "pstate p = STATEOPENCONFIRM \<Longrightarrow> live_link (sc p)" "pstate p = STATEESTABLISHED \<Longrightarrow> live_link (sc p)"
    and "pstate p = STATESTOPPED \<Longrightarrow> closing_link (sc p)"
    and "config_ok p" "pstate p = STATEESTABLISHED \<longrightarrow> handler p = Some True"
  using assms by (simp_all add: peer_inv_def handler_ok_def)

lemma config_ok_upds [simp]:
  "config_ok (p\<lparr> sc := s \<rparr>) = config_ok p" "config_ok (p\<lparr> t_hold := t \<rparr>) = config_ok p"
  "config_ok (p\<lparr> t_connect_retry := t \<rparr>) = config_ok p" "config_ok (p\<lparr> t_stopped := t \<rparr>) = config_ok p"
  "config_ok (p\<lparr> t_keepalive := t \<rparr>) = config_ok p" "config_ok (p\<lparr> t_idle_hold := i \<rparr>) = config_ok p"
  "config_ok (p\<lparr> last_error := e \<rparr>) = config_ok p" "config_ok (p\<lparr> in_total_messages := n \<rparr>) = config_ok p"
  "config_ok (p\<lparr> in_updates := n \<rparr>) = config_ok p" "config_ok (p\<lparr> pstate := q \<rparr>) = config_ok p"
  by (simp_all add: config_ok_def)

lemma enter_idle_goes_on:
  assumes "pstate p \<noteq> STATEIDLE" "config_ok p" "no_link (sc p) \<or> live_link (sc p) \<or> closing_link (sc p)"
  shows "goes_on (enter_state STATEIDLE restart automatic p)"
  using enter_idle [OF assms, of restart automatic] unfolding goes_on_def by (elim exE conjE) (intro exI conjI, assumption+)

lemma set_state_idle:
  assumes "pstate p \<noteq> STATEIDLE" "config_ok p" "no_link (sc p) \<or> live_link (sc p) \<or> closing_link (sc p)"
  shows "goes_on (set_state fd r STATEIDLE restart automatic p)"
proof -
  obtain p1 where p1: "enter_state STATEIDLE restart automatic p = Inr p1" "peer_inv p1" "pstate p1 = STATEIDLE"
      "t_idle_hold p1 = None \<longleftrightarrow> \<not> (restart \<and> automatic)"
    using enter_idle [OF assms, of restart automatic] by (elim exE conjE)
  show ?thesis
  proof (cases "restart \<and> \<not> automatic")
    case True
    with p1 event_start_idle [of p1 fd r] assms(1) show ?thesis
      by (auto simp: set_state_def goes_on_def)
  next
    case False
    with p1 show ?thesis by (auto simp: set_state_def goes_on_def)
  qed
qed

lemma set_state_stopped: "set_state fd r STATESTOPPED restart automatic p = enter_state STATESTOPPED restart automatic p"
  by (cases "enter_state STATESTOPPED restart automatic p") (simp_all add: set_state_def)

lemma flush_closing: "closing_link s \<Longrightarrow> closing_link (flush_transmit_queue s)"
  by (auto simp: closing_link_def flush_transmit_queue_def)

lemma break_pending: "pending_link s \<Longrightarrow> connect_break s = SocketClient"
  by (simp add: pending_link_def connect_break_def connect_socket_break_def close_socket_def SocketClient_def)

lemma no_link_SocketClient [simp]: "no_link SocketClient"
  by (simp add: no_link_def)

lemma notify_goes_on:
  assumes "encode_packet (Notification_msg np) = Inr bs" "live_link (sc p)" "config_ok p"
    and "pstate p \<noteq> STATESTOPPED" "pstate p = STATEESTABLISHED \<longrightarrow> handler p = Some True"
  shows "goes_on (notify_and_stop np p)"
  using notify_and_stop_inv [OF assms] unfolding goes_on_def by (elim exE conjE) (intro exI conjI, assumption+)

lemma notify_code_goes_on:
  assumes "live_link (sc p)" "config_ok p" "pstate p \<noteq> STATESTOPPED"
    "pstate p = STATEESTABLISHED \<longrightarrow> handler p = Some True"
  shows "goes_on (notify_and_stop (notification code) p)"
proof -
  obtain bs where "encode_packet (Notification_msg (notification code)) = Inr bs" using encode_code by blast
  from notify_goes_on [OF this assms] show ?thesis .
qed

lemma event_stop_goes_on:
  assumes "peer_inv p"
  shows "goes_on (event_stop fd r restart automatic p)"
proof -
  note inv = peer_inv_states [OF assms]
  have live: "goes_on (res_bind (send_notification (notification CEASE) restart automatic p)
      (set_state fd r STATESTOPPED restart automatic))"
    if l: "live_link (sc p)" and st: "pstate p \<noteq> STATESTOPPED"
  proof -
    obtain bs where "encode_packet (Notification_msg (notification CEASE)) = Inr bs" using encode_code by blast
    then obtain s where s: "send_notification (notification CEASE) restart automatic p = Inr (p\<lparr> sc := s \<rparr>)" "closing_link s"
      using send_notification_closing [OF _ l, of _ _ restart automatic] by blast
    with enter_stopped [of "p\<lparr> sc := s \<rparr>" restart automatic] st inv(8,9) show ?thesis
      by (auto simp: set_state_stopped goes_on_def)
  qed
  show ?thesis
  proof (cases "pstate p")
    case STATECONNECT
    have "goes_on (set_state fd r STATEIDLE restart automatic (p\<lparr> sc := SocketClient, t_connect_retry := None \<rparr>))"
      using STATECONNECT inv(8) by (intro set_state_idle) simp_all
    with STATECONNECT break_pending [OF inv(3)] show ?thesis
      by (simp add: event_stop_def clear_connect_retry_timer_def)
  next
    case STATESTOPPED
    have "goes_on (set_state fd r STATEIDLE restart automatic (p\<lparr> sc := flush_transmit_queue (sc p) \<rparr>))"
      using STATESTOPPED inv(7,8) by (intro set_state_idle) (simp_all add: flush_closing)
    with STATESTOPPED show ?thesis by (simp add: event_stop_def)
  next
    case STATEACTIVE
    with inv(2,8) show ?thesis by (simp add: event_stop_def set_state_idle)
  qed (use assms live inv in \<open>simp_all add: event_stop_def\<close>)
qed

lemma event_closed_goes_on:
  assumes "peer_inv p" "pstate p \<noteq> STATECONNECT"
  shows "goes_on (event_closed p)"
proof -
  note inv = peer_inv_states [OF assms(1)]
  show ?thesis
  proof (cases "pstate p")
    case STATEOPENSENT
    then have "disconnect (sc p) = Inr SocketClient" using inv(4) disconnect_link by blast
    moreover have "peer_inv (p\<lparr> sc := SocketClient, t_connect_retry := Some (retry_duration (pd p)), pstate := STATEACTIVE \<rparr>)"
      using assms(1) STATEOPENSENT by (simp add: peer_inv_def timers_ok_def handler_ok_def)
    ultimately show ?thesis using STATEOPENSENT
      by (simp add: event_closed_def enter_plain restart_connect_retry_timer_def start_connect_retry_timer_def
          clear_connect_retry_timer_def)
  next
    case STATESTOPPED
    have "goes_on (enter_state STATEIDLE True True (p\<lparr> sc := flush_transmit_queue (sc p) \<rparr>))"
      using STATESTOPPED inv(7,8) by (intro enter_idle_goes_on) (simp_all add: flush_closing)
    with STATESTOPPED show ?thesis by (simp add: event_closed_def)
  qed (use assms inv in \<open>simp_all add: event_closed_def enter_idle_goes_on\<close>)
qed

lemma connect_to_peer_goes_on:
  assumes "pstate p = STATECONNECT" "no_link (sc p)" "quiet p" "t_connect_retry p \<noteq> None"
  shows "goes_on (connect_to_peer fd r p)"
  using connect_to_peer_inv [OF assms, of fd r] unfolding goes_on_def by (elim exE conjE) (intro exI conjI, assumption+)

lemma quiet_upds [simp]:
  "quiet (p\<lparr> t_connect_retry := t \<rparr>) = quiet p" "quiet (p\<lparr> t_hold := t \<rparr>) = quiet p"
  "quiet (p\<lparr> pstate := s \<rparr>) = quiet p"
  by (simp_all add: quiet_def config_ok_def)

lemma event_connexp_goes_on:
  assumes "peer_inv p" "pstate p = STATECONNECT \<or> pstate p = STATEACTIVE"
  shows "goes_on (event_connexp fd r (p\<lparr> t_connect_retry := None \<rparr>))"
proof -
  note inv = peer_inv_states [OF assms(1)]
  have q: "quiet p" using quietI [OF assms(1)] assms(2) by blast
  note defs = event_connexp_def restart_connect_retry_timer_def start_connect_retry_timer_def
    clear_connect_retry_timer_def enter_plain
  from assms(2) show ?thesis
  proof
    assume st: "pstate p = STATECONNECT"
    have "goes_on (connect_to_peer fd r (p\<lparr> t_connect_retry := Some (retry_duration (pd p)), sc := SocketClient \<rparr>))"
      using st q by (intro connect_to_peer_goes_on) simp_all
    with st break_pending [OF inv(3)] show ?thesis by (simp add: defs)
  next
    assume st: "pstate p = STATEACTIVE"
    have "goes_on (connect_to_peer fd r (p\<lparr> t_connect_retry := Some (retry_duration (pd p)), pstate := STATECONNECT \<rparr>))"
      using st q inv(2) by (intro connect_to_peer_goes_on) simp_all
    with st show ?thesis by (simp add: defs)
  qed
qed

lemma event_holdexp_goes_on:
  assumes "peer_inv p" "t_hold p \<noteq> None" "pstate p \<noteq> STATECONNECT"
  shows "goes_on (event_holdexp (p\<lparr> t_hold := None \<rparr>))"
proof -
  note inv = peer_inv_states [OF assms(1)]
  have "pstate p \<noteq> STATEIDLE" "pstate p \<noteq> STATESTOPPED"
    using assms(1,2) by (auto simp: peer_inv_def timers_ok_def)
  with assms(3) inv show ?thesis
    by (cases "pstate p") (simp_all add: event_holdexp_def enter_idle_goes_on notify_code_goes_on)
qed

lemma queued_inv:
  assumes "queued p p'" "peer_inv p" "live_link (sc p)"
  shows "peer_inv p'"
proof -
  note fields = queued_fields [OF assms(1)]
  have "link_ok (pstate p) (sc p')"
    using assms(2) queued_live [OF assms(1,3)] assms(3)
    by (cases "pstate p") (auto simp: peer_inv_def link_defs SocketClient_def)
  with assms(2) fields show ?thesis
    unfolding peer_inv_def timers_ok_def handler_ok_def config_ok_def by simp
qed

lemma event_keepexp_goes_on:
  assumes "peer_inv p" "t_keepalive p \<noteq> None"
  shows "goes_on (event_keepexp (p\<lparr> t_keepalive := None \<rparr>))"
proof -
  let ?p = "start_keepalive_timer (p\<lparr> t_keepalive := None \<rparr>)"
  have st: "pstate p = STATEOPENCONFIRM \<or> pstate p = STATEESTABLISHED"
    using assms by (auto simp: peer_inv_def timers_ok_def)
  have inv: "peer_inv ?p"
    using assms(1) st by (elim disjE) (simp_all add: start_keepalive_timer_def peer_inv_def timers_ok_def handler_ok_def config_ok_def)
  have live: "live_link (sc ?p)"
    using st peer_inv_states [OF assms(1)] by (auto simp: start_keepalive_timer_def)
  obtain p1 os where p1: "send_message Keepalive_msg ?p = Inr (p1, os)" "queued ?p p1"
    using send_keepalive_queued [OF live] by blast
  have "event_keepexp (p\<lparr> t_keepalive := None \<rparr>) = Inr p1"
    using st p1(1) by (auto simp: event_keepexp_def)
  with queued_inv [OF p1(2) inv live] show ?thesis by simp
qed

lemma event_idle_hold_exp_goes_on:
  assumes "peer_inv p" "t_idle_hold p \<noteq> None"
  shows "goes_on (event_idle_hold_exp fd r (p\<lparr> t_idle_hold := None \<rparr>))"
proof -
  have st: "pstate p = STATEIDLE" using assms by (auto simp: peer_inv_def timers_ok_def)
  have "peer_inv (p\<lparr> t_idle_hold := None \<rparr>)"
    using assms(1) by (simp add: peer_inv_def timers_ok_def handler_ok_def)
  with st event_start_idle [of "p\<lparr> t_idle_hold := None \<rparr>" fd r] show ?thesis
    by (auto simp: event_idle_hold_exp_def goes_on_def)
qed

lemma hook_stopped_goes_on:
  assumes "peer_inv p" "t_stopped p \<noteq> None"
  shows "goes_on (hook_stopped (p\<lparr> t_stopped := None \<rparr>))"
proof -
  have "pstate p = STATESTOPPED" using assms by (auto simp: peer_inv_def timers_ok_def)
  with peer_inv_states [OF assms(1)] show ?thesis by (simp add: hook_stopped_def enter_idle_goes_on)
qed

lemma connecting_state:
  assumes "peer_inv p" "connecting (sc p)"
  shows "pstate p = STATECONNECT"
  using assms by (cases "pstate p") (auto simp: peer_inv_def link_defs SocketClient_def)

lemma connect_done_open:
  assumes "peer_inv p" "connecting (sc p)"
  shows "\<exists>p'. connect_done True p = Inr p' \<and> peer_inv p' \<and> pstate p' = STATEOPENSENT
    \<and> pd p' = (pd p)\<lparr> hold_duration := 240 \<rparr>"
proof -
  have st: "pstate p = STATECONNECT" by (rule connecting_state [OF assms])
  then have link: "pending_link (sc p)" and q: "quiet p"
    using peer_inv_states(3) [OF assms(1)] quietI [OF assms(1)] by simp_all
  let ?s = "(sc p)\<lparr> connecting := False, writer := Some [], reader := True \<rparr>"
  have "connect_done True p = event_open (p\<lparr> sc := ?s \<rparr>)"
    using link by (simp add: connect_done_def connect_to_peer_complete_def pending_link_def socket_defs)
  with st link q event_open_inv [of "p\<lparr> sc := ?s \<rparr>"] show ?thesis by (auto simp: pending_link_def live_link_def)
qed

lemma connect_done_goes_on:
  assumes "peer_inv p" "connecting (sc p)"
  shows "goes_on (connect_done ok p)"
proof (cases ok)
  case True
  with connect_done_open [OF assms] show ?thesis by (auto simp: goes_on_def)
next
  case False
  have st: "pstate p = STATECONNECT" by (rule connecting_state [OF assms])
  then have link: "pending_link (sc p)" and q: "quiet p"
    using peer_inv_states(3) [OF assms(1)] quietI [OF assms(1)] by simp_all
  have "(sc p)\<lparr> connecting := False, sock := None \<rparr> = SocketClient"
    using link by (simp add: pending_link_def SocketClient_def)
  then have "connect_done ok p = event_openfail (p\<lparr> sc := SocketClient \<rparr>)"
    using False assms(2)
    by (simp add: connect_done_def connect_to_peer_complete_def connect_socket_complete_def close_socket_def Let_def)
  moreover have "\<exists>p'. event_openfail (p\<lparr> sc := SocketClient \<rparr>) = Inr p' \<and> peer_inv p' \<and> pstate p' = STATEACTIVE"
    using st q by (intro event_openfail_inv) (simp_all add: quiet_def)
  ultimately show ?thesis by (auto simp: goes_on_def)
qed

lemma event_open_sock_goes_on:
  assumes "peer_inv p"
  shows "goes_on (event_open_sock fd p)"
proof (cases "pstate p = STATECONNECT \<or> pstate p = STATEACTIVE")
  case True
  let ?s = "SocketClient\<lparr> sock := Some fd, writer := Some [], reader := True \<rparr>"
  have "(if pstate p = STATECONNECT then connect_break (sc p) else sc p) = SocketClient"
    using True peer_inv_states [OF assms] by (auto simp: break_pending no_link_def)
  then have "event_open_sock fd p = event_open (p\<lparr> sc := ?s \<rparr>)"
    using True by (simp add: event_open_sock_def connected_def async_add_def async_remove_def
        async_remove_reader_def SocketClient_def)
  moreover have "\<exists>p'. event_open (p\<lparr> sc := ?s \<rparr>) = Inr p' \<and> peer_inv p' \<and> pstate p' = STATEOPENSENT"
    using True quietI [OF assms] event_open_inv [of "p\<lparr> sc := ?s \<rparr>"] by (auto simp: live_link_def SocketClient_def)
  ultimately show ?thesis by (auto simp: goes_on_def)
qed (use assms in \<open>simp add: event_open_sock_def\<close>)

subsection \<open>Received messages\<close>

lemma encode_error:
  assumes "length data \<le> 4075"
  obtains bs where "encode_packet (Notification_msg (NotificationPacket ec esc (Some data))) = Inr bs"
  using encode_notification [OF assms] by blast

lemma live_connected: "live_link s \<Longrightarrow> is_connected s"
  by (auto simp: live_link_def is_connected_def)

lemma notify_peer_of_error_goes_on:
  assumes "live_link (sc p)" "config_ok p" "pstate p \<noteq> STATESTOPPED"
    "pstate p = STATEESTABLISHED \<longrightarrow> handler p = Some True" "length data \<le> 4075"
  shows "goes_on (notify_peer_of_error error subcode data p)"
proof -
  obtain bs where "encode_packet (Notification_msg (NotificationPacket (of_nat error) (of_nat subcode) (Some data))) = Inr bs"
    using encode_error [OF assms(5)] .
  from notify_goes_on [OF this assms(1-4)] show ?thesis
    using live_connected [OF assms(1)] by (simp add: notify_peer_of_error_def)
qed

lemma check_open_packet_frame:
  assumes "check_open_packet op d = (d', e)"
  shows "delay_open_time d' = delay_open_time d" "sent_parameters d' = sent_parameters d"
    and "e = None \<or> (\<exists>subcode data. e = Some (CorruptMessage OPENMSGERROR subcode data) \<and> length data \<le> 2)"
  using assms by (auto simp: check_open_packet_def Let_def embed_16_def split: if_splits)

lemma fold_add_recv_frame:
  "delay_open_time (fold add_recv_parameter ps d) = delay_open_time d"
  "sent_parameters (fold add_recv_parameter ps d) = sent_parameters d"
  by (induction ps arbitrary: d) (simp_all add: add_recv_parameter_def)

lemma take_4byte_as_frame: "delay_open_time (take_4byte_as qs d) = delay_open_time d"
  by (induction qs arbitrary: d) (auto split: capability.splits)

lemma negotiation_frame:
  "delay_open_time (open_negotiation l (save_parameters ps d)) = delay_open_time d"
  "sent_parameters (open_negotiation l (save_parameters ps d)) = sent_parameters d"
  by (simp_all add: open_negotiation_def save_parameters_def Let_def fold_add_recv_frame take_4byte_as_frame
      add_recv_parameter_def)

lemma session_timers:
  assumes "damping_peer_oscillations p"
  shows "start_hold_timer (start_keepalive_timer (clear_all_timers p)) = p\<lparr> t_connect_retry := None,
    t_stopped := None, t_delay_open := None, t_idle_hold := None,
    t_keepalive := if keepalive_duration (pd p) > 0 then Some (keepalive_duration (pd p)) else None,
    t_hold := if hold_duration (pd p) \<noteq> 0 then Some (hold_duration (pd p) + 1) else None \<rparr>"
  using assms
  by (cases "keepalive_duration (pd p) > 0"; cases "hold_duration (pd p) = 0")
    (simp_all add: start_hold_timer_def start_keepalive_timer_def clear_all_timers_eq)

lemma process_open_confirms:
  assumes "live_link (sc p)" "config_ok p" "handler p \<noteq> Some True" "pstate p = STATEOPENSENT" "check_open_packet op (pd p) = (d, None)"
  shows "\<exists>p'. process_open op p = Inr p' \<and> peer_inv p' \<and> pstate p' = STATEOPENCONFIRM"
proof -
  have config: "config_ok (p\<lparr> pd := d \<rparr>)"
    using assms(2) check_open_packet_frame [OF assms(5)] by (simp add: config_ok_def)
  have "live_link (sc (p\<lparr> pd := d \<rparr>))" using assms(1) by simp
  then obtain p1 os where p1: "send_message Keepalive_msg (p\<lparr> pd := d \<rparr>) = Inr (p1, os)" "queued (p\<lparr> pd := d \<rparr>) p1"
    using send_keepalive_queued by blast
  note fields = queued_fields [OF p1(2), simplified]
  have live: "live_link (sc p1)" using queued_live [OF p1(2)] assms(1) by simp
  have damping: "damping_peer_oscillations p1" using fields assms(2) by (simp add: config_ok_def)
  obtain h k where timers: "start_hold_timer (start_keepalive_timer (clear_all_timers p1)) = p1\<lparr> t_connect_retry := None,
      t_stopped := None, t_delay_open := None, t_idle_hold := None, t_keepalive := k, t_hold := h \<rparr>"
    using that [OF session_timers [OF damping]] .
  let ?p = "p1\<lparr> t_connect_retry := None, t_stopped := None, t_delay_open := None, t_idle_hold := None,
    t_keepalive := k, t_hold := h, pd := open_negotiation (ld p1) (save_parameters (parameter_list op) (pd p1)),
    pstate := STATEOPENCONFIRM \<rparr>"
  have "process_open op p = Inr ?p"
    using assms(4,5) p1(1) timers fields(1) by (simp add: process_open_def enter_plain)
  moreover have "peer_inv ?p"
    using live config fields assms(3) negotiation_frame
    unfolding peer_inv_def timers_ok_def handler_ok_def config_ok_def by simp
  ultimately show ?thesis by simp
qed

lemma process_open_fresh:
  assumes "live_link (sc p)" "config_ok p" "handler p \<noteq> Some True" "pstate p = STATEOPENSENT"
  shows "goes_on (process_open op p)"
proof -
  obtain d e where check: "check_open_packet op (pd p) = (d, e)" by (cases "check_open_packet op (pd p)")
  note frame = check_open_packet_frame [OF check]
  have config: "config_ok (p\<lparr> pd := d \<rparr>)" using assms(2) frame(1,2) by (simp add: config_ok_def)
  show ?thesis
  proof (cases e)
    case (Some err)
    with frame(3) obtain subcode data where err: "err = CorruptMessage OPENMSGERROR subcode data" "length data \<le> 2"
      by auto
    have "goes_on (notify_peer_of_error OPENMSGERROR subcode data (p\<lparr> pd := d \<rparr>))"
      using assms config err(2) by (intro notify_peer_of_error_goes_on) simp_all
    with check Some err show ?thesis by (simp add: process_open_def)
  next
    case None
    with process_open_confirms [OF assms] check show ?thesis by (auto simp: goes_on_def)
  qed
qed

lemma process_open_accepts:
  assumes "live_link (sc p)" "quiet p" "pstate p = STATEOPENSENT" "check_open_packet op (pd p) = (d, None)"
  shows "\<exists>p'. process_open op p = Inr p' \<and> peer_inv p' \<and> pstate p' = STATEOPENCONFIRM"
  using process_open_confirms [OF assms(1) _ _ assms(3,4)] assms(2) by (simp add: quiet_def)

lemma process_open_goes_on:
  assumes "live_link (sc p)" "quiet p" "pstate p = STATEOPENSENT"
  shows "goes_on (process_open op p)"
  using process_open_fresh [OF assms(1) _ _ assms(3)] assms(2) by (simp add: quiet_def)

text \<open>The states in which a message can be read.\<close>

lemma reading_states:
  assumes "peer_inv p" "reader (sc p)"
  shows "live_link (sc p)" "config_ok p" "pstate p \<in> {STATEOPENSENT, STATEOPENCONFIRM, STATEESTABLISHED}"
    and "pstate p = STATEESTABLISHED \<longrightarrow> handler p = Some True"
  using assms
  by (cases "pstate p"; simp add: peer_inv_def handler_ok_def no_link_def pending_link_def closing_link_def SocketClient_def)+

lemma event_openmess_goes_on:
  assumes "peer_inv p" "reader (sc p)"
  shows "goes_on (event_openmess op p)"
proof (cases "pstate p")
  case STATEOPENSENT
  with reading_states [OF assms] quietI [OF assms(1)] show ?thesis
    by (simp add: event_openmess_def process_open_goes_on)
qed (use reading_states [OF assms] in \<open>simp_all add: event_openmess_def notify_peer_of_error_goes_on\<close>)

lemma restart_hold_timer_inv: "peer_inv p \<Longrightarrow> pstate p = STATEESTABLISHED \<Longrightarrow> peer_inv (restart_hold_timer p)"
  by (simp add: restart_hold_timer_def start_hold_timer_def clear_hold_timer_def peer_inv_def timers_ok_def
      handler_ok_def config_ok_def)

lemma established_inv:
  assumes "peer_inv p" "pstate p = STATEOPENCONFIRM"
  shows "\<exists>p'. enter_state STATEESTABLISHED True True p = Inr p' \<and> peer_inv p' \<and> pstate p' = STATEESTABLISHED"
proof -
  let ?p = "p\<lparr> pstate := STATEESTABLISHED, handler := Some True,
    calls := calls p @ [if handler p = None then Plumbed else Came_up],
    established_transitions := established_transitions p + 1 \<rparr>"
  have "enter_state STATEESTABLISHED True True p = Inr ?p"
    using assms(2) by (cases "handler p") (simp_all add: enter_state_def established_def)
  moreover have "peer_inv ?p"
    using assms by (simp add: peer_inv_def timers_ok_def handler_ok_def config_ok_def)
  ultimately show ?thesis by auto
qed

lemma event_keepmess_goes_on:
  assumes "peer_inv p" "reader (sc p)"
  shows "goes_on (event_keepmess p)"
proof (cases "pstate p")
  case STATEOPENCONFIRM
  then obtain p1 where "enter_state STATEESTABLISHED True True p = Inr p1" "peer_inv p1" "pstate p1 = STATEESTABLISHED"
    using established_inv [OF assms(1)] by blast
  with STATEOPENCONFIRM restart_hold_timer_inv [of p1] show ?thesis by (simp add: event_keepmess_def)
qed (use assms reading_states [OF assms] restart_hold_timer_inv [OF assms(1)] in
    \<open>simp_all add: event_keepmess_def notify_code_goes_on\<close>)

lemma event_recvnotify_goes_on:
  assumes "peer_inv p" "reader (sc p)"
  shows "goes_on (event_recvnotify np p)"
  using reading_states [OF assms]
  by (cases "pstate p") (simp_all add: event_recvnotify_def enter_idle_goes_on)

lemma event_recvupdate_goes_on:
  assumes "peer_inv p" "reader (sc p)"
  shows "goes_on (event_recvupdate prefix_count u p)"
proof (cases "pstate p")
  case STATEESTABLISHED
  note read = reading_states [OF assms]
  let ?p = "restart_hold_timer p"
  have inv: "peer_inv ?p" by (rule restart_hold_timer_inv [OF assms(1) STATEESTABLISHED])
  have fields: "pstate ?p = STATEESTABLISHED" "sc ?p = sc p" "handler ?p = Some True"
    using STATEESTABLISHED read(4) by (simp_all add: restart_hold_timer_def start_hold_timer_def clear_hold_timer_def)
  have stop: "goes_on (notify_and_stop (notification CEASE) ?p)"
    using inv fields read(1) by (intro notify_code_goes_on) (simp_all add: peer_inv_def)
  have "peer_inv (?p\<lparr> calls := cs \<rparr>)" for cs
    using inv by (simp add: peer_inv_def timers_ok_def handler_ok_def config_ok_def)
  with stop fields STATEESTABLISHED show ?thesis
    by (simp add: event_recvupdate_def Let_def split: prod.splits)
qed (use assms reading_states [OF assms] in \<open>simp_all add: event_recvupdate_def notify_code_goes_on\<close>)

text \<open>A decoder that returns a packet or throws, and does not fail an assertion.\<close>

definition survives :: "'a res \<Rightarrow> bool" where
  "survives m = (case m of
     Inl (CorruptMessage error subcode data) \<Rightarrow> length data \<le> 4075
   | Inl _ \<Rightarrow> False
   | Inr _ \<Rightarrow> True)"

definition update_fits :: "update_result \<Rightarrow> bool" where
  "update_fits m = (case m of Update_corrupt error subcode data \<Rightarrow> length data \<le> 4075 | _ \<Rightarrow> True)"

text \<open>A message whose decoding the process survives.\<close>

definition harmless :: "(u8 list \<Rightarrow> update_result) \<Rightarrow> u8 list \<Rightarrow> bool" where
  "harmless upd buf \<longleftrightarrow>
     (buf ! TYPE_OFFSET = MESSAGETYPEOPEN \<longrightarrow> survives (open_decode buf (length buf)))
   \<and> (buf ! TYPE_OFFSET = MESSAGETYPEUPDATE \<longrightarrow> update_fits (upd buf))"

lemma catch_corrupt_goes_on:
  assumes "survives m" "\<And>e s d. length d \<le> 4075 \<Longrightarrow> goes_on (res_map fst (h e s d))"
    "\<And>x. m = Inr x \<Longrightarrow> goes_on (res_map fst (f x))"
  shows "goes_on (res_map fst (catch_corrupt m h f))"
proof (cases m)
  case (Inl e)
  with assms(1,2) show ?thesis by (cases e) (simp_all add: catch_corrupt_def survives_def)
qed (use assms(3) in \<open>simp add: catch_corrupt_def\<close>)

lemma res_map_fst_pair [simp]: "res_map fst (res_map (\<lambda>p. (p, b p)) m) = m"
  by (cases m) simp_all

lemma get_message_goes_on:
  assumes "peer_inv p" "reader (sc p)"
    and "status = GOOD_MESSAGE \<longrightarrow> harmless upd buf"
  shows "goes_on (res_map fst (get_message upd prefix_count status buf p))"
proof -
  note read = reading_states [OF assms(1,2)]
  have corrupt: "goes_on (notify_peer_of_error e s d (p\<lparr> in_total_messages := n, in_updates := m \<rparr>))"
    if "length d \<le> 4075" for e s d n m
    using read that by (intro notify_peer_of_error_goes_on) auto
  have count: "peer_inv (p\<lparr> in_total_messages := n, in_updates := m \<rparr>)" for n m
    using assms(1) by (simp add: peer_inv_def timers_ok_def handler_ok_def config_ok_def)
  note corrupt1 = corrupt [where m = "in_updates p", simplified]
  note count1 = count [where m = "in_updates p", simplified]
  show ?thesis
  proof (cases status)
    case ILLEGAL_MESSAGE_LENGTH
    then show ?thesis
      using corrupt [where n = "in_total_messages p" and m = "in_updates p" and d = "take 2 (drop MARKER_SIZE buf)"]
      by (simp add: get_message_def min_le_iff_disj)
  next
    case CONNECTION_CLOSED
    then show ?thesis
      using event_closed_goes_on [OF assms(1)] read(3) by (auto simp: get_message_def)
  next
    case GOOD_MESSAGE
    let ?p = "p\<lparr> in_total_messages := in_total_messages p + 1 \<rparr>"
    let ?corrupt = "\<lambda>e s d. res_map (\<lambda>p. (p, False)) (notify_peer_of_error e s d ?p)"
    let ?finish = "res_map (\<lambda>p. (p, is_connected (sc p) \<and> still_reading (sc p)))"
    have open_msg: "goes_on (res_map fst (catch_corrupt (open_decode buf (length buf)) ?corrupt (\<lambda>op. ?finish (event_openmess op ?p))))"
      if "buf ! TYPE_OFFSET = MESSAGETYPEOPEN"
      using that assms(3) [unfolded harmless_def] GOOD_MESSAGE count1 assms(2) corrupt1
      by (intro catch_corrupt_goes_on) (simp_all add: event_openmess_goes_on)
    have keep: "goes_on (res_map fst (catch_corrupt (keepalive_decode buf (length buf)) ?corrupt (\<lambda>_. ?finish (event_keepmess ?p))))"
      using count1 assms(2) corrupt1
      by (intro catch_corrupt_goes_on) (simp_all add: event_keepmess_goes_on survives_def keepalive_decode_def min_le_iff_disj)
    have notif: "goes_on (res_map fst (catch_corrupt (notification_decode buf (length buf)) ?corrupt (\<lambda>np. ?finish (event_recvnotify np ?p))))"
      using count1 assms(2) corrupt1
      by (intro catch_corrupt_goes_on) (simp_all add: event_recvnotify_goes_on survives_def notification_decode_def min_le_iff_disj)
    have update: "goes_on (res_map fst (case upd buf of
        Update_ok u \<Rightarrow> ?finish (event_recvupdate prefix_count u (?p\<lparr> in_updates := in_updates ?p + 1 \<rparr>))
      | Update_corrupt e s d \<Rightarrow> res_map (\<lambda>p. (p, False)) (notify_peer_of_error e s d (?p\<lparr> in_updates := in_updates ?p + 1 \<rparr>))
      | Update_unusable \<Rightarrow> ?finish (Inr (?p\<lparr> in_updates := in_updates ?p + 1 \<rparr>))))"
      if "buf ! TYPE_OFFSET = MESSAGETYPEUPDATE"
      using that assms(2) assms(3) [unfolded harmless_def] GOOD_MESSAGE corrupt count event_recvupdate_goes_on [of "?p\<lparr> in_updates := in_updates ?p + 1 \<rparr>"]
      by (cases "upd buf") (simp_all add: update_fits_def)
    show ?thesis
      unfolding GOOD_MESSAGE get_message_def Let_def packet_status.case
      using open_msg keep notif update corrupt1 by (simp del: res_map.simps)
  qed
qed

subsection \<open>Completed writes\<close>

lemma peer_inv_writer:
  assumes "peer_inv p" "writer (sc p) = Some ((buf, cb) # q)"
  shows "pstate p = STATESTOPPED \<and> closing_link (sc p) \<and> is_notification_cb cb
    \<or> live_link (sc p) \<and> reader (sc p) \<and> cb = send_message_cb"
  using assms by (cases "pstate p") (auto simp: peer_inv_def link_defs SocketClient_def)

lemma writer_upd_links:
  "live_link s \<Longrightarrow> writer s = Some (b # q) \<Longrightarrow> live_link (s\<lparr> writer := Some q \<rparr>)"
  "closing_link s \<Longrightarrow> writer s = Some (b # q) \<Longrightarrow> closing_link (s\<lparr> writer := Some q \<rparr>)"
  by (auto simp: live_link_def closing_link_def)

lemma send_message_complete_goes_on:
  assumes "peer_inv p" "reader (sc p)"
  shows "goes_on (send_message_complete ev p)"
proof (cases ev)
  case DATA
  obtain q where q: "writer (sc p) = Some q" using reading_states(1) [OF assms] by (auto simp: live_link_def)
  have "peer_inv (p\<lparr> output_queue_was_busy := False \<rparr>)" "peer_inv (p\<lparr> output_queue_was_busy := False, calls := cs \<rparr>)" for cs
    using assms(1) by (simp_all add: peer_inv_def timers_ok_def handler_ok_def config_ok_def)
  with DATA q assms(1) show ?thesis
    by (simp add: send_message_complete_def output_queue_busy_def Let_def)
next
  case ERROR
  have "pstate p \<noteq> STATECONNECT" using reading_states(3) [OF assms] by auto
  with ERROR event_closed_goes_on [OF assms(1)] show ?thesis by (simp add: send_message_complete_def)
qed (use assms(1) in \<open>simp add: send_message_complete_def\<close>)

lemma send_notification_complete_goes_on:
  assumes "peer_inv p" "pstate p = STATESTOPPED"
  shows "goes_on (send_notification_complete fd r ev restart automatic p)"
  using assms peer_inv_states [OF assms(1)]
  by (cases ev) (simp_all add: send_notification_complete_def set_state_idle)

lemma write_complete_goes_on:
  assumes "peer_inv p"
  shows "goes_on (write_complete fd r ev p)"
proof -
  have "\<not> (\<exists>b q. writer (sc p) = Some (b # q)) \<or> (\<exists>buf cb q. writer (sc p) = Some ((buf, cb) # q))" by auto
  then consider (none) "\<not> (\<exists>b q. writer (sc p) = Some (b # q))"
    | (head) buf cb q where "writer (sc p) = Some ((buf, cb) # q)" by blast
  then show ?thesis
  proof cases
    case none
    then show ?thesis
      using assms by (auto simp: write_complete_def split: option.splits list.splits)
  next
    case head
    let ?p = "if ev = DATA then p\<lparr> sc := (sc p)\<lparr> writer := Some q \<rparr> \<rparr> else p"
    from peer_inv_writer [OF assms head] show ?thesis
    proof
      assume st: "pstate p = STATESTOPPED \<and> closing_link (sc p) \<and> is_notification_cb cb"
      then have "peer_inv ?p"
        using assms writer_upd_links(2) [OF _ head] by (simp add: peer_inv_def timers_ok_def handler_ok_def config_ok_def)
      moreover from st obtain restart automatic where "cb = send_notification_cb restart automatic" by (cases cb) auto
      ultimately show ?thesis
        using head st send_notification_complete_goes_on [of ?p] by (simp add: write_complete_def)
    next
      assume live: "live_link (sc p) \<and> reader (sc p) \<and> cb = send_message_cb"
      have "link_ok (pstate p) ((sc p)\<lparr> writer := Some q \<rparr>)"
        using reading_states(3) [OF assms] live writer_upd_links(1) [OF _ head] by auto
      then have "peer_inv ?p"
        using assms by (simp add: peer_inv_def timers_ok_def handler_ok_def config_ok_def)
      then show ?thesis
        using head live send_message_complete_goes_on [of ?p] by (simp add: write_complete_def)
    qed
  qed
qed

subsection \<open>Runs\<close>

text \<open>
  The events of the peer itself: commands, the end of a connect, timers, input, the end of a
  write, and an UPDATE to send with the bytes that it is encoded to. A timer that fires is no
  longer scheduled when its callback runs. \<open>Open_sock\<close> is \<open>event_open(sock)\<close>, which no callback of the
  event loop calls: it comes from \<open>AcceptSession::start\<close>, see \<open>Peer_Runs\<close>.
\<close>

datatype fsm_event =
    Start nat connect_result
  | Stop nat connect_result bool bool
  | Connect_done bool
  | Connect_retry_exp nat connect_result
  | Hold_exp
  | Keepalive_exp
  | Idle_exp nat connect_result
  | Stopped_exp
  | Zero_restart_exp
  | Read packet_status "u8 list" nat
  | Written nat connect_result write_event
  | Open_sock nat
  | Send_update "u8 list option"

fun deliver :: "(u8 list \<Rightarrow> update_result) \<Rightarrow> fsm_event \<Rightarrow> peer \<Rightarrow> peer res" where
  "deliver upd (Start fd r) p = event_start fd r p"
| "deliver upd (Stop fd r restart automatic) p = event_stop fd r restart automatic p"
| "deliver upd (Connect_done ok) p = connect_done ok p"
| "deliver upd (Connect_retry_exp fd r) p = event_connexp fd r (p\<lparr> t_connect_retry := None \<rparr>)"
| "deliver upd Hold_exp p = event_holdexp (p\<lparr> t_hold := None \<rparr>)"
| "deliver upd Keepalive_exp p = event_keepexp (p\<lparr> t_keepalive := None \<rparr>)"
| "deliver upd (Idle_exp fd r) p = (case t_idle_hold p of
     Some (Delay_open_exp, _) \<Rightarrow> event_delay_open_exp (p\<lparr> t_idle_hold := None \<rparr>)
   | _ \<Rightarrow> event_idle_hold_exp fd r (p\<lparr> t_idle_hold := None \<rparr>))"
| "deliver upd Stopped_exp p = hook_stopped (p\<lparr> t_stopped := None \<rparr>)"
| "deliver upd Zero_restart_exp p = Inr (zero_restart_count (p\<lparr> t_zero_restart := None \<rparr>))"
| "deliver upd (Read status buf prefix_count) p = res_map fst (get_message upd prefix_count status buf p)"
| "deliver upd (Written fd r ev) p = write_complete fd r ev p"
| "deliver upd (Open_sock fd) p = event_open_sock fd p"
| "deliver upd (Send_update bs) p = res_map fst (send_update_message bs p)"

text \<open>When the environment can deliver an event: what the event loop and the sockets guarantee.\<close>

fun possible :: "fsm_event \<Rightarrow> peer \<Rightarrow> bool" where
  "possible (Connect_done ok) p = connecting (sc p)"
| "possible (Connect_retry_exp fd r) p = (t_connect_retry p \<noteq> None)"
| "possible Hold_exp p = (t_hold p \<noteq> None)"
| "possible Keepalive_exp p = (t_keepalive p \<noteq> None)"
| "possible (Idle_exp fd r) p = (t_idle_hold p \<noteq> None)"
| "possible Stopped_exp p = (t_stopped p \<noteq> None)"
| "possible Zero_restart_exp p = (t_zero_restart p \<noteq> None)"
| "possible (Read status buf prefix_count) p = reader (sc p)"
| "possible (Open_sock fd) p = False"
| "possible (Send_update bs) p = (pstate p = STATEESTABLISHED)"
| "possible _ p = True"

text \<open>
  The situations in which an event is known to end the process: a start command while the idle
  hold timer runs, the expiry of the hold timer while a connect is pending, an OPEN message
  whose parameters the decoder does not survive, error data that does not fit into a
  notification, and an UPDATE that does not fit into a message.
\<close>

fun benign :: "(u8 list \<Rightarrow> update_result) \<Rightarrow> fsm_event \<Rightarrow> peer \<Rightarrow> bool" where
  "benign upd (Start fd r) p = (t_idle_hold p = None)"
| "benign upd Hold_exp p = (\<not> connecting (sc p))"
| "benign upd (Read GOOD_MESSAGE buf prefix_count) p = harmless upd buf"
| "benign upd (Send_update bs) p = (bs \<noteq> None)"
| "benign upd _ p = True"

lemma event_start_goes_on:
  assumes "peer_inv p" "t_idle_hold p = None"
  shows "goes_on (event_start fd r p)"
proof (cases "pstate p")
  case STATEIDLE
  from event_start_idle [OF assms(1) STATEIDLE assms(2), of fd r] show ?thesis by (auto simp: goes_on_def)
next
  case STATESTOPPED
  let ?d = "compute_peer_type (ld p) (pd p)"
  let ?p = "p\<lparr> pd := ?d, sc := flush_transmit_queue (sc p) \<rparr>"
  have "config_ok ?p"
    using peer_inv_states(8) [OF assms(1)] by (simp add: config_ok_def compute_peer_type_def)
  moreover have "closing_link (sc ?p)" using peer_inv_states(7) [OF assms(1)] STATESTOPPED by (simp add: flush_closing)
  ultimately obtain p1 where p1: "enter_state STATEIDLE False True ?p = Inr p1" "peer_inv p1" "pstate p1 = STATEIDLE"
      "t_idle_hold p1 = None"
    using enter_idle [of ?p False True] STATESTOPPED by auto
  let ?p1 = "p1\<lparr> t_connect_retry := Some (retry_duration (pd p1)), pstate := STATECONNECT \<rparr>"
  have "event_start fd r p = connect_to_peer fd r ?p1"
    using STATESTOPPED p1 by (simp add: event_start_def Let_def start_connect_retry_timer_def enter_plain)
  moreover have "goes_on (connect_to_peer fd r ?p1)"
    using p1 by (intro connect_to_peer_goes_on)
      (auto simp: peer_inv_def quiet_def timers_ok_def handler_ok_def config_ok_def)
  ultimately show ?thesis by simp
qed (use assms(1) in \<open>simp_all add: event_start_def Let_def peer_inv_def timers_ok_def handler_ok_def config_ok_def
    compute_peer_type_def\<close>)

lemma send_update_goes_on:
  assumes "peer_inv p" "pstate p = STATEESTABLISHED" "bs \<noteq> None"
  shows "goes_on (res_map fst (send_update_message bs p))"
proof -
  have live: "live_link (sc p)" using peer_inv_states(6) [OF assms(1,2)] .
  obtain p1 st where p1: "send_message (Update_msg bs) p = Inr (p1, st)" "queued p p1"
    using send_message_queued [of "Update_msg bs" "the bs" p] live assms(3) by auto
  with queued_inv [OF p1(2) assms(1) live] assms(2) show ?thesis by (simp add: send_update_message_def)
qed

lemma idle_exp_goes_on:
  assumes "peer_inv p" "t_idle_hold p \<noteq> None"
  shows "goes_on (deliver upd (Idle_exp fd r) p)"
proof -
  have "fst (the (t_idle_hold p)) = Idle_hold_exp"
    using assms by (auto simp: peer_inv_def timers_ok_def)
  then obtain n where "t_idle_hold p = Some (Idle_hold_exp, n)" using assms(2) by auto
  with event_idle_hold_exp_goes_on [OF assms, of fd r] show ?thesis by simp
qed

lemma benign_read:
  "benign upd (Read status buf n) p \<Longrightarrow> status = GOOD_MESSAGE \<longrightarrow> harmless upd buf"
  by (cases status) simp_all

lemma deliver_goes_on:
  assumes "peer_inv p" "possible e p" "benign upd e p"
  shows "goes_on (deliver upd e p)"
proof (cases e)
  case (Start fd r)
  with assms event_start_goes_on show ?thesis by simp
next
  case (Connect_retry_exp fd r)
  then have "pstate p = STATECONNECT \<or> pstate p = STATEACTIVE"
    using assms(1,2) by (auto simp: peer_inv_def timers_ok_def)
  with Connect_retry_exp event_connexp_goes_on [OF assms(1)] show ?thesis by simp
next
  case Hold_exp
  then have "pstate p \<noteq> STATECONNECT"
    using assms(3) peer_inv_states(3) [OF assms(1)] by (auto simp: pending_link_def)
  with Hold_exp assms(1,2) event_holdexp_goes_on show ?thesis by simp
next
  case (Idle_exp fd r)
  with assms idle_exp_goes_on [of p upd fd r] show ?thesis by simp
next
  case Zero_restart_exp
  with assms(1) show ?thesis
    by (simp add: zero_restart_count_def peer_inv_def timers_ok_def handler_ok_def config_ok_def)
next
  case (Read status buf n)
  have "status = GOOD_MESSAGE \<longrightarrow> harmless upd buf"
    using assms(3) unfolding Read by (rule benign_read)
  with Read assms(1,2) get_message_goes_on [of p status upd buf n] show ?thesis by simp
qed (use assms event_stop_goes_on connect_done_goes_on event_keepexp_goes_on hook_stopped_goes_on
    write_complete_goes_on send_update_goes_on in simp_all)

end
