(* ===== verification/Peer_Runs.thy ===== *)
theory Peer_Runs
  imports Peer_Safety Accept_FSM
begin

text \<open>
  The runs of a peering: the peer with the sessions of its incoming connections
  (\<open>_accept_attempt\<close>), and the events that the event loop delivers to them. In every reachable
  state the connection, the timers and the handler of the peer fit its state, every session
  waits for an OPEN or for its CEASE to be written, and no event fails an assertion outside the
  situations that are listed with \<open>benign\<close> and \<open>benign_session\<close>, for which \<open>Peer_Session\<close> and
  \<open>Accept_Session\<close> have runs that end in a failure.
\<close>

subsection \<open>Taking over a connection\<close>

text \<open>The peer after its connection was swapped: it has sent its OPEN on the new one.\<close>

definition swapped :: "peer \<Rightarrow> peer \<Rightarrow> bool" where
  "swapped p p' \<longleftrightarrow> pstate p' = STATEOPENSENT \<and> live_link (sc p') \<and> config_ok p' \<and> handler p' = handler p
     \<and> t_connect_retry p' = None \<and> t_hold p' \<noteq> None \<and> t_keepalive p' = t_keepalive p
     \<and> t_stopped p' = t_stopped p \<and> t_idle_hold p' = t_idle_hold p"

definition swap_states :: "fsm_state set" where
  "swap_states = {STATEACTIVE, STATECONNECT, STATEOPENSENT, STATEOPENCONFIRM}"

lemma event_open_swapped:
  assumes "pstate p = STATECONNECT \<or> pstate p = STATEACTIVE" "live_link (sc p)" "config_ok p"
  shows "\<exists>p'. event_open p = Inr p' \<and> swapped p p'"
proof -
  have config: "delay_open_time (pd p) = 0" using assms(3) by (simp add: config_ok_def)
  obtain p1 where p1: "send_open p = Inr p1" "queued p p1"
    using send_open_queued [OF assms(3,2)] by blast
  note fields = queued_fields [OF p1(2)]
  have st: "pstate p1 \<noteq> STATESTOPPED" using assms(1) fields(1) by auto
  have "event_open p = Inr (p1\<lparr> t_connect_retry := None, pd := (pd p1)\<lparr> hold_duration := 240 \<rparr>,
      t_hold := Some 241, pstate := STATEOPENSENT \<rparr>)"
    using assms(1) config p1(1) st
    unfolding event_open_def clear_connect_retry_timer_def by (simp add: start_hold_timer_240 enter_plain)
  then show ?thesis
    using queued_live [OF p1(2) assms(2)] queued_config [OF p1(2)] assms(3) fields
    by (simp add: swapped_def config_ok_def)
qed

lemma swap_ok:
  assumes "ac_sock a = None" "live_link (socket_client a)" "pstate p \<in> swap_states" "config_ok p"
  shows "\<exists>p'. accept_swap_sockets a p = Inr (a\<lparr> socket_client := sc p \<rparr>, p') \<and> swapped p p'"
proof -
  let ?p = "p\<lparr> sc := socket_client a, pstate := STATEACTIVE \<rparr>"
  obtain p' where p': "event_open ?p = Inr p'" "swapped ?p p'" using event_open_swapped [of ?p] assms(2,4) by auto
  have "enter_state STATEACTIVE True True (p\<lparr> sc := socket_client a \<rparr>) = Inr ?p"
    using assms(3) by (subst enter_plain) (auto simp: swap_states_def)
  then have "swap_sockets (socket_client a) p = Inr (p', sc p)"
    using assms(3) p'(1) by (simp add: swap_sockets_def swap_states_def)
  with p'(2) assms(1) show ?thesis by (simp add: accept_swap_sockets_def swapped_def)
qed

lemma swap_states_handler: "peer_inv p \<Longrightarrow> pstate p \<in> swap_states \<Longrightarrow> handler p \<noteq> Some True"
  by (auto simp: peer_inv_def handler_ok_def swap_states_def)

lemma swapped_inv:
  assumes "swapped p p'" "peer_inv p" "pstate p \<in> swap_states" "t_keepalive p = None"
  shows "peer_inv p'"
  using assms(1,4) swap_states_handler [OF assms(2,3)] assms(2,3)
  by (auto simp: swapped_def peer_inv_def timers_ok_def handler_ok_def swap_states_def)

text \<open>
  \<open>swap_sockets(const OpenPacket&)\<close> encodes the OPEN again. An OPEN with a capability of an unknown
  kind cannot be encoded.
\<close>

definition reencodable :: "open_packet \<Rightarrow> bool" where
  "reencodable op = (case encode_packet (Open_msg op) of
     Inl _ \<Rightarrow> False
   | Inr buf \<Rightarrow> survives (open_decode buf (length buf)))"

lemma open_encoded:
  assumes "encode_packet (Open_msg op) = Inr buf"
  shows "take MARKER_SIZE buf = Marker" "buf ! TYPE_OFFSET = MESSAGETYPEOPEN"
proof -
  obtain r where "open_encode op MAXPACKETSIZE = Inr (Some r)" "buf = r"
    using assms by (cases "open_encode op MAXPACKETSIZE") (auto split: option.splits elim: assert_encoded.elims)
  then obtain x y rest where "buf = (Marker @ [x, y, MESSAGETYPEOPEN]) @ rest"
    by (auto simp: open_encode_def basic_encode_def Let_def split: if_splits)
  then show "take MARKER_SIZE buf = Marker" "buf ! TYPE_OFFSET = MESSAGETYPEOPEN"
    by (simp_all add: packet_sizes nth_append)
qed

lemma reread_open:
  assumes "swapped p p'" "peer_inv p" "pstate p \<in> swap_states" "encode_packet (Open_msg op) = Inr buf"
    and "survives (open_decode buf (length buf))"
  shows "goes_on (res_map fst (get_message upd n GOOD_MESSAGE buf p'))"
proof -
  let ?p = "p'\<lparr> in_total_messages := in_total_messages p' + 1 \<rparr>"
  have p': "live_link (sc ?p)" "config_ok ?p" "handler ?p \<noteq> Some True" "pstate ?p = STATEOPENSENT"
    using assms(1) swap_states_handler [OF assms(2,3)] by (simp_all add: swapped_def)
  have corrupt: "goes_on (notify_peer_of_error e s d ?p)" if "length d \<le> 4075" for e s d
    using p' that by (intro notify_peer_of_error_goes_on) simp_all
  have "event_openmess op' ?p = process_open op' ?p" for op' using p'(4) by (simp add: event_openmess_def)
  then have "goes_on (event_openmess op' ?p)" for op' using process_open_fresh [OF p'] by simp
  then have "goes_on (res_map fst (catch_corrupt (open_decode buf (length buf))
      (\<lambda>e s d. res_map (\<lambda>p. (p, False)) (notify_peer_of_error e s d ?p))
      (\<lambda>op. res_map (\<lambda>p. (p, is_connected (sc p) \<and> still_reading (sc p))) (event_openmess op ?p))))"
    using assms(5) corrupt by (intro catch_corrupt_goes_on) simp_all
  then show ?thesis
    using open_encoded [OF assms(4)] by (simp add: get_message_def Let_def)
qed

subsection \<open>Sessions\<close>

text \<open>
  A session waits for an OPEN on its connection, or it has put its CEASE at the end of the queue
  and reads nothing any more.
\<close>

definition waiting_session :: "session \<Rightarrow> bool" where
  "waiting_session a \<longleftrightarrow> ac_sock a = None \<and> accept_messages a \<and> live_link (socket_client a)
     \<and> writer (socket_client a) = Some []"

definition ceasing_session :: "session \<Rightarrow> bool" where
  "ceasing_session a \<longleftrightarrow> ac_sock a = None \<and> \<not> accept_messages a \<and> open_wait a = None
     \<and> is_connected (socket_client a) \<and> \<not> reader (socket_client a)
     \<and> (\<exists>q bs. writer (socket_client a) = Some (q @ [(bs, accept_notification_cb)])
          \<and> list_all (\<lambda>b. snd b = send_message_cb) q)"

definition session_ok :: "session \<Rightarrow> bool" where
  "session_ok a \<longleftrightarrow> waiting_session a \<or> ceasing_session a"

definition settles :: "outcome \<Rightarrow> bool" where
  "settles m \<longleftrightarrow> (\<exists>x p. m = Inr (x, p) \<and> peer_inv p \<and> (\<forall>a. x = Some a \<longrightarrow> session_ok a))"

lemma settles_Inr [simp]: "settles (Inr (x, p)) \<longleftrightarrow> peer_inv p \<and> (\<forall>a. x = Some a \<longrightarrow> session_ok a)"
  by (simp add: settles_def)

lemma settles_keep: "goes_on m \<Longrightarrow> session_ok a \<Longrightarrow> settles (res_map (\<lambda>p. (Some a, p)) m)"
  by (auto simp: goes_on_def)

lemma accept_notify:
  assumes "encode_packet (Notification_msg np) = Inr bs" "ac_sock a = None" "open_wait a = None"
    and "is_connected (socket_client a)" "writer (socket_client a) = Some q" "list_all (\<lambda>b. snd b = send_message_cb) q"
  shows "\<exists>a'. send_notification_accept np a p = Inr (Some a', p) \<and> session_ok a'"
proof -
  let ?a = "a\<lparr> accept_messages := False, socket_client := (socket_client a)\<lparr> reader := False,
    writer := Some (q @ [(bs, accept_notification_cb)]) \<rparr> \<rparr>"
  have "is_connected ((socket_client a)\<lparr> reader := False \<rparr>)" using assms(4) by (simp add: is_connected_def)
  then have "send_notification_accept np a p = Inr (Some ?a, p)"
    using assms by (simp add: send_notification_accept_def Let_def stop_reader_def async_remove_reader_def
        sc_send_message_def del: encode_packet.simps)
  moreover have "ceasing_session ?a"
    using assms by (auto simp: ceasing_session_def is_connected_def)
  ultimately show ?thesis by (auto simp: session_ok_def)
qed

lemma accept_cease:
  assumes "ac_sock a = None" "open_wait a = None" "live_link (socket_client a)"
  shows "\<exists>a'. cease a p = Inr (Some a', p) \<and> session_ok a'"
proof -
  obtain bs where "encode_packet (Notification_msg (notification CEASE)) = Inr bs" using encode_code by blast
  moreover obtain q where "writer (socket_client a) = Some q" "list_all (\<lambda>b. snd b = send_message_cb) q"
    using assms(3) by (auto simp: live_link_def)
  ultimately show ?thesis using accept_notify assms live_connected by (simp add: cease_def)
qed

lemma fresh_connection:
  "connected fd (socket_client (AcceptSession fd)) = Inr (SocketClient\<lparr> sock := Some fd, writer := Some [], reader := True \<rparr>)"
  by (simp add: connected_def async_add_def async_remove_def async_remove_reader_def SocketClient_def AcceptSession_def)

abbreviation opened :: "nat \<Rightarrow> session" where
  "opened fd \<equiv> (AcceptSession fd)\<lparr> socket_client := SocketClient\<lparr> sock := Some fd, writer := Some [], reader := True \<rparr>, ac_sock := None \<rparr>"

lemma opened_facts: "ac_sock (opened fd) = None" "open_wait (opened fd) = None" "live_link (socket_client (opened fd))"
  by (simp_all add: AcceptSession_def live_link_def SocketClient_def)

lemma fresh_opened:
  "cease (AcceptSession fd) p = cease (opened fd) p"
  "accept_swap_sockets (AcceptSession fd) p = accept_swap_sockets (opened fd) p"
  using fresh_connection [of fd]
  by (simp_all add: cease_def send_notification_accept_def accept_swap_sockets_def AcceptSession_def Let_def)

lemma collision_settles:
  assumes "peer_inv p" "pstate p = STATEOPENCONFIRM" "get_id (ld p) < pd_id (pd p) \<longrightarrow> t_keepalive p = None"
  shows "settles (collision (AcceptSession fd) p)"
proof (cases "get_id (ld p) < pd_id (pd p)")
  case True
  have st: "pstate p \<in> swap_states" using assms(2) by (simp add: swap_states_def)
  obtain p' where p': "accept_swap_sockets (AcceptSession fd) p = Inr ((opened fd)\<lparr> socket_client := sc p \<rparr>, p')" "swapped p p'"
    using swap_ok [OF opened_facts(1,3) st peer_inv_states(8) [OF assms(1)]] fresh_opened(2) by metis
  have "live_link (sc p)" using peer_inv_states(5) [OF assms(1,2)] .
  then obtain a' where "cease ((opened fd)\<lparr> socket_client := sc p \<rparr>) p' = Inr (Some a', p')" "session_ok a'"
    using accept_cease [of "(opened fd)\<lparr> socket_client := sc p \<rparr>" p'] opened_facts(1,2) [of fd] by auto
  moreover have "peer_inv p'" using swapped_inv [OF p'(2) assms(1) st] assms(3) True by simp
  ultimately show ?thesis using True p'(1) by (simp add: collision_def)
next
  case False
  obtain a' where "cease (opened fd) p = Inr (Some a', p)" "session_ok a'" using accept_cease [OF opened_facts] by blast
  with False assms(1) show ?thesis by (simp add: collision_def fresh_opened)
qed

lemma connected_settles:
  assumes "peer_inv p"
    and "pstate p = STATEOPENCONFIRM \<and> get_id (ld p) < pd_id (pd p) \<and> sock (sc p) \<noteq> Some fd \<longrightarrow> t_keepalive p = None"
  shows "settles (peer_connected fd p)"
proof (cases "sock (sc p) = Some fd")
  case True
  with assms(1) show ?thesis by (simp add: peer_connected_def)
next
  case False
  have removed: "remove_session ((AcceptSession fd)\<lparr> ac_sock := None \<rparr>) q = Inr (None, q)" for q
    by (simp add: remove_session_def AcceptSession_def)
  have start: "peer_connected fd p = accept_start (AcceptSession fd) p" using False by (simp add: peer_connected_def)
  have new: "ac_sock (AcceptSession fd) = Some fd" by (simp add: AcceptSession_def)
  have give: "settles (res_bind (event_open_sock fd p) (remove_session ((AcceptSession fd)\<lparr> ac_sock := None \<rparr>)))"
    using event_open_sock_goes_on [OF assms(1), of fd] removed by (auto simp: goes_on_def)
  show ?thesis
  proof (cases "pstate p")
    case STATEOPENSENT
    have "session_ok ((opened fd)\<lparr> open_wait := Some h \<rparr>)" for h
      by (simp add: session_ok_def waiting_session_def opened_facts(3) AcceptSession_def live_link_def SocketClient_def)
    moreover have "accept_start (AcceptSession fd) p = Inr (Some ((opened fd)\<lparr> open_wait :=
        Some (if hold_duration (pd p) = 0 then 4 * 60 else hold_duration (pd p)) \<rparr>), p)"
      using STATEOPENSENT new fresh_connection [of fd] by (simp add: accept_start_def Let_def)
    ultimately show ?thesis using assms(1) by (simp add: start)
  next
    case STATEOPENCONFIRM
    with collision_settles [OF assms(1)] assms(2) False new show ?thesis by (simp add: start accept_start_def)
  next
    case STATEESTABLISHED
    obtain a' where "cease (opened fd) p = Inr (Some a', p)" "session_ok a'" using accept_cease [OF opened_facts] by blast
    with STATEESTABLISHED assms(1) new show ?thesis by (simp add: start accept_start_def fresh_opened)
  qed (use give removed assms(1) new in \<open>simp_all add: start accept_start_def\<close>)
qed

text \<open>When the OPEN that a session receives makes the peer take over the connection.\<close>

definition takes_over :: "open_packet \<Rightarrow> peer \<Rightarrow> bool" where
  "takes_over op p \<longleftrightarrow> pstate p = STATEACTIVE
     \<or> pstate p \<in> {STATECONNECT, STATEOPENSENT, STATEOPENCONFIRM} \<and> get_id (ld p) < op_id op"

lemma swap_open_ok:
  assumes "peer_inv p" "takes_over op p" "reencodable op" "ac_sock a = None" "live_link (socket_client a)"
  shows "\<exists>p'. swap_sockets_open upd op a p = Inr (a\<lparr> socket_client := sc p \<rparr>, p') \<and> peer_inv p'"
proof -
  have st: "pstate p \<in> swap_states" using assms(2) by (auto simp: takes_over_def swap_states_def)
  obtain p1 where p1: "accept_swap_sockets a p = Inr (a\<lparr> socket_client := sc p \<rparr>, p1)" "swapped p p1"
    using swap_ok [OF assms(4,5) st peer_inv_states(8) [OF assms(1)]] by blast
  obtain buf where buf: "encode_packet (Open_msg op) = Inr buf" "survives (open_decode buf (length buf))"
    using assms(3) by (auto simp: reencodable_def simp del: encode_packet.simps split: sum.splits)
  obtain p' b where "get_message upd 0 GOOD_MESSAGE buf p1 = Inr (p', b)" "peer_inv p'"
    using reread_open [OF p1(2) assms(1) st buf, of upd 0]
    by (cases "get_message upd 0 GOOD_MESSAGE buf p1") (auto simp: goes_on_def)
  with p1(1) buf(1) show ?thesis by (simp add: swap_sockets_open_def del: encode_packet.simps)
qed

lemma cease_pending:
  assumes "ac_sock a = None" "open_wait a = None" "pending_link (socket_client a)"
  shows "cease a p = Inr (None, p)"
proof -
  obtain bs where "encode_packet (Notification_msg (notification CEASE)) = Inr bs" using encode_code by blast
  with assms show ?thesis
    by (simp add: cease_def send_notification_accept_def Let_def pending_link_def socket_defs remove_session_def
        del: encode_packet.simps)
qed

lemma end_session:
  assumes "ac_sock a = None" "open_wait a = None" "live_link (socket_client a)" "writer (socket_client a) = Some []"
  shows "disconnect_and_remove a p = Inr (None, p)"
proof -
  have "sock (socket_client a) \<noteq> None" using assms(3) by (simp add: live_link_def)
  then show ?thesis using assms disconnect_link [of "socket_client a"]
    by (simp add: disconnect_and_remove_def session_disconnect_def remove_session_def)
qed

lemma openmess_settles:
  assumes "peer_inv p" "ac_sock a = None" "open_wait a = None" "live_link (socket_client a)" "writer (socket_client a) = Some []"
    and "pstate p \<noteq> STATESTOPPED" "takes_over op p \<longrightarrow> reencodable op"
  shows "settles (event_openmess_accept upd op a p)"
proof -
  note inv = peer_inv_states [OF assms(1)]
  have cease: "settles (cease b q)" if "b = a\<lparr> socket_client := s \<rparr>" "live_link s \<or> pending_link s" "peer_inv q" for b s q
    using that accept_cease [of b q] cease_pending [of b q] assms(2,3) by auto
  have swap: "\<exists>p'. swap_sockets_open upd op a p = Inr (a\<lparr> socket_client := sc p \<rparr>, p') \<and> peer_inv p'" if "takes_over op p"
    using swap_open_ok [OF assms(1) that _ assms(2,4)] assms(7) that by blast
  have own: "settles (cease a p)" using cease [of a "socket_client a" p] assms(1,4) by simp
  have compare: "settles (event_openmess_accept upd op a p)"
    if st: "pstate p = STATECONNECT \<or> pstate p = STATEOPENSENT \<or> pstate p = STATEOPENCONFIRM"
  proof (cases "get_id (ld p) < op_id op")
    case True
    then obtain p' where p': "swap_sockets_open upd op a p = Inr (a\<lparr> socket_client := sc p \<rparr>, p')" "peer_inv p'"
      using swap st by (auto simp: takes_over_def)
    have "settles (cease (a\<lparr> socket_client := sc p \<rparr>) p')" using cease [OF refl _ p'(2)] inv(3-5) st by blast
    with True st p'(1) assms(2) show ?thesis by (auto simp: event_openmess_accept_def Let_def)
  next
    case False
    with own st assms(2) show ?thesis by (auto simp: event_openmess_accept_def Let_def)
  qed
  show ?thesis
  proof (cases "pstate p")
    case STATEACTIVE
    then obtain p' where "swap_sockets_open upd op a p = Inr (a\<lparr> socket_client := sc p \<rparr>, p')" "peer_inv p'"
      using swap by (auto simp: takes_over_def)
    with STATEACTIVE inv(2) assms(2,3) show ?thesis
      by (simp add: event_openmess_accept_def Let_def remove_session_def no_link_def)
  next
    case STATEIDLE
    with end_session [OF assms(2-5)] assms(1) show ?thesis by (simp add: event_openmess_accept_def Let_def)
  next
    case STATEESTABLISHED
    with own show ?thesis by (simp add: event_openmess_accept_def Let_def)
  qed (use compare assms(6) in simp_all)
qed

lemma notify_accept_settles:
  assumes "peer_inv p" "ac_sock a = None" "open_wait a = None" "live_link (socket_client a)" "length data \<le> 4075"
  shows "settles (notify_peer_of_error_accept error subcode data a p)"
proof -
  obtain bs where "encode_packet (Notification_msg (NotificationPacket (of_nat error) (of_nat subcode) (Some data))) = Inr bs"
    using encode_error [OF assms(5)] .
  moreover obtain q where "writer (socket_client a) = Some q" "list_all (\<lambda>b. snd b = send_message_cb) q"
    using assms(4) by (auto simp: live_link_def)
  ultimately obtain a' where "send_notification_accept (NotificationPacket (of_nat error) (of_nat subcode) (Some data)) a p
      = Inr (Some a', p)" "session_ok a'"
    using accept_notify [of _ _ a q p] assms(2-4) live_connected by blast
  with assms(1,4) live_connected show ?thesis by (simp add: notify_peer_of_error_accept_def)
qed

lemma catch_corrupt_settles:
  assumes "survives m" "\<And>e s d. length d \<le> 4075 \<Longrightarrow> settles (h e s d)" "\<And>x. m = Inr x \<Longrightarrow> settles (f x)"
  shows "settles (catch_corrupt m h f)"
proof (cases m)
  case (Inl e)
  with assms(1,2) show ?thesis by (cases e) (simp_all add: catch_corrupt_def survives_def)
qed (use assms(3) in \<open>simp add: catch_corrupt_def\<close>)

lemma get_message_accept_settles:
  assumes "peer_inv p" "waiting_session a"
    and "status = GOOD_MESSAGE \<longrightarrow> harmless upd buf"
    and "\<And>op. status = GOOD_MESSAGE \<Longrightarrow> buf ! TYPE_OFFSET = MESSAGETYPEOPEN \<Longrightarrow> open_decode buf (length buf) = Inr op
      \<Longrightarrow> pstate p \<noteq> STATESTOPPED \<and> (takes_over op p \<longrightarrow> reencodable op)"
  shows "settles (get_message_accept upd status buf a p)"
proof -
  let ?a = "a\<lparr> open_wait := None \<rparr>"
  have a: "ac_sock ?a = None" "open_wait ?a = None" "live_link (socket_client ?a)" "writer (socket_client ?a) = Some []"
      "accept_messages ?a"
    using assms(2) by (simp_all add: waiting_session_def)
  note corrupt = notify_accept_settles [OF assms(1) a(1-3)]
  have closed: "settles (disconnect_and_remove ?a p)" using end_session [OF a(1-4)] assms(1) by simp
  obtain a' where "cease ?a p = Inr (Some a', p)" "session_ok a'" using accept_cease [OF a(1-3)] by blast
  then have ceased: "settles (cease ?a p)" using assms(1) by simp
  show ?thesis
  proof (cases status)
    case GOOD_MESSAGE
    have open_msg: "settles (catch_corrupt (open_decode buf (length buf))
        (\<lambda>e s d. notify_peer_of_error_accept e s d ?a p) (\<lambda>op. event_openmess_accept upd op ?a p))"
      if "buf ! TYPE_OFFSET = MESSAGETYPEOPEN"
      using that assms(3) GOOD_MESSAGE assms(4) [OF GOOD_MESSAGE that] corrupt
      by (intro catch_corrupt_settles openmess_settles [OF assms(1) a(1-4)]) (simp_all add: harmless_def)
    have keep: "settles (catch_corrupt (keepalive_decode buf (length buf))
        (\<lambda>e s d. notify_peer_of_error_accept e s d ?a p) (\<lambda>_. event_keepmess_accept ?a p))"
      using corrupt ceased
      by (intro catch_corrupt_settles) (simp_all add: event_keepmess_accept_def survives_def keepalive_decode_def min_le_iff_disj)
    have notif: "settles (catch_corrupt (notification_decode buf (length buf))
        (\<lambda>e s d. notify_peer_of_error_accept e s d ?a p) (\<lambda>np. event_recvnotify_accept ?a p))"
      using corrupt closed
      by (intro catch_corrupt_settles) (simp_all add: event_recvnotify_accept_def survives_def notification_decode_def min_le_iff_disj)
    have update: "settles (case upd buf of Update_ok u \<Rightarrow> event_recvupdate_accept ?a p
        | Update_corrupt e s d \<Rightarrow> notify_peer_of_error_accept e s d ?a p | Update_unusable \<Rightarrow> Inr (Some ?a, p))"
      if "buf ! TYPE_OFFSET = MESSAGETYPEUPDATE"
      using that assms(1,3) GOOD_MESSAGE ceased corrupt a
      by (cases "upd buf") (simp_all add: harmless_def update_fits_def event_recvupdate_accept_def session_ok_def waiting_session_def)
    show ?thesis
      unfolding GOOD_MESSAGE get_message_accept_def Let_def packet_status.case
      using a(5) open_msg keep notif update corrupt by simp
  qed (use a(5) closed corrupt in \<open>simp_all add: get_message_accept_def Let_def event_closed_accept_def min_le_iff_disj\<close>)
qed

lemma end_closing_session:
  assumes "ac_sock a = None" "open_wait a = None" "closing_link (socket_client a)" "writer (socket_client a) = Some []"
  shows "disconnect_and_remove a p = Inr (None, p)"
proof -
  have "sock (socket_client a) \<noteq> None" using assms(3) by (simp add: closing_link_def)
  then show ?thesis using assms disconnect_link [of "socket_client a"]
    by (simp add: disconnect_and_remove_def session_disconnect_def remove_session_def)
qed

text \<open>The completion of a buffer of the peer on a connection that a session has taken over.\<close>

lemma old_message_complete_goes_on:
  assumes "peer_inv p" "ev = ERROR \<longrightarrow> pstate p \<noteq> STATECONNECT" "ev = DATA \<and> output_queue_was_busy p \<longrightarrow> writer (sc p) \<noteq> None"
  shows "goes_on (send_message_complete ev p)"
proof (cases ev)
  case DATA
  have "peer_inv (p\<lparr> output_queue_was_busy := False \<rparr>)" "peer_inv (p\<lparr> output_queue_was_busy := False, calls := cs \<rparr>)" for cs
    using assms(1) by (simp_all add: peer_inv_def timers_ok_def handler_ok_def config_ok_def)
  with DATA assms(1,3) show ?thesis
    by (auto simp: send_message_complete_def output_queue_busy_def Let_def)
qed (use assms event_closed_goes_on [OF assms(1)] in \<open>simp_all add: send_message_complete_def\<close>)

subsection \<open>Runs\<close>

text \<open>
  The events of a session: input on its connection, the end of a write, and the expiry of the
  timer that waits for an OPEN. A write ends with \<open>DATA\<close> or \<open>ERROR\<close>; \<open>FLUSHING\<close> is reported only from
  inside of a disconnect.
\<close>

datatype session_event =
    Accept_read packet_status "u8 list"
  | Accept_write nat connect_result write_event
  | Open_wait_exp

fun deliver_session :: "(u8 list \<Rightarrow> update_result) \<Rightarrow> session_event \<Rightarrow> session \<Rightarrow> peer \<Rightarrow> outcome" where
  "deliver_session upd (Accept_read status buf) a p = get_message_accept upd status buf a p"
| "deliver_session upd (Accept_write fd r ev) a p = accept_written fd r ev a p"
| "deliver_session upd Open_wait_exp a p = no_open_received (a\<lparr> open_wait := None \<rparr>) p"

fun possible_session :: "session_event \<Rightarrow> session \<Rightarrow> bool" where
  "possible_session (Accept_read status buf) a = reader (socket_client a)"
| "possible_session (Accept_write fd r ev) a = (ev \<noteq> FLUSHING)"
| "possible_session Open_wait_exp a = (open_wait a \<noteq> None)"

text \<open>
  The situations in which an event of a session is known to end the process: a message that the
  decoder does not survive; an OPEN in STOPPED; an OPEN that decides the collision for its
  connection and cannot be encoded again; a CEASE that cannot be written; and, for a buffer of the
  peer that is left on a connection the session has taken over, an error while the peer connects,
  or the end of the write while a busy peer has no connection.
\<close>

fun benign_session :: "(u8 list \<Rightarrow> update_result) \<Rightarrow> session_event \<Rightarrow> session \<Rightarrow> peer \<Rightarrow> bool" where
  "benign_session upd (Accept_read GOOD_MESSAGE buf) a p \<longleftrightarrow> harmless upd buf
     \<and> (buf ! TYPE_OFFSET = MESSAGETYPEOPEN \<longrightarrow> (case open_decode buf (length buf) of
          Inl _ \<Rightarrow> True
        | Inr op \<Rightarrow> pstate p \<noteq> STATESTOPPED \<and> (takes_over op p \<longrightarrow> reencodable op)))"
| "benign_session upd (Accept_write fd r ev) a p \<longleftrightarrow> (case writer (socket_client a) of
     Some ((_, accept_notification_cb) # _) \<Rightarrow> ev \<noteq> ERROR
   | Some ((_, send_message_cb) # _) \<Rightarrow> (ev = ERROR \<longrightarrow> pstate p \<noteq> STATECONNECT)
       \<and> (ev = DATA \<and> output_queue_was_busy p \<longrightarrow> writer (sc p) \<noteq> None)
   | _ \<Rightarrow> True)"
| "benign_session upd _ a p \<longleftrightarrow> True"

lemma accept_written_settles:
  assumes "peer_inv p" "session_ok a" "ev \<noteq> FLUSHING" "benign_session upd (Accept_write fd r ev) a p"
  shows "settles (accept_written fd r ev a p)"
proof (cases "waiting_session a")
  case True
  with assms(1,2) show ?thesis by (simp add: accept_written_def waiting_session_def)
next
  case False
  with assms(2) have a: "ceasing_session a" by (simp add: session_ok_def)
  then obtain q bs where q: "writer (socket_client a) = Some (q @ [(bs, accept_notification_cb)])"
      "list_all (\<lambda>b. snd b = send_message_cb) q" by (auto simp: ceasing_session_def)
  let ?a = "\<lambda>q. a\<lparr> socket_client := (socket_client a)\<lparr> writer := Some q \<rparr> \<rparr>"
  show ?thesis
  proof (cases q)
    case Nil
    with assms(3,4) q(1) have "ev = DATA" by (cases ev) simp_all
    moreover have "disconnect_and_remove (?a []) p = Inr (None, p)"
      using a by (intro end_closing_session) (auto simp: ceasing_session_def closing_link_def is_connected_def)
    ultimately show ?thesis using assms(1) q(1) Nil by (simp add: accept_written_def)
  next
    case (Cons b q')
    then obtain buf where b: "b = (buf, send_message_cb)" using q(2) by (cases b) simp
    have "goes_on (send_message_complete ev p)"
      using assms(1,4) q(1) Cons b by (intro old_message_complete_goes_on) simp_all
    moreover have "session_ok (?a (q' @ [(bs, accept_notification_cb)]))"
      using a q(2) Cons by (auto simp: session_ok_def ceasing_session_def is_connected_def)
    ultimately show ?thesis
      using assms(2) q(1) Cons b by (simp add: accept_written_def settles_keep)
  qed
qed

lemma deliver_session_settles:
  assumes "peer_inv p" "session_ok a" "possible_session e a" "benign_session upd e a p"
  shows "settles (deliver_session upd e a p)"
proof (cases e)
  case (Accept_read status buf)
  then have a: "waiting_session a" using assms(2,3) by (auto simp: session_ok_def ceasing_session_def)
  have "settles (get_message_accept upd status buf a p)"
    using assms(4) Accept_read by (intro get_message_accept_settles [OF assms(1) a]) auto
  with Accept_read show ?thesis by simp
next
  case (Accept_write fd r ev)
  with assms accept_written_settles [OF assms(1,2)] show ?thesis by (simp del: benign_session.simps)
next
  case Open_wait_exp
  then have a: "waiting_session a" using assms(2,3) by (auto simp: session_ok_def ceasing_session_def)
  then obtain a' where "cease (a\<lparr> open_wait := None \<rparr>) p = Inr (Some a', p)" "session_ok a'"
    using accept_cease [of "a\<lparr> open_wait := None \<rparr>" p] by (auto simp: waiting_session_def)
  with Open_wait_exp assms(1) show ?thesis by (simp add: no_open_received_def)
qed

text \<open>
  A peering is the peer with its list of sessions. A new session is put at the end, and one that
  removes itself is taken out.
\<close>

type_synonym peering = "peer \<times> session list"

datatype peering_event = Own fsm_event | Incoming nat | Session nat session_event

definition put_session :: "nat \<Rightarrow> session option \<Rightarrow> session list \<Rightarrow> session list" where
  "put_session i x ss = (case x of None \<Rightarrow> take i ss @ drop (Suc i) ss | Some a \<Rightarrow> ss[i := a])"

fun deliver_peering :: "(u8 list \<Rightarrow> update_result) \<Rightarrow> peering_event \<Rightarrow> peering \<Rightarrow> peering res" where
  "deliver_peering upd (Own e) (p, ss) = res_map (\<lambda>p. (p, ss)) (deliver upd e p)"
| "deliver_peering upd (Incoming fd) (p, ss) =
     res_map (\<lambda>(x, p). (p, case x of None \<Rightarrow> ss | Some a \<Rightarrow> ss @ [a])) (peer_connected fd p)"
| "deliver_peering upd (Session i e) (p, ss) =
     res_map (\<lambda>(x, p). (p, put_session i x ss)) (deliver_session upd e (ss ! i) p)"

fun possible_peering :: "peering_event \<Rightarrow> peering \<Rightarrow> bool" where
  "possible_peering (Own e) (p, ss) = possible e p"
| "possible_peering (Incoming fd) (p, ss) = True"
| "possible_peering (Session i e) (p, ss) = (i < length ss \<and> possible_session e (ss ! i))"

text \<open>
  An incoming connection is known to end the process when it makes the peer swap its connection
  in OPENCONFIRM while the keepalive timer runs.
\<close>

fun benign_peering :: "(u8 list \<Rightarrow> update_result) \<Rightarrow> peering_event \<Rightarrow> peering \<Rightarrow> bool" where
  "benign_peering upd (Own e) (p, ss) = benign upd e p"
| "benign_peering upd (Incoming fd) (p, ss) =
     (pstate p = STATEOPENCONFIRM \<and> get_id (ld p) < pd_id (pd p) \<and> sock (sc p) \<noteq> Some fd \<longrightarrow> t_keepalive p = None)"
| "benign_peering upd (Session i e) (p, ss) = benign_session upd e (ss ! i) p"

inductive peering_run :: "(u8 list \<Rightarrow> update_result) \<Rightarrow> peer \<Rightarrow> peering \<Rightarrow> bool" for upd p0 where
  run_start: "peering_run upd p0 (p0, [])"
| run_step: "peering_run upd p0 s \<Longrightarrow> possible_peering e s \<Longrightarrow> benign_peering upd e s \<Longrightarrow> deliver_peering upd e s = Inr s'
    \<Longrightarrow> peering_run upd p0 s'"

definition reachable :: "(u8 list \<Rightarrow> update_result) \<Rightarrow> peer \<Rightarrow> peer \<Rightarrow> bool" where
  "reachable upd p0 p \<longleftrightarrow> (\<exists>ss. peering_run upd p0 (p, ss))"

lemma reachable_start: "reachable upd p0 p0"
  unfolding reachable_def by (rule exI, rule run_start)

lemma reachable_step:
  assumes "reachable upd p0 p" "possible e p" "benign upd e p" "deliver upd e p = Inr p'"
  shows "reachable upd p0 p'"
proof -
  obtain ss where "peering_run upd p0 (p, ss)" using assms(1) by (auto simp: reachable_def)
  from run_step [OF this, of "Own e" "(p', ss)"] assms(2-4) show ?thesis by (auto simp: reachable_def)
qed

definition peering_inv :: "peering \<Rightarrow> bool" where
  "peering_inv s \<longleftrightarrow> peer_inv (fst s) \<and> list_all session_ok (snd s)"

lemma put_session_ok:
  "list_all session_ok ss \<Longrightarrow> \<forall>a. x = Some a \<longrightarrow> session_ok a \<Longrightarrow> list_all session_ok (put_session i x ss)"
  by (cases x) (auto simp: put_session_def list_all_iff dest: in_set_takeD in_set_dropD set_update_subset_insert [THEN subsetD])

lemma deliver_peering_inv:
  assumes "peering_inv s" "possible_peering e s" "benign_peering upd e s"
  shows "\<exists>s'. deliver_peering upd e s = Inr s' \<and> peering_inv s'"
proof -
  obtain p ss where s: "s = (p, ss)" by (cases s)
  have inv: "peer_inv p" "list_all session_ok ss" using assms(1) by (simp_all add: peering_inv_def s)
  show ?thesis
  proof (cases e)
    case (Own e')
    with deliver_goes_on [OF inv(1)] assms(2,3) inv(2) show ?thesis by (force simp: s goes_on_def peering_inv_def)
  next
    case (Incoming fd)
    then have "settles (peer_connected fd p)" using assms(3) by (intro connected_settles [OF inv(1)]) (simp add: s)
    then obtain x p' where "peer_connected fd p = Inr (x, p')" "peer_inv p'" "\<forall>a. x = Some a \<longrightarrow> session_ok a"
      by (auto simp: settles_def)
    with Incoming inv(2) show ?thesis by (cases x) (simp_all add: s peering_inv_def)
  next
    case (Session i e')
    then have i: "i < length ss" using assms(2) by (simp add: s)
    have "settles (deliver_session upd e' (ss ! i) p)"
      using assms(2,3) Session inv(2) i by (intro deliver_session_settles [OF inv(1)]) (simp_all add: s list_all_length)
    with Session inv(2) show ?thesis by (auto simp: s settles_def peering_inv_def put_session_ok)
  qed
qed

lemma peering_run_inv:
  assumes "peering_run upd p0 s" "peer_inv p0"
  shows "peering_inv s"
  using assms(1)
proof (induction rule: peering_run.induct)
  case (run_step s e s')
  with deliver_peering_inv [OF run_step.IH run_step.hyps(2,3)] show ?case by simp
qed (simp add: peering_inv_def assms(2))

lemma reachable_inv: "reachable upd p0 p \<Longrightarrow> peer_inv p0 \<Longrightarrow> peer_inv p"
  using peering_run_inv by (fastforce simp: reachable_def peering_inv_def)

text \<open>A peering as the configuration creates it: open messages are not delayed.\<close>

definition plain_config :: "peer_data \<Rightarrow> bool" where
  "plain_config d \<longleftrightarrow> delay_open_time d = 0 \<and> list_all sendable (sent_parameters d)
     \<and> wire_length (sent_parameters d) \<le> 255"

lemma peer_inv_new: "plain_config d \<Longrightarrow> peer_inv (BGPPeer l d SocketClient)"
  by (simp add: BGPPeer_def plain_config_def peer_inv_def timers_ok_def handler_ok_def config_ok_def)

lemma plain_config_example: "plain_config peer_data_example"
  by (simp add: plain_config_def peer_data_example_def add_sent_parameter_def add_parameter_def BGPPeerData_def
      open_negotiation_def local_example_def Let_def negotiate_def)
    (simp add: BGPMultiProtocolCapability_def)

abbreviation no_update :: "u8 list \<Rightarrow> update_result" where "no_update \<equiv> \<lambda>_. Update_unusable"

lemma example_connect:
  "\<exists>p. reachable no_update (BGPPeer local_example peer_data_example SocketClient) p
     \<and> pstate p = STATECONNECT \<and> connecting (sc p)"
proof -
  let ?p0 = "BGPPeer local_example peer_data_example SocketClient"
  have "\<exists>p. event_start 5 InProgress ?p0 = Inr p \<and> pstate p = STATECONNECT \<and> connecting (sc p)"
    by (simp add: BGPPeer_def event_start_def Let_def start_connect_retry_timer_def enter_plain connect_to_peer_def
        socket_defs)
  then obtain p where p: "deliver no_update (Start 5 InProgress) ?p0 = Inr p" "pstate p = STATECONNECT" "connecting (sc p)"
    by auto
  have "reachable no_update ?p0 p"
    by (rule reachable_step [OF reachable_start _ _ p(1)]) (simp_all add: BGPPeer_def)
  with p(2,3) show ?thesis by blast
qed

text \<open>A second connection comes in while the peer of the example waits for the OPEN on its first one.\<close>

lemma example_collision:
  "\<exists>p ss a. peering_run no_update (BGPPeer local_example peer_data_example SocketClient) (p, ss @ [a])
     \<and> pstate p = STATEOPENSENT \<and> open_wait a \<noteq> None"
proof -
  let ?p0 = "BGPPeer local_example peer_data_example SocketClient"
  obtain p where p: "reachable no_update ?p0 p" "connecting (sc p)" using example_connect by blast
  have inv: "peer_inv p" by (rule reachable_inv [OF p(1) peer_inv_new [OF plain_config_example]])
  obtain p1 where p1: "connect_done True p = Inr p1" "pstate p1 = STATEOPENSENT"
    using connect_done_open [OF inv p(2)] by blast
  have "reachable no_update ?p0 p1"
    by (rule reachable_step [OF p(1), of "Connect_done True"]) (simp_all add: p(2) p1(1))
  then obtain ss where run: "peering_run no_update ?p0 (p1, ss)" by (auto simp: reachable_def)
  have "\<exists>fd. sock (sc p1) \<noteq> Some fd" by (cases "sock (sc p1)") (auto intro: exI [of _ "Suc (the (sock (sc p1)))"])
  then obtain fd where "sock (sc p1) \<noteq> Some fd" by blast
  then obtain a where a: "peer_connected fd p1 = Inr (Some a, p1)" "open_wait a \<noteq> None"
    using p1(2) fresh_connection [of fd] by (simp add: peer_connected_def accept_start_def AcceptSession_def Let_def)
  have "peering_run no_update ?p0 (p1, ss @ [a])"
    by (rule run_step [OF run, of "Incoming fd"]) (simp_all add: a(1) p1(2))
  with p1(2) a(2) show ?thesis by blast
qed

text \<open>
  C6: The parts of a peering fit together in every state that a run reaches, when open messages are
  not delayed and the run avoids the situations that \<open>benign\<close>, \<open>benign_session\<close> and \<open>benign_peering\<close>
  exclude: the socket of the peer is absent, pending, live or closing as its state demands; the
  connect retry timer runs exactly in CONNECT and ACTIVE, the keepalive timer only in a negotiated
  session, the stopped timer exactly in STOPPED and the idle hold timer only in IDLE; the route
  tables see the peering as up in ESTABLISHED, and otherwise only while STOPPED waits for its
  notification; and every incoming connection waits for an OPEN or for its CEASE to be written.
\<close>

theorem fsm_invariant:
  assumes "plain_config d" "peering_run upd (BGPPeer l d SocketClient) (p, ss)"
  shows "link_ok (pstate p) (sc p) \<and> timers_ok p \<and> handler_ok p \<and> list_all session_ok ss"
  using peering_run_inv [OF assms(2) peer_inv_new [OF assms(1)]] by (simp add: peering_inv_def peer_inv_def)

theorem fsm_invariant_witness:
  "\<exists>p ss a. pstate p = STATEOPENSENT \<and> link_ok STATEOPENSENT (sc p) \<and> timers_ok p \<and> list_all session_ok (ss @ [a])"
proof -
  obtain p ss a where p: "peering_run no_update (BGPPeer local_example peer_data_example SocketClient) (p, ss @ [a])"
    and st: "pstate p = STATEOPENSENT" using example_collision by blast
  from fsm_invariant [OF plain_config_example p] st show ?thesis by auto
qed



end
