(* ===== verification/Peer_Session.thy ===== *)
theory Peer_Session
  imports Peer_Runs
begin

text \<open>
  Sessions of a peering (\<open>bgp/peer.cc\<close>): how one is established and recovers, the hold time that is
  negotiated, and the runs in which the process aborts.
\<close>

subsection \<open>The hold time\<close>

text \<open>
  C23: The timers of a session are bounded by both sides: an OPEN message that is accepted leaves a
  hold time that is the smaller of the configured and the offered one, so it is not 1 or 2
  unless it was configured so; three keepalive intervals fit into it, and the hold timer (with
  its extra second) does not wrap around.
\<close>

theorem hold_time_bounds:
  assumes "check_open_packet op d = (d', None)"
  shows "unat (hold_duration d') = min (unat (configured_hold_time d)) (unat (HoldTime op))
    \<and> 3 * unat (keepalive_duration d') \<le> unat (hold_duration d')
    \<and> (configured_hold_time d \<notin> {1, 2} \<longrightarrow> hold_duration d' \<notin> {1, 2})
    \<and> unat (hold_duration d' + 1) = unat (hold_duration d') + 1"
proof -
  let ?h = "if configured_hold_time d < HoldTime op then configured_hold_time d else HoldTime op"
  have offered: "HoldTime op \<noteq> 1" "HoldTime op \<noteq> 2"
    and h: "hold_duration d' = ucast ?h" "keepalive_duration d' = ucast (?h div 3)"
    using assms by (auto simp: check_open_packet_def Let_def split: if_splits)
  have up: "unat (ucast w :: u32) = unat w" for w :: u16
    using unsigned_less [of w, where 'a = nat] by (simp add: unsigned_ucast_eq take_bit_nat_eq_self)
  have "unat ?h = min (unat (configured_hold_time d)) (unat (HoldTime op))"
    by (simp add: word_less_nat_alt min_def)
  moreover have "3 * unat (?h div 3) \<le> unat ?h" by (simp add: unat_div)
  moreover have "hold_duration d' \<notin> {1, 2}" if "configured_hold_time d \<notin> {1, 2}"
  proof -
    have "?h \<noteq> 1" "?h \<noteq> 2" using that offered by auto
    then have "unat ?h \<noteq> unat (1 :: u16)" "unat ?h \<noteq> unat (2 :: u16)"
      unfolding word_unat_eq_iff by blast+
    then have "unat ?h \<noteq> 1" "unat ?h \<noteq> 2" by simp_all
    then show ?thesis unfolding h by (auto simp: up dest!: arg_cong [where f = unat])
  qed
  moreover have "unat ?h < 65536" using unsigned_less [of ?h, where 'a = nat] by simp
  ultimately show ?thesis unfolding h by (auto simp: up unat_word_ariths)
qed

lemma peer_data_example_fields:
  "pd_as peer_data_example = AsNum 9" "configured_hold_time peer_data_example = 90"
  by (simp_all add: peer_data_example_def add_sent_parameter_def BGPPeerData_def Let_def open_negotiation_def local_example_def)

definition offer :: open_packet where
  "offer = make_open (AsNum 9) (IPv4 0x200000a) 30 []"

lemma offer_fields:
  "Version offer = 4" "op_as offer = AsNum 9" "op_id offer = IPv4 0x200000a" "HoldTime offer = 30" "parameter_list offer = []"
  by (simp_all add: offer_def make_open_def OpenPacket_def BGPVERSION_def)

lemma check_offer:
  assumes "pd_as d = AsNum 9" "configured_hold_time d = 90"
  shows "check_open_packet offer d
    = (d\<lparr> pd_id := IPv4 0x200000a, hold_duration := 30, keepalive_duration := 10 \<rparr>, None)"
proof -
  have "is_unicast (IPv4 0x200000a)" "\<not> is_zero (IPv4 0x200000a)"
    by (simp_all add: is_unicast_def is_zero_def IN_CLASSA_def IN_CLASSB_def IN_CLASSC_def IN_MULTICAST_def
        IN_BADCLASS_def is_class_a_def is_class_b_def is_class_c_def bswap32_def)
  then show ?thesis
    by (simp add: check_open_packet_def offer_fields assms BGPVERSION_def Let_def)
qed

theorem hold_time_bounds_witness:
  "\<exists>d'. check_open_packet offer peer_data_example = (d', None) \<and> unat (hold_duration d') = 30
     \<and> 3 * unat (keepalive_duration d') \<le> 30"
proof -
  note check = check_offer [OF peer_data_example_fields]
  show ?thesis using hold_time_bounds [OF check] check by (simp add: offer_fields peer_data_example_fields)
qed

subsection \<open>Establishing a session\<close>

lemma handshake:
  assumes "plain_config d" "reachable upd (BGPPeer l d SocketClient) p" "connecting (sc p)"
    and "take MARKER_SIZE ob = Marker" "ob ! TYPE_OFFSET = MESSAGETYPEOPEN"
    and "open_decode ob (length ob) = Inr op" "snd (check_open_packet op (pd p)) = None"
    and "keepalive_encode = Inr kb"
  shows "\<exists>p1 p2 p3. deliver upd (Connect_done True) p = Inr p1 \<and> pstate p1 = STATEOPENSENT
      \<and> deliver upd (Read GOOD_MESSAGE ob n) p1 = Inr p2 \<and> pstate p2 = STATEOPENCONFIRM
      \<and> deliver upd (Read GOOD_MESSAGE kb n) p2 = Inr p3 \<and> pstate p3 = STATEESTABLISHED
      \<and> handler p3 = Some True \<and> reader (sc p1) \<and> reader (sc p2)"
proof -
  have inv: "peer_inv p" by (rule reachable_inv [OF assms(2) peer_inv_new [OF assms(1)]])
  have st: "pstate p = STATECONNECT" using connecting_state [OF inv assms(3)] .
  obtain p1 where p1: "connect_done True p = Inr p1" "peer_inv p1" "pstate p1 = STATEOPENSENT"
      "pd p1 = (pd p)\<lparr> hold_duration := 240 \<rparr>"
    using connect_done_open [OF inv assms(3)] by blast
  let ?q = "p1\<lparr> in_total_messages := in_total_messages p1 + 1 \<rparr>"
  have q: "live_link (sc ?q)" "quiet ?q" "pstate ?q = STATEOPENSENT"
    using peer_inv_states(4) [OF p1(2,3)] quietI [OF p1(2)] p1(3) by (simp_all add: quiet_def config_ok_def)
  obtain d' where "check_open_packet op (pd ?q) = (d', None)"
    using assms(7) p1(4) by (auto simp: check_open_packet_def Let_def split: if_splits)
  then obtain p2 where p2: "process_open op ?q = Inr p2" "peer_inv p2" "pstate p2 = STATEOPENCONFIRM"
    using process_open_accepts [OF q] by blast
  have "get_message upd n GOOD_MESSAGE ob p1 = res_map (\<lambda>p. (p, is_connected (sc p) \<and> still_reading (sc p))) (Inr p2)"
    using assms(4,5,6) p1(3) p2(1) by (simp add: get_message_def Let_def catch_corrupt_def event_openmess_def)
  then have step2: "deliver upd (Read GOOD_MESSAGE ob n) p1 = Inr p2" by simp
  let ?r = "p2\<lparr> in_total_messages := in_total_messages p2 + 1 \<rparr>"
  have "peer_inv ?r" using p2(2) by (simp add: peer_inv_def timers_ok_def handler_ok_def config_ok_def)
  then obtain p3 where p3: "enter_state STATEESTABLISHED True True ?r = Inr p3" "peer_inv p3" "pstate p3 = STATEESTABLISHED"
    using established_inv [of ?r] p2(3) by auto
  have kb: "take MARKER_SIZE kb = Marker" "kb ! TYPE_OFFSET = MESSAGETYPEKEEPALIVE" "length kb = MINKEEPALIVEPACKET"
    using assms(8) by (auto simp: keepalive_encode_def packet_sizes nth_append)
  have "get_message upd n GOOD_MESSAGE kb p2
      = res_map (\<lambda>p. (p, is_connected (sc p) \<and> still_reading (sc p))) (Inr (restart_hold_timer p3))"
    using kb p2(3) p3(1)
    by (simp add: get_message_def Let_def catch_corrupt_def keepalive_decode_def event_keepmess_def message_types)
  then have step3: "deliver upd (Read GOOD_MESSAGE kb n) p2 = Inr (restart_hold_timer p3)" by simp
  have "pstate (restart_hold_timer p3) = STATEESTABLISHED" "handler (restart_hold_timer p3) = Some True"
    using p3(2,3) by (simp_all add: restart_hold_timer_def start_hold_timer_def clear_hold_timer_def peer_inv_def handler_ok_def)
  moreover have "reader (sc p1)" "reader (sc p2)"
    using peer_inv_states(4) [OF p1(2,3)] peer_inv_states(5) [OF p2(2,3)] by (simp_all add: live_link_def)
  ultimately show ?thesis using p1(1,3) p2(3) step2 step3 by auto
qed

text \<open>
  C12: A session is established by the exchange of messages: when the pending connect of a
  reachable peer succeeds, the peer sends its OPEN; an OPEN message that the check accepts takes it
  to OPENCONFIRM; and a KEEPALIVE then takes it to ESTABLISHED, with the peering up in the route
  tables.
\<close>

theorem handshake_establishes:
  assumes "plain_config d" "reachable upd (BGPPeer l d SocketClient) p" "connecting (sc p)"
    and "take MARKER_SIZE ob = Marker" "ob ! TYPE_OFFSET = MESSAGETYPEOPEN"
    and "open_decode ob (length ob) = Inr op" "snd (check_open_packet op (pd p)) = None"
    and "keepalive_encode = Inr kb"
  shows "\<exists>p1 p2 p3. deliver upd (Connect_done True) p = Inr p1 \<and> pstate p1 = STATEOPENSENT
      \<and> deliver upd (Read GOOD_MESSAGE ob n) p1 = Inr p2 \<and> pstate p2 = STATEOPENCONFIRM
      \<and> deliver upd (Read GOOD_MESSAGE kb n) p2 = Inr p3 \<and> pstate p3 = STATEESTABLISHED
      \<and> handler p3 = Some True"
  using handshake [OF assms, of n] by (elim exE conjE) (intro exI conjI, assumption+)

text \<open>The peer of the example receives the offer of AS 9.\<close>

lemma offer_bytes:
  "\<exists>ob. take MARKER_SIZE ob = Marker \<and> ob ! TYPE_OFFSET = MESSAGETYPEOPEN \<and> open_decode ob (length ob) = Inr offer"
proof -
  have "squash (AsNum 9) = AsNum 9" by (rule squash_id) (simp add: extended_def)
  with open_encode_make_open [of "[]" 4096 "AsNum 9" "IPv4 0x200000a" 30]
    open_decode_encode [of "[]" 4096 "AsNum 9" "IPv4 0x200000a" 30]
  obtain ob where "open_decode ob (length ob) = Inr offer"
    and "ob = Marker @ [0, 29, 1, 4] @ as_copy_out (AsNum 9) @ embed_16 30 @ copy_out (IPv4 0x200000a) @ [0]"
    by (auto simp: offer_def packet_sizes)
  then have "take MARKER_SIZE ob = Marker \<and> ob ! TYPE_OFFSET = MESSAGETYPEOPEN \<and> open_decode ob (length ob) = Inr offer"
    by (simp add: packet_sizes nth_append message_types)
  then show ?thesis ..
qed

lemma example_pd:
  "\<exists>p. reachable no_update (BGPPeer local_example peer_data_example SocketClient) p \<and> connecting (sc p)
     \<and> pd_as (pd p) = AsNum 9 \<and> configured_hold_time (pd p) = 90 \<and> pstate p = STATECONNECT"
proof -
  let ?p0 = "BGPPeer local_example peer_data_example SocketClient"
  have "\<exists>p. event_start 5 InProgress ?p0 = Inr p \<and> connecting (sc p) \<and> pd p = compute_peer_type local_example peer_data_example
      \<and> pstate p = STATECONNECT"
    by (simp add: BGPPeer_def event_start_def Let_def start_connect_retry_timer_def enter_plain connect_to_peer_def
        socket_defs)
  then obtain p where p: "deliver no_update (Start 5 InProgress) ?p0 = Inr p" "connecting (sc p)"
      "pd p = compute_peer_type local_example peer_data_example" "pstate p = STATECONNECT" by auto
  have "reachable no_update ?p0 p"
    by (rule reachable_step [OF reachable_start _ _ p(1)]) (simp_all add: BGPPeer_def)
  moreover have "pd_as (pd p) = AsNum 9" "configured_hold_time (pd p) = 90"
    unfolding p(3) compute_peer_type_def by (simp_all add: peer_data_example_fields)
  ultimately show ?thesis using p(2,4) by blast
qed

theorem handshake_establishes_witness:
  "\<exists>p ob kb p1 p2 p3. pstate p = STATECONNECT \<and> deliver no_update (Connect_done True) p = Inr p1
     \<and> deliver no_update (Read GOOD_MESSAGE ob 0) p1 = Inr p2
     \<and> deliver no_update (Read GOOD_MESSAGE kb 0) p2 = Inr p3 \<and> pstate p3 = STATEESTABLISHED"
proof -
  obtain p where p: "reachable no_update (BGPPeer local_example peer_data_example SocketClient) p" "connecting (sc p)"
      "pd_as (pd p) = AsNum 9" "configured_hold_time (pd p) = 90" "pstate p = STATECONNECT"
    using example_pd by blast
  obtain ob where ob: "take MARKER_SIZE ob = Marker" "ob ! TYPE_OFFSET = MESSAGETYPEOPEN" "open_decode ob (length ob) = Inr offer"
    using offer_bytes by blast
  obtain kb where kb: "keepalive_encode = Inr kb" by (simp add: keepalive_encode_def packet_sizes)
  have "snd (check_open_packet offer (pd p)) = None" using check_offer [OF p(3,4)] by simp
  from handshake_establishes [OF plain_config_example p(1,2) ob this kb, of 0] p(5) show ?thesis by blast
qed

lemma example_established:
  "\<exists>p. reachable no_update (BGPPeer local_example peer_data_example SocketClient) p \<and> pstate p = STATEESTABLISHED"
proof -
  obtain p where p: "reachable no_update (BGPPeer local_example peer_data_example SocketClient) p" "connecting (sc p)"
      "pd_as (pd p) = AsNum 9" "configured_hold_time (pd p) = 90"
    using example_pd by blast
  obtain ob where ob: "take MARKER_SIZE ob = Marker" "ob ! TYPE_OFFSET = MESSAGETYPEOPEN" "open_decode ob (length ob) = Inr offer"
    using offer_bytes by blast
  obtain kb where kb: "keepalive_encode = Inr kb" by (simp add: keepalive_encode_def packet_sizes)
  have "snd (check_open_packet offer (pd p)) = None" using check_offer [OF p(3,4)] by simp
  from handshake [OF plain_config_example p(1,2) ob this kb, of 0]
  obtain p1 p2 p3 where s1: "deliver no_update (Connect_done True) p = Inr p1"
    and s2: "deliver no_update (Read GOOD_MESSAGE ob 0) p1 = Inr p2"
    and s3: "deliver no_update (Read GOOD_MESSAGE kb 0) p2 = Inr p3" "pstate p3 = STATEESTABLISHED"
    and r: "reader (sc p1)" "reader (sc p2)" by blast
  have "length kb = 19" using kb by (auto simp: keepalive_encode_def packet_sizes)
  then have "survives (open_decode kb (length kb))"
    by (simp add: survives_def open_decode_def packet_sizes)
  moreover have "survives (open_decode ob (length ob))" using ob(3) by (simp add: survives_def)
  ultimately have "reachable no_update (BGPPeer local_example peer_data_example SocketClient) p3"
    using reachable_step [OF reachable_step [OF reachable_step [OF p(1) _ _ s1] _ _ s2] _ _ s3(1)] p(2) r
    by (simp add: harmless_def update_fits_def)
  with s3(2) show ?thesis by blast
qed

subsection \<open>Recovery\<close>

text \<open>
  C13: A session that is lost comes back: when the connection of an established peer is closed, the
  peer goes to IDLE, the route tables are told, and the idle hold timer is set to 0 seconds, or
  to 120 from the tenth restart in five minutes on; when it expires the peer connects again.
\<close>

theorem lost_session_recovers:
  assumes "plain_config d" "reachable upd (BGPPeer l d SocketClient) p" "pstate p = STATEESTABLISHED"
  shows "\<exists>p1 n p2. deliver upd (Read CONNECTION_CLOSED [] k) p = Inr p1 \<and> pstate p1 = STATEIDLE
      \<and> handler p1 = Some False \<and> t_idle_hold p1 = Some (Idle_hold_exp, n) \<and> n \<in> {0, 120}
      \<and> deliver upd (Idle_exp fd InProgress) p1 = Inr p2 \<and> pstate p2 = STATECONNECT"
proof -
  have inv: "peer_inv p" by (rule reachable_inv [OF assms(2) peer_inv_new [OF assms(1)]])
  have live: "live_link (sc p)" and h: "handler p = Some True" and config: "config_ok p"
    using peer_inv_states [OF inv] assms(3) by simp_all
  have closed: "deliver upd (Read CONNECTION_CLOSED [] k) p = enter_state STATEIDLE True True p"
    using assms(3) by (simp add: get_message_def event_closed_def)
  have damping: "damping_peer_oscillations p" using config by (simp add: config_ok_def)
  let ?q = "p\<lparr> pstate := STATEIDLE, t_connect_retry := None, t_hold := None, t_keepalive := None,
    t_stopped := None, t_delay_open := None, t_idle_hold := None, handler := Some False,
    calls := calls p @ [Went_down], sc := SocketClient, in_updates := 0, out_updates := 0,
    in_total_messages := 0, out_total_messages := 0 \<rparr>"
  let ?p1 = "start_idle_hold_timer (automatic_restart ?q)"
  have idle: "enter_state STATEIDLE True True p = Inr ?p1"
    using disconnect_link [of "sc p"] live assms(3) h damping
    by (simp add: enter_state_def clear_all_timers_eq release_resources_def)
  note fields = idle_timers [of ?q]
  have "goes_on (Inr ?p1)"
    unfolding idle [symmetric] using assms(3) config live by (intro enter_idle_goes_on) simp_all
  then have "peer_inv ?p1" by simp
  then have inv1: "peer_inv (?p1\<lparr> t_idle_hold := None \<rparr>)" "pstate ?p1 = STATEIDLE"
    using fields damping by (simp_all add: peer_inv_def timers_ok_def handler_ok_def)
  then have s: "sc ?p1 = SocketClient" using peer_inv_states(1) [OF inv1(1)] by (simp add: no_link_def)
  have "\<exists>p2. event_start fd InProgress (?p1\<lparr> t_idle_hold := None \<rparr>) = Inr p2 \<and> pstate p2 = STATECONNECT"
    using inv1(2) s by (simp add: event_start_def Let_def start_connect_retry_timer_def enter_plain
        connect_to_peer_def socket_defs)
  moreover have "idle_holdtime (automatic_restart ?q) \<in> {0, 120}" by (simp add: idle_holdtime_def)
  ultimately show ?thesis
    unfolding closed idle using fields damping inv1(2) by (auto simp: event_idle_hold_exp_def)
qed

theorem lost_session_recovers_witness:
  "\<exists>p p1 n p2. pstate p = STATEESTABLISHED \<and> deliver no_update (Read CONNECTION_CLOSED [] 0) p = Inr p1
     \<and> t_idle_hold p1 = Some (Idle_hold_exp, n) \<and> deliver no_update (Idle_exp 6 InProgress) p1 = Inr p2
     \<and> pstate p2 = STATECONNECT"
proof -
  obtain p where p: "reachable no_update (BGPPeer local_example peer_data_example SocketClient) p" "pstate p = STATEESTABLISHED"
    using example_established by blast
  from lost_session_recovers [OF plain_config_example p, of 0 6] p(2) show ?thesis by blast
qed

subsection \<open>Runs that abort\<close>

lemma enter_idle_pending:
  assumes "pstate p = STATECONNECT" "connecting (sc p)" "damping_peer_oscillations p"
  shows "\<exists>p1 n. enter_state STATEIDLE True True p = Inr p1 \<and> pstate p1 = STATEIDLE \<and> sc p1 = sc p
    \<and> t_idle_hold p1 = Some (Idle_hold_exp, n) \<and> pd p1 = pd p \<and> ld p1 = ld p"
  using assms
  by (cases "handler p = Some True")
    (simp_all add: enter_state_def clear_all_timers_eq release_resources_def is_connected_def Let_def
      start_idle_hold_timer_def automatic_restart_def damp_restart_def)

lemma start_with_socket_aborts:
  assumes "pstate p = STATEIDLE" "sock (sc p) \<noteq> None"
  shows "event_start fd r p = Inl XlogAssert"
  using assms by (simp add: event_start_def Let_def start_connect_retry_timer_def enter_plain connect_to_peer_def
      sc_connect_def create_socket_def)

text \<open>
  The hold timer of a connection that was closed in OPENSENT keeps running. When it expires
  while the next connect is pending, the peer goes to IDLE without breaking that connect
  (\<open>is_connected\<close> is false for it), and the restart that follows fails the assertion in
  \<open>create_socket\<close> that there is no socket: the process aborts.
\<close>

theorem stale_hold_timer_aborts:
  assumes "plain_config d" "reachable upd (BGPPeer l d SocketClient) p" "connecting (sc p)" "t_hold p \<noteq> None"
  shows "\<exists>p1. deliver upd Hold_exp p = Inr p1 \<and> pstate p1 = STATEIDLE \<and> possible (Idle_exp fd r) p1
      \<and> deliver upd (Idle_exp fd r) p1 = Inl XlogAssert"
proof -
  have inv: "peer_inv p" by (rule reachable_inv [OF assms(2) peer_inv_new [OF assms(1)]])
  have st: "pstate p = STATECONNECT" by (rule connecting_state [OF inv assms(3)])
  have "sock (sc p) \<noteq> None" "damping_peer_oscillations p"
    using peer_inv_states(3) [OF inv st] peer_inv_states(8) [OF inv] by (simp_all add: pending_link_def config_ok_def)
  with enter_idle_pending [of "p\<lparr> t_hold := None \<rparr>"] st assms(3)
  obtain p1 n where p1: "enter_state STATEIDLE True True (p\<lparr> t_hold := None \<rparr>) = Inr p1" "pstate p1 = STATEIDLE"
      "sock (sc p1) \<noteq> None" "t_idle_hold p1 = Some (Idle_hold_exp, n)"
    by auto
  have "deliver upd Hold_exp p = Inr p1" using st p1(1) by (simp add: event_holdexp_def)
  moreover have "deliver upd (Idle_exp fd r) p1 = Inl XlogAssert"
    using p1(2-4) by (simp add: event_idle_hold_exp_def start_with_socket_aborts)
  ultimately show ?thesis using p1 by auto
qed

lemma example_stale_hold:
  "\<exists>p. reachable no_update (BGPPeer local_example peer_data_example SocketClient) p \<and> connecting (sc p) \<and> t_hold p \<noteq> None"
proof -
  let ?p0 = "BGPPeer local_example peer_data_example SocketClient"
  obtain p where p: "reachable no_update ?p0 p" "connecting (sc p)" using example_connect by blast
  have inv: "peer_inv p" by (rule reachable_inv [OF p(1) peer_inv_new [OF plain_config_example]])
  obtain p1 where p1: "connect_done True p = Inr p1" "peer_inv p1" "pstate p1 = STATEOPENSENT"
    using connect_done_open [OF inv p(2)] by blast
  have r1: "reachable no_update ?p0 p1"
    by (rule reachable_step [OF p(1), of "Connect_done True"]) (simp_all add: p(2) p1(1))
  have live: "live_link (sc p1)" by (rule peer_inv_states(4) [OF p1(2,3)])
  let ?p2 = "p1\<lparr> sc := SocketClient, t_connect_retry := Some (retry_duration (pd p1)), pstate := STATEACTIVE \<rparr>"
  have closed: "deliver no_update (Read CONNECTION_CLOSED [] 0) p1 = Inr ?p2"
    using p1(3) disconnect_link [of "sc p1"] live
    by (simp add: get_message_def event_closed_def enter_plain restart_connect_retry_timer_def
        start_connect_retry_timer_def clear_connect_retry_timer_def)
  have r2: "reachable no_update ?p0 ?p2"
    by (rule reachable_step [OF r1 _ _ closed]) (use live in \<open>simp_all add: live_link_def\<close>)
  let ?p3 = "?p2\<lparr> t_connect_retry := Some (retry_duration (pd p1)), pstate := STATECONNECT,
    sc := SocketClient\<lparr> sock := Some 6, connecting := True \<rparr> \<rparr>"
  have retry: "deliver no_update (Connect_retry_exp 6 InProgress) ?p2 = Inr ?p3"
    by (simp add: event_connexp_def enter_plain restart_connect_retry_timer_def start_connect_retry_timer_def
        clear_connect_retry_timer_def connect_to_peer_def socket_defs)
  have "reachable no_update ?p0 ?p3" by (rule reachable_step [OF r2 _ _ retry]) simp_all
  moreover have "t_hold p1 \<noteq> None" using p1(2,3) by (simp add: peer_inv_def timers_ok_def)
  ultimately show ?thesis by (intro exI [of _ ?p3]) simp
qed

theorem stale_hold_timer_aborts_witness:
  "\<exists>p p1. deliver no_update Hold_exp p = Inr p1 \<and> deliver no_update (Idle_exp 7 InProgress) p1 = Inl XlogAssert"
proof -
  obtain p where p: "reachable no_update (BGPPeer local_example peer_data_example SocketClient) p" "connecting (sc p)"
      "t_hold p \<noteq> None"
    using example_stale_hold by blast
  from stale_hold_timer_aborts [OF plain_config_example p, of 7 InProgress] show ?thesis by blast
qed

text \<open>
  \<open>bounce_peer\<close> starts a peer that is in IDLE. When it waits there for its idle hold timer, the timer
  is not cleared, and its expiry fails the assertion that the state is IDLE.
\<close>

lemma bounce_in_idle_hold_aborts:
  assumes "peer_inv p" "pstate p = STATEIDLE" "t_idle_hold p = Some (Idle_hold_exp, n)" "current_peer_state p"
  shows "\<exists>p1. bounce_peer fd InProgress p = Inr p1 \<and> pstate p1 = STATECONNECT \<and> possible (Idle_exp fd' r) p1
    \<and> deliver upd (Idle_exp fd' r) p1 = Inl XlogAssert"
  using assms peer_inv_states(1) [OF assms(1)]
  by (simp add: bounce_peer_def event_start_def Let_def start_connect_retry_timer_def enter_plain connect_to_peer_def
      no_link_def socket_defs event_idle_hold_exp_def)

text \<open>
  \<open>disable_peer\<close> does nothing to a peer that waits in IDLE: the timer expires and the peer connects.
\<close>

lemma disable_in_idle_hold_ignored:
  assumes "peer_inv p" "pstate p = STATEIDLE" "t_idle_hold p = Some (Idle_hold_exp, n)"
  shows "\<exists>p1 p2. disable_peer fd r p = Inr p1 \<and> \<not> current_peer_state p1
    \<and> deliver upd (Idle_exp fd InProgress) p1 = Inr p2 \<and> pstate p2 = STATECONNECT"
  using assms peer_inv_states(1) [OF assms(1)]
  by (simp add: disable_peer_def event_stop_def event_idle_hold_exp_def event_start_def Let_def
      start_connect_retry_timer_def enter_plain connect_to_peer_def no_link_def socket_defs)

text \<open>
  A notification that was sent takes the peer to IDLE as an automatic restart, whatever
  \<open>event_stop\<close> asked for; one that could not be sent keeps the request.
\<close>

lemma bounce_is_automatic_when_sent:
  assumes "pstate p = STATESTOPPED"
  shows "send_notification_complete fd r DATA True False p = enter_state STATEIDLE True True p"
    and "send_notification_complete fd r ERROR True False p = set_state fd r STATEIDLE True False p"
  using assms by (cases "enter_state STATEIDLE True True p"; simp add: send_notification_complete_def set_state_def)+

text \<open>
  With a delayed open the connection is up while the state is still CONNECT or ACTIVE, and what
  the peer sends is read. \<open>event_keepmess\<close> takes a KEEPALIVE in these states for impossible: a
  remote router that sends one before our OPEN aborts the process.
\<close>

theorem delayed_open_keepalive_aborts:
  assumes "pstate p = STATECONNECT" "connecting (sc p)" "delay_open_time (pd p) \<noteq> 0" "keepalive_encode = Inr kb"
  shows "\<exists>p1. deliver upd (Connect_done True) p = Inr p1 \<and> pstate p1 = STATECONNECT
      \<and> possible (Read GOOD_MESSAGE kb n) p1 \<and> deliver upd (Read GOOD_MESSAGE kb n) p1 = Inl XlogFatal"
proof -
  let ?p1 = "p\<lparr> sc := (sc p)\<lparr> connecting := False, writer := Some [], reader := True \<rparr>,
    t_idle_hold := Some (Delay_open_exp, delay_open_time (pd p)), t_connect_retry := None \<rparr>"
  have "deliver upd (Connect_done True) p = Inr ?p1"
    using assms(1-3)
    by (simp add: connect_done_def connect_to_peer_complete_def socket_defs event_open_def start_delay_open_timer_def
        clear_connect_retry_timer_def)
  moreover have "take MARKER_SIZE kb = Marker" "kb ! TYPE_OFFSET = MESSAGETYPEKEEPALIVE" "length kb = MINKEEPALIVEPACKET"
    using assms(4) by (auto simp: keepalive_encode_def packet_sizes nth_append)
  ultimately show ?thesis
    using assms(1) by (simp add: get_message_def Let_def catch_corrupt_def keepalive_decode_def event_keepmess_def message_types)
qed

theorem delayed_open_keepalive_aborts_witness:
  "\<exists>p kb p1. pstate p = STATECONNECT \<and> deliver no_update (Connect_done True) p = Inr p1
     \<and> deliver no_update (Read GOOD_MESSAGE kb 0) p1 = Inl XlogFatal"
proof -
  let ?d = "peer_data_example\<lparr> delay_open_time := 5 \<rparr>"
  have "\<exists>p. event_start 5 InProgress (BGPPeer local_example ?d SocketClient) = Inr p \<and> pstate p = STATECONNECT
      \<and> connecting (sc p) \<and> delay_open_time (pd p) \<noteq> 0"
    by (simp add: BGPPeer_def event_start_def Let_def start_connect_retry_timer_def enter_plain connect_to_peer_def
        socket_defs compute_peer_type_def)
  then obtain p :: peer where p: "pstate p = STATECONNECT" "connecting (sc p)" "delay_open_time (pd p) \<noteq> 0"
    by blast
  obtain kb where kb: "keepalive_encode = Inr kb" by (simp add: keepalive_encode_def packet_sizes)
  from delayed_open_keepalive_aborts [OF p kb, of no_update 0] p(1) show ?thesis by blast
qed

text \<open>
  In ACTIVE a second incoming connection during the delay fails the assertion of
  \<open>SocketClient::connected\<close> that there is no socket.
\<close>

lemma second_connection_aborts:
  assumes "pstate p = STATEACTIVE" "no_link (sc p)" "delay_open_time (pd p) \<noteq> 0"
  shows "\<exists>p1. deliver upd (Open_sock fd) p = Inr p1 \<and> deliver upd (Open_sock fd') p1 = Inl XlogAssert"
  using assms
  by (simp add: event_open_sock_def no_link_def socket_defs event_open_def start_delay_open_timer_def
      clear_connect_retry_timer_def)

text \<open>
  The delay timer is \<open>_idle_hold\<close>, while \<open>clear_delay_open_timer\<close> unschedules \<open>_delay_open\<close>, which nothing
  ever schedules: the timer that it means to stop keeps running.
\<close>

lemma delay_open_timer_not_cleared:
  "t_idle_hold (clear_delay_open_timer (start_delay_open_timer p)) = Some (Delay_open_exp, delay_open_time (pd p))"
  by (simp add: clear_delay_open_timer_def start_delay_open_timer_def)

text \<open>
  An OPEN message carries a 2-byte AS number. The check compares it with the configured number of
  the peer: a peer whose AS number needs 4 bytes is always refused as a bad peer AS.
\<close>

lemma AsNum_bytes_not_extended: "AsNum_bytes bs = Inr n \<Longrightarrow> \<not> extended n"
proof (induction bs rule: AsNum_bytes.induct)
  case (1 a b ds)
  have "\<not> extended (AsNum (push_bit 8 (ucast a) + ucast b))"
  proof -
    have "push_bit 8 (ucast a) + ucast b = (push_bit 8 (ucast a) OR ucast b :: u32)"
      by (rule disjunctive_add) (auto simp: bit_simps dest: bit_imp_le_length)
    also have "\<dots> = take_bit 16 (push_bit 8 (ucast a) OR ucast b)"
      by (rule bit_word_eqI) (auto simp: bit_simps dest: bit_imp_le_length)
    finally have "unat (push_bit 8 (ucast a) + ucast b :: u32) = take_bit 16 (unat (push_bit 8 (ucast a) OR ucast b :: u32))"
      by (simp only: unsigned_take_bit_eq)
    then have "unat (push_bit 8 (ucast a) + ucast b :: u32) < 65536"
      using take_bit_nat_less_exp [of 16] by simp
    then show ?thesis by (simp add: not_extended_iff)
  qed
  with 1 show ?case by simp
qed simp_all

lemma open_parameters_as: "open_parameters d i remaining p = Inr p' \<Longrightarrow> op_as p' = op_as p"
proof (induction d i remaining p rule: open_parameters.induct)
  case (1 d i remaining p)
  show ?case
  proof (cases "i = 0")
    case False
    with "1.prems" obtain ql where ql: "\<not> remaining < 2" "par_create d i = Inr ql" "\<not> (snd ql = 0 \<or> i < snd ql)"
      and rest: "open_parameters (drop (snd ql) d) (i - snd ql) remaining (open_add_parameter (fst ql) p) = Inr p'"
      by (subst (asm) open_parameters.simps) (auto split: if_splits)
    from "1.IH" [OF False ql rest] show ?thesis by (simp add: open_add_parameter_def)
  qed (use "1.prems" in simp)
qed

lemma open_decode_as: "open_decode d l = Inr op \<Longrightarrow> \<not> extended (op_as op)"
  by (auto simp: open_decode_def Let_def AsNum_bytes_not_extended dest!: open_parameters_as split: if_splits)

lemma extended_as_refused:
  assumes "open_decode buf l = Inr op" "extended (pd_as d)"
  shows "snd (check_open_packet op d) \<noteq> None"
  using open_decode_as [OF assms(1)] assms(2) by (auto simp: check_open_packet_def)

end
