(* ===== verification/Accept_Session.thy ===== *)
theory Accept_Session
  imports Peer_Session
begin

text \<open>
  Connection collisions: how a second connection to the same router is resolved, and the runs
  that end in an assertion (\<open>class AcceptSession\<close>, \<open>BGPPeer::connected\<close> and \<open>BGPPeer::swap_sockets\<close>
  of \<open>bgp/peer.cc\<close>, modelled in \<open>Accept_FSM\<close>).
\<close>

subsection \<open>How a collision is resolved\<close>

lemma event_open_sends:
  assumes "pstate p = STATECONNECT \<or> pstate p = STATEACTIVE" "live_link (sc p)" "config_ok p"
  shows "\<exists>p'. event_open p = Inr p' \<and> pstate p' = STATEOPENSENT \<and> sock (sc p') = sock (sc p)
    \<and> live_link (sc p') \<and> t_keepalive p' = t_keepalive p"
proof -
  have config: "delay_open_time (pd p) = 0" using assms(3) by (simp add: config_ok_def)
  obtain p1 where p1: "send_open p = Inr p1" "queued p p1"
    using send_open_queued [OF assms(3,2)] by blast
  have st: "pstate p1 \<noteq> STATESTOPPED" using assms(1) queued_fields(1) [OF p1(2)] by auto
  have "event_open p = Inr (p1\<lparr> t_connect_retry := None, pd := (pd p1)\<lparr> hold_duration := 240 \<rparr>,
      t_hold := Some 241, pstate := STATEOPENSENT \<rparr>)"
    using assms(1) config p1(1) st
    unfolding event_open_def clear_connect_retry_timer_def by (simp add: start_hold_timer_240 enter_plain)
  moreover have "sock (sc p1) = sock (sc p)" using p1(2) by (auto simp: queued_def)
  ultimately show ?thesis
    using queued_live [OF p1(2) assms(2)] queued_fields [OF p1(2)] by simp
qed

lemma new_connection:
  "connected fd SocketClient = Inr (SocketClient\<lparr> sock := Some fd, writer := Some [], reader := True \<rparr>)"
  by (simp add: connected_def async_add_def async_remove_def async_remove_reader_def SocketClient_def)

lemma accept_swap_fresh:
  assumes "pstate p \<in> {STATEACTIVE, STATECONNECT, STATEOPENSENT, STATEOPENCONFIRM}" "config_ok p"
  shows "\<exists>p'. accept_swap_sockets (AcceptSession fd) p
      = Inr (\<lparr> ac_sock = None, socket_client = sc p, accept_messages = True, open_wait = None \<rparr>, p')
    \<and> pstate p' = STATEOPENSENT \<and> sock (sc p') = Some fd \<and> live_link (sc p') \<and> t_keepalive p' = t_keepalive p"
proof -
  let ?s = "SocketClient\<lparr> sock := Some fd, writer := Some [], reader := True \<rparr>"
  have s: "live_link ?s" by (simp add: live_link_def SocketClient_def)
  let ?p = "p\<lparr> sc := ?s, pstate := STATEACTIVE \<rparr>"
  obtain p' where p': "event_open ?p = Inr p'" "pstate p' = STATEOPENSENT" "sock (sc p') = Some fd"
      "live_link (sc p')" "t_keepalive p' = t_keepalive p"
    using event_open_sends [of ?p] s assms(2) by auto
  have "swap_sockets ?s p = Inr (p', sc p)"
    using assms(1) p'(1) by (auto simp: swap_sockets_def enter_plain)
  with p' show ?thesis
    by (simp add: accept_swap_sockets_def AcceptSession_def new_connection)
qed

lemma cease_connected:
  assumes "ac_sock a = None" "is_connected (socket_client a)" "writer (socket_client a) = Some q"
  shows "\<exists>bs. cease a p = Inr (Some (a\<lparr> accept_messages := False, socket_client := (socket_client a)\<lparr> reader := False,
    writer := Some (q @ [(bs, accept_notification_cb)]) \<rparr> \<rparr>), p)"
proof -
  obtain bs where "encode_packet (Notification_msg (notification CEASE)) = Inr bs" using encode_code by blast
  moreover have "is_connected ((socket_client a)\<lparr> reader := False \<rparr>)" using assms(2) by (simp add: is_connected_def)
  ultimately have "cease a p = Inr (Some (a\<lparr> accept_messages := False, socket_client := (socket_client a)\<lparr> reader := False,
      writer := Some (q @ [(bs, accept_notification_cb)]) \<rparr> \<rparr>), p)"
    using assms(1,3)
    by (simp add: cease_def send_notification_accept_def Let_def stop_reader_def async_remove_reader_def
        sc_send_message_def del: encode_packet.simps)
  then show ?thesis by (rule exI)
qed

text \<open>
  C21: A connection collision in OPENCONFIRM is resolved by the identifiers: the connection that the
  router with the larger identifier opened survives. When that is the remote one, the peer
  continues with the incoming connection in OPENSENT and a CEASE is queued on the old one;
  otherwise the peer is not touched and the CEASE is queued on the incoming connection.
\<close>

theorem collision_resolution:
  assumes "peer_inv p" "pstate p = STATEOPENCONFIRM" "sock (sc p) \<noteq> Some fd"
  shows "\<exists>a p' q bs. peer_connected fd p = Inr (Some a, p')
    \<and> writer (socket_client a) = Some (q @ [(bs, accept_notification_cb)])
    \<and> (if get_id (ld p) < pd_id (pd p)
       then pstate p' = STATEOPENSENT \<and> sock (sc p') = Some fd \<and> sock (socket_client a) = sock (sc p)
       else p' = p \<and> sock (socket_client a) = Some fd)"
proof -
  have live: "live_link (sc p)" and config: "config_ok p" using peer_inv_states [OF assms(1)] assms(2) by simp_all
  obtain q0 where q0: "writer (sc p) = Some q0" using live by (auto simp: live_link_def)
  have start: "peer_connected fd p = collision (AcceptSession fd) p"
    using assms(2,3) by (simp add: peer_connected_def accept_start_def AcceptSession_def)
  show ?thesis
  proof (cases "get_id (ld p) < pd_id (pd p)")
    case True
    let ?a = "\<lparr> ac_sock = None, socket_client = sc p, accept_messages = True, open_wait = None \<rparr>"
    obtain p' where p': "accept_swap_sockets (AcceptSession fd) p = Inr (?a, p')" "pstate p' = STATEOPENSENT"
        "sock (sc p') = Some fd"
      using accept_swap_fresh [of p fd] assms(2) config by auto
    obtain bs where "cease ?a p' = Inr (Some (?a\<lparr> accept_messages := False, socket_client := (sc p)\<lparr> reader := False,
        writer := Some (q0 @ [(bs, accept_notification_cb)]) \<rparr> \<rparr>), p')"
      using cease_connected [of ?a q0 p'] live_connected [OF live] q0 by auto
    with True p' show ?thesis unfolding start collision_def by auto
  next
    case False
    obtain bs where "encode_packet (Notification_msg (notification CEASE)) = Inr bs" using encode_code by blast
    then have "cease (AcceptSession fd) p = Inr (Some \<lparr> ac_sock = None,
        socket_client = SocketClient\<lparr> sock := Some fd, writer := Some ([] @ [(bs, accept_notification_cb)]) \<rparr>,
        accept_messages = False, open_wait = None \<rparr>, p)"
      by (simp add: cease_def send_notification_accept_def AcceptSession_def Let_def socket_defs del: encode_packet.simps)
    with False show ?thesis unfolding start collision_def by auto
  qed
qed

text \<open>A peer of router 10.0.0.1 with the router 10.0.0.2, in OPENCONFIRM.\<close>

definition confirm_example :: peer where
  "confirm_example = (BGPPeer local_example (peer_data_example\<lparr> pd_id := IPv4 0x200000a \<rparr>)
     \<lparr> sock = Some 5, connecting = False, reader = True, writer = Some [] \<rparr>)
     \<lparr> pstate := STATEOPENCONFIRM, t_hold := Some 31, t_keepalive := Some 10 \<rparr>"

lemma confirm_example_facts:
  "peer_inv confirm_example" "pstate confirm_example = STATEOPENCONFIRM" "t_keepalive confirm_example = Some 10"
  "sock (sc confirm_example) = Some 5" "get_id (ld confirm_example) < pd_id (pd confirm_example)"
proof -
  have "config_ok confirm_example"
    using plain_config_example by (simp add: confirm_example_def BGPPeer_def config_ok_def plain_config_def)
  then show "peer_inv confirm_example"
    by (simp add: peer_inv_def confirm_example_def BGPPeer_def timers_ok_def handler_ok_def live_link_def)
  show "get_id (ld confirm_example) < pd_id (pd confirm_example)"
    by (simp add: confirm_example_def BGPPeer_def local_example_def less_ipv4_def ipv4_less_def bswap32_def)
qed (simp_all add: confirm_example_def BGPPeer_def)

theorem collision_resolution_witness:
  "\<exists>a p' q bs. peer_connected 8 confirm_example = Inr (Some a, p')
     \<and> writer (socket_client a) = Some (q @ [(bs, accept_notification_cb)])
     \<and> pstate p' = STATEOPENSENT \<and> sock (sc p') = Some 8 \<and> sock (socket_client a) = Some 5"
  using collision_resolution [OF confirm_example_facts(1,2), of 8] confirm_example_facts(4,5) by simp

subsection \<open>Runs that abort\<close>

text \<open>
  C40: A collision that gives the peer the incoming connection takes it from OPENCONFIRM back to
  OPENSENT, and the keepalive timer of the old session keeps running. \<open>event_keepexp\<close> takes its
  expiry in OPENSENT for impossible: unless the remote router sends its OPEN on the new
  connection before that, the process aborts.
\<close>

theorem collision_keepalive_aborts:
  assumes "peer_inv p" "pstate p = STATEOPENCONFIRM" "sock (sc p) \<noteq> Some fd" "get_id (ld p) < pd_id (pd p)"
    and "t_keepalive p \<noteq> None"
  shows "\<exists>a p'. peer_connected fd p = Inr (Some a, p') \<and> possible Keepalive_exp p'
    \<and> deliver upd Keepalive_exp p' = Inl XlogFatal"
proof -
  have live: "live_link (sc p)" and config: "config_ok p" using peer_inv_states [OF assms(1)] assms(2) by simp_all
  obtain q0 where q0: "writer (sc p) = Some q0" using live by (auto simp: live_link_def)
  let ?a = "\<lparr> ac_sock = None, socket_client = sc p, accept_messages = True, open_wait = None \<rparr>"
  obtain p' where p': "accept_swap_sockets (AcceptSession fd) p = Inr (?a, p')" "pstate p' = STATEOPENSENT"
      "t_keepalive p' = t_keepalive p"
    using accept_swap_fresh [of p fd] assms(2) config by auto
  obtain a' where "cease ?a p' = Inr (Some a', p')"
    using cease_connected [of ?a q0 p'] live_connected [OF live] q0 by auto
  then have "peer_connected fd p = Inr (Some a', p')"
    using assms(2-4) p'(1) by (simp add: peer_connected_def accept_start_def AcceptSession_def collision_def)
  with p'(2,3) assms(5) show ?thesis by (simp add: event_keepexp_def)
qed

theorem collision_keepalive_aborts_witness:
  "\<exists>a p'. peer_connected 8 confirm_example = Inr (Some a, p') \<and> deliver no_update Keepalive_exp p' = Inl XlogFatal"
  using collision_keepalive_aborts [OF confirm_example_facts(1,2) _ confirm_example_facts(5), of 8 no_update]
    confirm_example_facts(3,4) by auto

text \<open>
  An OPEN on an incoming connection that waits for it, when the peer has meanwhile gone to STOPPED:
  the code means to swap the sockets, and \<open>BGPPeer::swap_sockets\<close> asserts that the state is not
  STOPPED.
\<close>

lemma open_while_stopped_aborts:
  assumes "pstate p = STATESTOPPED" "ac_sock a = None"
  shows "event_openmess_accept upd op a p = Inl XlogAssert"
  using assms by (simp add: event_openmess_accept_def swap_sockets_open_def accept_swap_sockets_def swap_sockets_def)

text \<open>
  The OPEN that decides a collision is encoded again for the peer. With a capability that is not
  known, \<open>encode\<close> ends in \<open>XLOG_FATAL\<close>.
\<close>

lemma unknown_capability_aborts:
  assumes "pstate p = STATEOPENSENT" "config_ok p" "ac_sock a = None" "live_link (socket_client a)"
    and "get_id (ld p) < op_id op" "parameter_list op = [q]" "cap q = UnknownCap c"
    and "OptParmLen op = par_length q"
  shows "event_openmess_accept upd op a p = Inl XlogFatal"
proof -
  let ?p = "p\<lparr> sc := socket_client a, pstate := STATEACTIVE \<rparr>"
  obtain p' where p': "event_open ?p = Inr p'" using event_open_sends [of ?p] assms(2,4) by auto
  have "accept_swap_sockets a p = Inr (a\<lparr> socket_client := sc p \<rparr>, p')"
    using assms(1,3) p' by (simp add: accept_swap_sockets_def swap_sockets_def enter_plain)
  moreover have "encode_packet (Open_msg op) = Inl XlogFatal"
    using assms(6-8) unsigned_less [of "OptParmLen op", where 'a = nat]
    by (simp add: open_encode_def packet_sizes Let_def par_encode_defs)
  ultimately show ?thesis
    using assms(1,5) by (simp add: event_openmess_accept_def swap_sockets_open_def Let_def)
qed

text \<open>
  A CEASE that cannot be written: the completion with \<open>ERROR\<close> disconnects, the flush runs the
  completion again, and the session is deleted while its socket is still open, which its
  destructor asserts against.
\<close>

lemma cease_write_error_aborts:
  assumes "is_connected (socket_client a)" "writer (socket_client a) = Some ((bs, accept_notification_cb) # q)"
  shows "accept_written fd r ERROR a p = Inl XlogAssert"
  using assms by (auto simp: accept_written_def disconnect_and_remove_def session_disconnect_def remove_session_def
      is_connected_def)

text \<open>When it is written, the session ends and the peer is not touched.\<close>

lemma cease_written:
  assumes "is_connected (socket_client a)" "writer (socket_client a) = Some [(bs, accept_notification_cb)]"
    and "ac_sock a = None" "open_wait a = None"
  shows "accept_written fd r DATA a p = Inr (None, p)"
  using assms by (auto simp: accept_written_def disconnect_and_remove_def session_disconnect_def remove_session_def
      socket_defs)

text \<open>
  A swap leaves the buffers of the peer on the old connection, with the completion routines of the
  peer. An error there is an \<open>event_closed\<close> for the peer, whatever connection it has now: an
  established session on the new connection is torn down, and a pending connect is left behind
  in IDLE, where the restart fails its assertion.
\<close>

lemma old_connection_error_closes:
  assumes "peer_inv p" "pstate p = STATEESTABLISHED" "writer (socket_client a) = Some ((bs, send_message_cb) # q)"
  shows "\<exists>p'. accept_written fd r ERROR a p = Inr (Some a, p') \<and> pstate p' = STATEIDLE"
proof -
  have "\<exists>p'. event_closed p = Inr p' \<and> pstate p' = STATEIDLE"
    using enter_idle [of p True True] peer_inv_states(6,8) [OF assms(1)] assms(2) by (auto simp: event_closed_def)
  with assms(3) show ?thesis by (auto simp: accept_written_def send_message_complete_def)
qed

lemma old_connection_error_aborts:
  assumes "peer_inv p" "pstate p = STATECONNECT" "writer (socket_client a) = Some ((bs, send_message_cb) # q)"
  shows "\<exists>p'. accept_written fd r ERROR a p = Inr (Some a, p') \<and> possible (Idle_exp fd' r') p'
    \<and> deliver upd (Idle_exp fd' r') p' = Inl XlogAssert"
proof -
  let ?p = "p\<lparr> t_connect_retry := None \<rparr>"
  have conn: "connecting (sc p)" "sock (sc p) \<noteq> None" "damping_peer_oscillations p"
    using peer_inv_states(3,8) [OF assms(1)] assms(2) by (simp_all add: pending_link_def config_ok_def)
  with enter_idle_pending [of ?p] assms(2)
  obtain p1 n where p1: "enter_state STATEIDLE True True ?p = Inr p1" "pstate p1 = STATEIDLE" "sock (sc p1) \<noteq> None"
      "t_idle_hold p1 = Some (Idle_hold_exp, n)"
    by auto
  have "accept_written fd r ERROR a p = Inr (Some a, p1)"
    using assms(2,3) conn(1) p1(1)
    by (simp add: accept_written_def send_message_complete_def event_closed_def is_connected_def clear_connect_retry_timer_def)
  moreover have "deliver upd (Idle_exp fd' r') p1 = Inl XlogAssert"
    using p1(2-4) by (simp add: event_idle_hold_exp_def start_with_socket_aborts)
  ultimately show ?thesis using p1(4) by auto
qed

lemma old_connection_busy_aborts:
  assumes "output_queue_was_busy p" "writer (sc p) = None" "writer (socket_client a) = Some ((bs, send_message_cb) # q)"
  shows "accept_written fd r DATA a p = Inl XlogAssert"
  using assms by (simp add: accept_written_def send_message_complete_def output_queue_busy_def)

end
