(* ===== verification/Two_Routers.thy ===== *)
theory Two_Routers
  imports Accept_Session
begin

text \<open>
  Two peers at the ends of one connection: what one state machine writes into its queue is the
  byte stream that the reader of the other divides into messages and hands to its state machine.
\<close>

subsection \<open>What a peer writes\<close>

text \<open>The bytes that a connection still has to send, in order.\<close>

definition outgoing :: "peer \<Rightarrow> u8 list" where
  "outgoing p = (case writer (sc p) of None \<Rightarrow> [] | Some q \<Rightarrow> concat (map fst q))"

lemma send_message_outgoing:
  assumes "encode_packet m = Inr bs" "live_link (sc p)" "send_message m p = Inr (p', st)"
  shows "outgoing p' = outgoing p @ bs"
proof -
  obtain q where q: "writer (sc p) = Some q" and c: "is_connected (sc p)"
    using assms(2) by (auto simp: live_link_def is_connected_def)
  from assms(1,3) q c show ?thesis
    by (cases m; cases "length q > 19")
      (auto simp: send_message_def Let_def sc_send_message_def output_queue_busy_def outgoing_def
        simp del: encode_packet.simps)
qed

lemma event_open_outgoing:
  assumes "pstate p = STATECONNECT \<or> pstate p = STATEACTIVE" "live_link (sc p)" "config_ok p"
    and "encode_packet (Open_msg (own_open p)) = Inr bs"
  shows "\<exists>p'. event_open p = Inr p' \<and> outgoing p' = outgoing p @ bs \<and> ld p' = ld p"
proof -
  have config: "delay_open_time (pd p) = 0" using assms(3) by (simp add: config_ok_def)
  obtain p1 st where p1: "send_message (Open_msg (own_open p)) p = Inr (p1, st)" "queued p p1"
    using send_message_queued [OF assms(4,2)] by blast
  have "send_open p = Inr p1" using p1(1) by (simp add: send_open_def)
  moreover have "pstate p1 \<noteq> STATESTOPPED" using assms(1) queued_fields(1) [OF p1(2)] by auto
  ultimately have "event_open p = Inr (p1\<lparr> t_connect_retry := None, pd := (pd p1)\<lparr> hold_duration := 240 \<rparr>,
      t_hold := Some 241, pstate := STATEOPENSENT \<rparr>)"
    using assms(1) config
    unfolding event_open_def clear_connect_retry_timer_def by (simp add: start_hold_timer_240 enter_plain)
  then show ?thesis
    using send_message_outgoing [OF assms(4,2) p1(1)] queued_fields(3) [OF p1(2)] by (simp add: outgoing_def)
qed

lemma take_4byte_as_keeps:
  "hold_duration (take_4byte_as qs d) = hold_duration d" "pd_id (take_4byte_as qs d) = pd_id d"
  by (induction qs arbitrary: d) (auto split: capability.splits)

lemma fold_add_recv_fields:
  "hold_duration (fold add_recv_parameter ps d) = hold_duration d" "pd_id (fold add_recv_parameter ps d) = pd_id d"
  by (induction ps arbitrary: d) (simp_all add: add_recv_parameter_def)

lemma negotiation_keeps:
  "hold_duration (open_negotiation l (save_parameters ps d)) = hold_duration d"
  "pd_id (open_negotiation l (save_parameters ps d)) = pd_id d"
  by (simp_all add: open_negotiation_def save_parameters_def Let_def fold_add_recv_fields take_4byte_as_keeps
      add_recv_parameter_def)

lemma process_open_outgoing:
  assumes "live_link (sc p)" "quiet p" "pstate p = STATEOPENSENT" "check_open_packet op (pd p) = (d, None)"
    and "keepalive_encode = Inr kb"
  shows "\<exists>p'. process_open op p = Inr p' \<and> outgoing p' = outgoing p @ kb
    \<and> hold_duration (pd p') = hold_duration d \<and> pd_id (pd p') = pd_id d"
proof -
  have enc: "encode_packet Keepalive_msg = Inr kb" using assms(5) by simp
  have "live_link (sc (p\<lparr> pd := d \<rparr>))" using assms(1) by simp
  then obtain p1 os where p1: "send_message Keepalive_msg (p\<lparr> pd := d \<rparr>) = Inr (p1, os)" "queued (p\<lparr> pd := d \<rparr>) p1"
    using send_message_queued [OF enc] by blast
  have out: "outgoing p1 = outgoing p @ kb"
    using send_message_outgoing [OF enc _ p1(1)] assms(1) by (simp add: outgoing_def)
  note fields = queued_fields [OF p1(2), simplified]
  have damping: "damping_peer_oscillations p1" using fields assms(2) by (simp add: quiet_def config_ok_def)
  obtain h k where timers: "start_hold_timer (start_keepalive_timer (clear_all_timers p1)) = p1\<lparr> t_connect_retry := None,
      t_stopped := None, t_delay_open := None, t_idle_hold := None, t_keepalive := k, t_hold := h \<rparr>"
    using that [OF session_timers [OF damping]] .
  let ?p = "p1\<lparr> t_connect_retry := None, t_stopped := None, t_delay_open := None, t_idle_hold := None,
    t_keepalive := k, t_hold := h, pd := open_negotiation (ld p1) (save_parameters (parameter_list op) (pd p1)),
    pstate := STATEOPENCONFIRM \<rparr>"
  have "process_open op p = Inr ?p"
    using assms(3,4) p1(1) timers fields(1) by (simp add: process_open_def enter_plain)
  moreover have "outgoing ?p = outgoing p @ kb" using out by (simp add: outgoing_def)
  moreover have "hold_duration (pd ?p) = hold_duration d \<and> pd_id (pd ?p) = pd_id d"
    using fields(2) by (simp add: negotiation_keeps)
  ultimately show ?thesis by blast
qed

subsection \<open>Its OPEN message at the other end\<close>

text \<open>The bytes \<open>bs\<close> are a message that the other end takes for the OPEN message \<open>op\<close>.\<close>

definition reads_open :: "u8 list \<Rightarrow> open_packet \<Rightarrow> bool" where
  "reads_open bs op \<longleftrightarrow> framed bs \<and> take MARKER_SIZE bs = Marker \<and> bs ! TYPE_OFFSET = MESSAGETYPEOPEN
     \<and> open_decode bs (length bs) = Inr op"

lemma make_open_fields:
  "op_as (make_open n i h qs) = n" "op_id (make_open n i h qs) = i" "HoldTime (make_open n i h qs) = h"
  "Version (make_open n i h qs) = BGPVERSION" "parameter_list (make_open n i h qs) = qs"
  by (simp_all add: make_open_def fold_add_parameter OpenPacket_def)

lemma own_open_read:
  assumes "config_ok p" "\<not> extended (my_AS_number (ld p) (pd p))"
  shows "\<exists>bs op. encode_packet (Open_msg (own_open p)) = Inr bs \<and> reads_open bs op
    \<and> op_as op = my_AS_number (ld p) (pd p) \<and> op_id op = get_id (ld p)
    \<and> HoldTime op = configured_hold_time (pd p) \<and> Version op = BGPVERSION"
proof -
  let ?n = "my_AS_number (ld p) (pd p)" and ?i = "get_id (ld p)" and ?h = "configured_hold_time (pd p)"
  obtain qs where own: "own_open p = make_open ?n ?i ?h qs"
    and "qs = sent_parameters (pd p) \<or> qs = []"
    using own_open_eq by blast
  then have qs: "list_all sendable qs" "wire_length qs \<le> 255" "MINOPENPACKET + wire_length qs \<le> 4096"
    using assms(1) by (auto simp: config_ok_def packet_sizes)
  let ?op = "make_open ?n ?i ?h (map par_received qs)"
  let ?bs = "Marker @ [of_nat ((29 + wire_length qs) div 256), of_nat (29 + wire_length qs), 1, 4]
    @ as_copy_out ?n @ embed_16 ?h @ copy_out ?i @ [of_nat (wire_length qs)] @ concat (map wire qs)"
  have enc: "open_encode (own_open p) 4096 = Inr (Some ?bs)"
    unfolding own by (rule open_encode_make_open [OF qs])
  then have len: "length ?bs = 29 + wire_length qs" and dec: "open_decode ?bs (length ?bs) = Inr ?op"
    using open_decode_encode [OF qs, of ?n ?i ?h] squash_id [OF assms(2)] unfolding own
    by (auto simp: packet_sizes)
  have "framed ?bs"
    by (rule framed_basic_encode [where type = MESSAGETYPEOPEN, OF _ refl])
      (unfold len, use qs(2) in \<open>simp_all add: packet_sizes message_types\<close>)
  then have "reads_open ?bs ?op"
    using dec by (simp add: reads_open_def packet_sizes message_types nth_append)
  moreover have "encode_packet (Open_msg (own_open p)) = Inr ?bs"
    using enc by (simp add: packet_sizes)
  ultimately show ?thesis using make_open_fields by metis
qed

subsection \<open>One end of the connection\<close>

text \<open>The peer \<open>p\<close> is configured for what the router of \<open>q\<close> announces.\<close>

definition expects :: "peer \<Rightarrow> peer \<Rightarrow> bool" where
  "expects p q \<longleftrightarrow> pd_as (pd p) = my_AS_number (ld q) (pd q) \<and> \<not> extended (my_AS_number (ld q) (pd q))
     \<and> is_unicast (get_id (ld q)) \<and> \<not> is_zero (get_id (ld q))
     \<and> configured_hold_time (pd q) \<noteq> 1 \<and> configured_hold_time (pd q) \<noteq> 2"

definition agreed_hold_time :: "peer \<Rightarrow> peer \<Rightarrow> u16" where
  "agreed_hold_time p q = min (configured_hold_time (pd p)) (configured_hold_time (pd q))"

lemma check_expected:
  assumes "expects p q" "op_as op = my_AS_number (ld q) (pd q)" "op_id op = get_id (ld q)"
    and "HoldTime op = configured_hold_time (pd q)" "Version op = BGPVERSION"
  shows "\<exists>d. check_open_packet op ((pd p)\<lparr> hold_duration := h \<rparr>) = (d, None)
    \<and> hold_duration d = ucast (agreed_hold_time p q) \<and> pd_id d = get_id (ld q)"
  using assms
  by (auto simp: check_open_packet_def expects_def agreed_hold_time_def Let_def min_def not_less
      dest: order.antisym)

lemma one_end:
  assumes "peer_inv p1" "pstate p1 = STATEOPENSENT" "pd p1 = (pd p)\<lparr> hold_duration := 240 \<rparr>"
    and "expects p q" "reads_open bs op" "op_as op = my_AS_number (ld q) (pd q)" "op_id op = get_id (ld q)"
    and "HoldTime op = configured_hold_time (pd q)" "Version op = BGPVERSION" "keepalive_encode = Inr kb"
  shows "\<exists>p2 p3. deliver upd (Read GOOD_MESSAGE bs n) p1 = Inr p2 \<and> outgoing p2 = outgoing p1 @ kb
    \<and> deliver upd (Read GOOD_MESSAGE kb n) p2 = Inr p3 \<and> pstate p3 = STATEESTABLISHED \<and> handler p3 = Some True
    \<and> hold_duration (pd p3) = ucast (agreed_hold_time p q) \<and> pd_id (pd p3) = get_id (ld q)"
proof -
  let ?q = "p1\<lparr> in_total_messages := in_total_messages p1 + 1 \<rparr>"
  have q: "live_link (sc ?q)" "quiet ?q" "pstate ?q = STATEOPENSENT"
    using peer_inv_states(4) [OF assms(1,2)] quietI [OF assms(1)] assms(2) by (simp_all add: quiet_def config_ok_def)
  obtain d where d: "check_open_packet op (pd ?q) = (d, None)" "hold_duration d = ucast (agreed_hold_time p q)"
      "pd_id d = get_id (ld q)"
    using check_expected [OF assms(4,6-9), of 240] assms(3) by auto
  obtain p2 where p2: "process_open op ?q = Inr p2" "outgoing p2 = outgoing ?q @ kb"
      "hold_duration (pd p2) = hold_duration d" "pd_id (pd p2) = pd_id d"
    using process_open_outgoing [OF q d(1) assms(10)] by blast
  have inv2: "peer_inv p2" "pstate p2 = STATEOPENCONFIRM"
    using process_open_accepts [OF q d(1)] p2(1) by simp_all
  have "get_message upd n GOOD_MESSAGE bs p1 = res_map (\<lambda>p. (p, is_connected (sc p) \<and> still_reading (sc p))) (Inr p2)"
    using assms(2,5) p2(1)
    by (simp add: reads_open_def get_message_def Let_def catch_corrupt_def event_openmess_def)
  then have step2: "deliver upd (Read GOOD_MESSAGE bs n) p1 = Inr p2" by simp
  let ?r = "p2\<lparr> in_total_messages := in_total_messages p2 + 1 \<rparr>"
  have "peer_inv ?r" using inv2(1) by (simp add: peer_inv_def timers_ok_def handler_ok_def config_ok_def)
  then obtain p3 where p3: "enter_state STATEESTABLISHED True True ?r = Inr p3" "peer_inv p3" "pstate p3 = STATEESTABLISHED"
    using established_inv [of ?r] inv2(2) by auto
  have pd3: "pd p3 = pd p2"
    using p3(1) inv2(2) by (cases "handler p2") (auto simp: enter_state_def established_def)
  have kb: "take MARKER_SIZE kb = Marker" "kb ! TYPE_OFFSET = MESSAGETYPEKEEPALIVE" "length kb = MINKEEPALIVEPACKET"
    using assms(10) by (auto simp: keepalive_encode_def packet_sizes nth_append)
  have "get_message upd n GOOD_MESSAGE kb p2
      = res_map (\<lambda>p. (p, is_connected (sc p) \<and> still_reading (sc p))) (Inr (restart_hold_timer p3))"
    using kb inv2(2) p3(1)
    by (simp add: get_message_def Let_def catch_corrupt_def keepalive_decode_def event_keepmess_def message_types)
  then have step3: "deliver upd (Read GOOD_MESSAGE kb n) p2 = Inr (restart_hold_timer p3)" by simp
  have "pstate (restart_hold_timer p3) = STATEESTABLISHED" "handler (restart_hold_timer p3) = Some True"
    "pd (restart_hold_timer p3) = pd p3"
    using p3(2,3) by (simp_all add: restart_hold_timer_def start_hold_timer_def clear_hold_timer_def peer_inv_def handler_ok_def)
  with step2 step3 p2(2-4) pd3 d(2,3) show ?thesis by (auto simp: outgoing_def)
qed

subsection \<open>Both ends\<close>

lemma connect_done_outgoing:
  assumes "peer_inv p" "connecting (sc p)" "encode_packet (Open_msg (own_open p)) = Inr bs"
  shows "\<exists>p1. connect_done True p = Inr p1 \<and> peer_inv p1 \<and> pstate p1 = STATEOPENSENT
    \<and> pd p1 = (pd p)\<lparr> hold_duration := 240 \<rparr> \<and> outgoing p1 = bs"
proof -
  have st: "pstate p = STATECONNECT" by (rule connecting_state [OF assms(1,2)])
  have link: "pending_link (sc p)" and config: "config_ok p"
    using peer_inv_states(3) [OF assms(1) st] peer_inv_states(8) [OF assms(1)] .
  let ?s = "(sc p)\<lparr> connecting := False, writer := Some [], reader := True \<rparr>"
  let ?p = "p\<lparr> sc := ?s \<rparr>"
  have "connect_done True p = event_open ?p"
    using link by (simp add: connect_done_def connect_to_peer_complete_def pending_link_def socket_defs)
  moreover have "own_open ?p = own_open p" by (simp add: own_open_def generate_open_message_def)
  then have "\<exists>p'. event_open ?p = Inr p' \<and> outgoing p' = outgoing ?p @ bs \<and> ld p' = ld ?p"
    using st link config assms(3) by (intro event_open_outgoing) (auto simp: pending_link_def live_link_def config_ok_def)
  ultimately show ?thesis using connect_done_open [OF assms(1,2)] by (auto simp: outgoing_def)
qed

lemma accept_outgoing:
  assumes "peer_inv p" "pstate p = STATECONNECT \<or> pstate p = STATEACTIVE"
    and "encode_packet (Open_msg (own_open p)) = Inr bs"
  shows "\<exists>p1. event_open_sock fd p = Inr p1 \<and> peer_inv p1 \<and> pstate p1 = STATEOPENSENT
    \<and> pd p1 = (pd p)\<lparr> hold_duration := 240 \<rparr> \<and> outgoing p1 = bs"
proof -
  let ?s = "SocketClient\<lparr> sock := Some fd, writer := Some [], reader := True \<rparr>"
  let ?p = "p\<lparr> sc := ?s \<rparr>"
  have "quiet p" using quietI [OF assms(1)] assms(2) by blast
  then have quiet: "quiet ?p" by (simp add: quiet_def config_ok_def)
  have "(if pstate p = STATECONNECT then connect_break (sc p) else sc p) = SocketClient"
    using assms(2) peer_inv_states [OF assms(1)] by (auto simp: break_pending no_link_def)
  then have "event_open_sock fd p = event_open ?p"
    using assms(2) by (simp add: event_open_sock_def new_connection)
  moreover have live: "live_link (sc ?p)" by (simp add: live_link_def SocketClient_def)
  moreover have "\<exists>p'. event_open ?p = Inr p' \<and> peer_inv p' \<and> pstate p' = STATEOPENSENT
      \<and> pd p' = (pd ?p)\<lparr> hold_duration := 240 \<rparr>"
    using assms(2) live quiet by (intro event_open_inv) simp_all
  moreover have "own_open ?p = own_open p" by (simp add: own_open_def generate_open_message_def)
  then have "\<exists>p'. event_open ?p = Inr p' \<and> outgoing p' = outgoing ?p @ bs \<and> ld p' = ld ?p"
    using assms(2,3) live peer_inv_states(8) [OF assms(1)] by (intro event_open_outgoing) (auto simp: config_ok_def)
  ultimately show ?thesis by (auto simp: outgoing_def SocketClient_def)
qed

lemma reads_messages:
  assumes "framed m"
  shows "read_stream COMMON_HEADER_LEN m = [(GOOD_MESSAGE, m)]"
    and "framed k \<Longrightarrow> read_stream COMMON_HEADER_LEN (m @ k) = [(GOOD_MESSAGE, m), (GOOD_MESSAGE, k)]"
proof -
  have "read_stream COMMON_HEADER_LEN [] = []" by (subst read_stream.simps) (simp add: packet_sizes)
  then have *: "read_stream COMMON_HEADER_LEN k = [(GOOD_MESSAGE, k)]" if "framed k" for k
    using read_stream_framed [OF that, of "[]"] by simp
  show "read_stream COMMON_HEADER_LEN m = [(GOOD_MESSAGE, m)]" by (rule * [OF assms])
  show "read_stream COMMON_HEADER_LEN (m @ k) = [(GOOD_MESSAGE, m), (GOOD_MESSAGE, k)]" if "framed k"
    using read_stream_framed [OF assms, of k] * [OF that] by simp
qed

text \<open>
  C5: Two routers that are configured for each other establish a session over one connection. When
  the connect of \<open>p\<close> succeeds and \<open>q\<close> accepts the connection, the bytes that each of them writes are
  read by the other as one OPEN message; reading it they write a KEEPALIVE; and reading that both
  are in ESTABLISHED, know the identifier of the other router, and have the same hold time, the
  smaller one of their configurations.
\<close>

theorem two_routers_establish:
  assumes "plain_config d" "reachable upd (BGPPeer l d SocketClient) p" "connecting (sc p)"
    and "plain_config e" "reachable upd (BGPPeer k e SocketClient) q" "pstate q = STATECONNECT \<or> pstate q = STATEACTIVE"
    and "expects p q" "expects q p"
  shows "\<exists>p1 q1 po qo p2 q2 kb p3 q3.
      deliver upd (Connect_done True) p = Inr p1 \<and> deliver upd (Open_sock fd) q = Inr q1
    \<and> (sock (sc q) \<noteq> Some fd \<longrightarrow> peer_connected fd q = Inr (None, q1))
    \<and> read_stream COMMON_HEADER_LEN (outgoing p1) = [(GOOD_MESSAGE, po)]
    \<and> read_stream COMMON_HEADER_LEN (outgoing q1) = [(GOOD_MESSAGE, qo)]
    \<and> deliver upd (Read GOOD_MESSAGE qo n) p1 = Inr p2 \<and> deliver upd (Read GOOD_MESSAGE po n) q1 = Inr q2
    \<and> read_stream COMMON_HEADER_LEN (outgoing p2) = [(GOOD_MESSAGE, po), (GOOD_MESSAGE, kb)]
    \<and> read_stream COMMON_HEADER_LEN (outgoing q2) = [(GOOD_MESSAGE, qo), (GOOD_MESSAGE, kb)]
    \<and> deliver upd (Read GOOD_MESSAGE kb n) p2 = Inr p3 \<and> deliver upd (Read GOOD_MESSAGE kb n) q2 = Inr q3
    \<and> pstate p3 = STATEESTABLISHED \<and> pstate q3 = STATEESTABLISHED
    \<and> pd_id (pd p3) = get_id (ld q) \<and> pd_id (pd q3) = get_id (ld p)
    \<and> hold_duration (pd p3) = ucast (agreed_hold_time p q) \<and> hold_duration (pd q3) = ucast (agreed_hold_time p q)"
proof -
  have inv: "peer_inv p" "peer_inv q"
    by (rule reachable_inv [OF assms(2) peer_inv_new [OF assms(1)]],
        rule reachable_inv [OF assms(5) peer_inv_new [OF assms(4)]])
  have config: "config_ok p" "config_ok q" using peer_inv_states(8) inv by blast+
  obtain po opp where po: "encode_packet (Open_msg (own_open p)) = Inr po" "reads_open po opp"
      "op_as opp = my_AS_number (ld p) (pd p)" "op_id opp = get_id (ld p)"
      "HoldTime opp = configured_hold_time (pd p)" "Version opp = BGPVERSION"
    using own_open_read [OF config(1)] assms(8) by (auto simp: expects_def)
  obtain qo opq where qo: "encode_packet (Open_msg (own_open q)) = Inr qo" "reads_open qo opq"
      "op_as opq = my_AS_number (ld q) (pd q)" "op_id opq = get_id (ld q)"
      "HoldTime opq = configured_hold_time (pd q)" "Version opq = BGPVERSION"
    using own_open_read [OF config(2)] assms(7) by (auto simp: expects_def)
  obtain kb where kb: "keepalive_encode = Inr kb" by (simp add: keepalive_encode_def packet_sizes)
  obtain p1 where p1: "connect_done True p = Inr p1" "peer_inv p1" "pstate p1 = STATEOPENSENT"
      "pd p1 = (pd p)\<lparr> hold_duration := 240 \<rparr>" "outgoing p1 = po"
    using connect_done_outgoing [OF inv(1) assms(3) po(1)] by blast
  obtain q1 where q1: "event_open_sock fd q = Inr q1" "peer_inv q1" "pstate q1 = STATEOPENSENT"
      "pd q1 = (pd q)\<lparr> hold_duration := 240 \<rparr>" "outgoing q1 = qo"
    using accept_outgoing [OF inv(2) assms(6) qo(1)] by blast
  have q1': "sock (sc q) \<noteq> Some fd \<longrightarrow> peer_connected fd q = Inr (None, q1)"
    using assms(6) q1(1) by (auto simp: peer_connected_def accept_start_def AcceptSession_def remove_session_def)
  obtain p2 p3 where p3: "deliver upd (Read GOOD_MESSAGE qo n) p1 = Inr p2" "outgoing p2 = outgoing p1 @ kb"
      "deliver upd (Read GOOD_MESSAGE kb n) p2 = Inr p3" "pstate p3 = STATEESTABLISHED"
      "hold_duration (pd p3) = ucast (agreed_hold_time p q)" "pd_id (pd p3) = get_id (ld q)"
    using one_end [OF p1(2-4) assms(7) qo(2-6) kb, of upd n] by blast
  obtain q2 q3 where q3: "deliver upd (Read GOOD_MESSAGE po n) q1 = Inr q2" "outgoing q2 = outgoing q1 @ kb"
      "deliver upd (Read GOOD_MESSAGE kb n) q2 = Inr q3" "pstate q3 = STATEESTABLISHED"
      "hold_duration (pd q3) = ucast (agreed_hold_time q p)" "pd_id (pd q3) = get_id (ld p)"
    using one_end [OF q1(2-4) assms(8) po(2-6) kb, of upd n] by blast
  have framed: "framed po" "framed qo" using po(2) qo(2) by (simp_all add: reads_open_def)
  have "agreed_hold_time q p = agreed_hold_time p q" by (simp add: agreed_hold_time_def min.commute)
  with p1 q1 q1' p3 q3 reads_messages [OF framed(1)] reads_messages [OF framed(2)] framed_keepalive [OF kb]
  show ?thesis by (intro exI conjI) (assumption | simp)+
qed

text \<open>Router 10.0.0.1 of AS 7 and router 10.0.0.2 of AS 9, each configured for the other and started.\<close>

definition remote_example :: local_data where
  "remote_example = local_example\<lparr> get_as := AsNum 9, get_id := IPv4 0x200000a \<rparr>"

definition remote_data_example :: peer_data where
  "remote_data_example = add_sent_parameter (BGPMultiProtocolCapability AFI_IPV4 SAFI_UNICAST)
     (BGPPeerData 0 remote_example (AsNum 7) 30)"

lemma started:
  assumes "plain_config d"
  shows "\<exists>p. reachable upd (BGPPeer l d SocketClient) p \<and> connecting (sc p) \<and> pstate p = STATECONNECT
    \<and> pd p = compute_peer_type l d \<and> ld p = l"
proof -
  let ?p0 = "BGPPeer l d SocketClient"
  have "\<exists>p. event_start 5 InProgress ?p0 = Inr p \<and> connecting (sc p) \<and> pstate p = STATECONNECT
      \<and> pd p = compute_peer_type l d \<and> ld p = l"
    by (simp add: BGPPeer_def event_start_def Let_def start_connect_retry_timer_def enter_plain connect_to_peer_def
        socket_defs)
  then obtain p where p: "deliver upd (Start 5 InProgress) ?p0 = Inr p" "connecting (sc p)" "pstate p = STATECONNECT"
      "pd p = compute_peer_type l d" "ld p = l" by auto
  have "reachable upd ?p0 p"
    by (rule reachable_step [OF reachable_start _ _ p(1)]) (simp_all add: BGPPeer_def)
  with p show ?thesis by blast
qed

lemma remote_example_facts:
  "plain_config remote_data_example" "pd_as remote_data_example = AsNum 7" "configured_hold_time remote_data_example = 30"
  by (simp_all add: plain_config_def remote_data_example_def add_sent_parameter_def add_parameter_def BGPPeerData_def
      open_negotiation_def remote_example_def local_example_def Let_def negotiate_def)
    (simp add: BGPMultiProtocolCapability_def)

lemma example_expects:
  assumes "pd p = compute_peer_type l d" "ld p = l" "pd q = compute_peer_type k e" "ld q = k"
    and "pd_as d = get_as k" "get_confed_id k = AsNum 0" "\<not> extended (get_as k)"
    and "get_id k = IPv4 0x100000a \<or> get_id k = IPv4 0x200000a" "configured_hold_time e \<noteq> 1" "configured_hold_time e \<noteq> 2"
  shows "expects p q"
proof -
  have "is_unicast (get_id k)" "\<not> is_zero (get_id k)"
    using assms(8)
    by (auto simp: is_unicast_def is_zero_def IN_CLASSA_def IN_CLASSB_def IN_CLASSC_def IN_MULTICAST_def
        IN_BADCLASS_def is_class_a_def is_class_b_def is_class_c_def bswap32_def)
  moreover have "my_AS_number k (compute_peer_type k e) = get_as k"
    using assms(6) by (simp add: my_AS_number_def as_of_def AS_INVALID_def extended_def)
  moreover have "pd_as (compute_peer_type l d) = pd_as d"
    "configured_hold_time (compute_peer_type k e) = configured_hold_time e"
    by (simp_all add: compute_peer_type_def)
  ultimately show ?thesis using assms by (simp add: expects_def)
qed

theorem two_routers_establish_witness:
  "\<exists>(p :: peer) (q :: peer) p3 q3 p2 q2 kb. deliver no_update (Read GOOD_MESSAGE kb 0) p2 = Inr p3
     \<and> deliver no_update (Read GOOD_MESSAGE kb 0) q2 = Inr q3 \<and> ld p = local_example \<and> ld q = remote_example
     \<and> pstate p3 = STATEESTABLISHED \<and> pstate q3 = STATEESTABLISHED
     \<and> hold_duration (pd p3) = 30 \<and> hold_duration (pd q3) = 30"
proof -
  obtain p where p: "reachable no_update (BGPPeer local_example peer_data_example SocketClient) p" "connecting (sc p)"
      "pd p = compute_peer_type local_example peer_data_example" "ld p = local_example"
    using started [OF plain_config_example] by blast
  obtain q where q: "reachable no_update (BGPPeer remote_example remote_data_example SocketClient) q"
      "pstate q = STATECONNECT \<or> pstate q = STATEACTIVE"
      "pd q = compute_peer_type remote_example remote_data_example" "ld q = remote_example"
    using started [OF remote_example_facts(1)] by blast
  have small: "\<not> extended (AsNum 9)" "\<not> extended (AsNum 7)" by (simp_all add: extended_def)
  have "expects p q" "expects q p"
    using small by (intro example_expects [OF p(3,4) q(3,4)] example_expects [OF q(3,4) p(3,4)],
      simp_all add: remote_example_def local_example_def peer_data_example_fields remote_example_facts)+
  from two_routers_establish [OF plain_config_example p(1,2) remote_example_facts(1) q(1,2) this, of 8 0]
  obtain p2 q2 kb p3 q3 where "deliver no_update (Read GOOD_MESSAGE kb 0) p2 = Inr p3"
      "deliver no_update (Read GOOD_MESSAGE kb 0) q2 = Inr q3" "pstate p3 = STATEESTABLISHED" "pstate q3 = STATEESTABLISHED"
      "hold_duration (pd p3) = ucast (agreed_hold_time p q)" "hold_duration (pd q3) = ucast (agreed_hold_time p q)"
    by blast
  moreover have "agreed_hold_time p q = 30"
    by (simp add: agreed_hold_time_def p(3) q(3) compute_peer_type_def peer_data_example_fields remote_example_facts)
  moreover have "(ucast (30 :: u16) :: u32) = 30" by simp
  ultimately show ?thesis using p(4) q(4) by metis
qed

end
