(* ===== verification/Ordered_Map.thy ===== *)
theory Ordered_Map
  imports Xorp_Prelude
begin

text \<open>
  \<open>std::map\<close>: an association list in ascending order of its keys, which is also the order in which
  the iterators of the map visit it. Lookup is \<open>map_of\<close>.
\<close>

fun om_insert :: "'k :: linorder \<Rightarrow> 'v \<Rightarrow> ('k \<times> 'v) list \<Rightarrow> ('k \<times> 'v) list" where
  "om_insert k v [] = [(k, v)]"
| "om_insert k v ((k', v') # xs) =
     (if k < k' then (k, v) # (k', v') # xs
      else if k = k' then (k, v) # xs
      else (k', v') # om_insert k v xs)"

definition om_erase :: "'k \<Rightarrow> ('k \<times> 'v) list \<Rightarrow> ('k \<times> 'v) list" where
  "om_erase k xs = filter (\<lambda>x. fst x \<noteq> k) xs"

definition om_ok :: "('k :: linorder \<times> 'v) list \<Rightarrow> bool" where
  "om_ok xs \<longleftrightarrow> sorted_wrt (<) (map fst xs)"

lemma om_ok_Nil [simp]: "om_ok []"
  by (simp add: om_ok_def)

lemma om_ok_Cons [simp]: "om_ok ((k, v) # xs) \<longleftrightarrow> (\<forall>x \<in> set xs. k < fst x) \<and> om_ok xs"
  by (auto simp: om_ok_def)

lemma set_om_insert: "set (om_insert k v xs) \<subseteq> insert (k, v) (set xs)"
  by (induction xs) (auto split: if_splits)

lemma om_ok_insert [simp]: "om_ok xs \<Longrightarrow> om_ok (om_insert k v xs)"
proof (induction xs)
  case (Cons x xs)
  then show ?case using set_om_insert [of k v xs] by (cases x) (auto dest: subsetD)
qed simp

lemma om_ok_filter [simp]: "om_ok xs \<Longrightarrow> om_ok (filter P xs)"
  by (induction xs) auto

lemma om_ok_erase [simp]: "om_ok xs \<Longrightarrow> om_ok (om_erase k xs)"
  by (simp add: om_erase_def)

lemma om_ok_distinct: "om_ok xs \<Longrightarrow> distinct (map fst xs)"
  by (simp add: om_ok_def strict_sorted_iff)

lemma map_of_om_insert [simp]: "om_ok xs \<Longrightarrow> map_of (om_insert k v xs) = (map_of xs)(k \<mapsto> v)"
  by (induction xs) (auto simp: fun_eq_iff)

lemma map_of_om_erase [simp]: "map_of (om_erase k xs) = (map_of xs)(k := None)"
  by (induction xs) (auto simp: om_erase_def)

lemma om_lookup_iff: "om_ok xs \<Longrightarrow> map_of xs k = Some v \<longleftrightarrow> (k, v) \<in> set xs"
  by (simp add: om_ok_distinct map_of_eq_Some_iff)

lemma om_ok_map_value [simp]: "om_ok (map (\<lambda>(k, v). (k, f k v)) xs) = om_ok xs"
  by (simp add: om_ok_def comp_def split_def)

lemma map_of_om_filter:
  "om_ok xs \<Longrightarrow> map_of (filter (\<lambda>(k, v). P v) xs) k = (case map_of xs k of None \<Rightarrow> None | Some v \<Rightarrow> if P v then Some v else None)"
  by (induction xs) (force split: option.splits dest: map_of_SomeD)+

lemma set_om_insert_new:
  assumes "om_ok xs" "map_of xs k = None"
  shows "set (om_insert k v xs) = insert (k, v) (set xs)"
proof -
  have "(k', v') \<in> set (om_insert k v xs) \<longleftrightarrow> (k', v') = (k, v) \<or> (k', v') \<in> set xs" for k' v'
    using assms om_lookup_iff [of "om_insert k v xs" k' v'] om_lookup_iff [of xs k' v'] by (auto split: if_splits)
  then show ?thesis by auto
qed

end
