(* ===== verification/Spt.thy ===== *)
theory Spt
  imports Ordered_Map
begin

text \<open>
  The shortest path tree of \<open>libproto/spt.hh\<close>, which OSPF runs over its link state database. A node
  object is an element of a heap, and a \<open>NodeRef\<close> is its position there: nodes refer to each other
  through adjacencies and computed paths, also after they were taken out of the graph. The type
  parameter \<open>'a\<close> is the type of node names. \<open>addr\<close> gives the machine address of an object, which
  breaks ties in the queue of tentative nodes.
\<close>

subsection \<open>State\<close>

type_synonym node_ref = nat

record spt_path =
  path_valid :: bool
  first_hop :: "node_ref option"
  last_hop :: "node_ref option"
  path_length :: int

definition no_path :: spt_path where
  "no_path = \<lparr> path_valid = False, first_hop = None, last_hop = None, path_length = 0 \<rparr>"

record 'a spt_node =
  valid :: bool
  nodename :: 'a
  adjacencies :: "('a \<times> node_ref \<times> int) list"
  tentative :: bool
  current :: spt_path
  previous :: spt_path

definition Node :: "'a \<Rightarrow> 'a spt_node" where
  "Node a = \<lparr> valid = True, nodename = a, adjacencies = [], tentative = False, current = no_path, previous = no_path \<rparr>"

record 'a spt =
  heap :: "'a spt_node list"
  nodes :: "('a \<times> node_ref) list"
  spt_origin :: "node_ref option"

definition Spt :: "'a spt" where
  "Spt = \<lparr> heap = [], nodes = [], spt_origin = None \<rparr>"

text \<open>The object behind a reference; an empty reference has none.\<close>

definition deref :: "'a spt_node list \<Rightarrow> node_ref \<Rightarrow> 'a spt_node res" where
  "deref h r = (if r < length h then Inr (h ! r) else Inl Abort)"

definition upd :: "node_ref \<Rightarrow> ('a spt_node \<Rightarrow> 'a spt_node) \<Rightarrow> 'a spt_node list \<Rightarrow> 'a spt_node list" where
  "upd r f h = h[r := f (h ! r)]"

subsection \<open>The graph\<close>

definition find_node :: "'a spt \<Rightarrow> 'a \<Rightarrow> node_ref option" where
  "find_node s n = map_of (nodes s) n"

definition exists_node :: "'a spt \<Rightarrow> 'a \<Rightarrow> bool" where
  "exists_node s n \<longleftrightarrow> map_of (nodes s) n \<noteq> None"

definition set_origin :: "'a \<Rightarrow> 'a spt \<Rightarrow> 'a spt \<times> bool" where
  "set_origin n s = (case find_node s n of
     None \<Rightarrow> (s, False)
   | Some r \<Rightarrow> (s\<lparr> spt_origin := Some r \<rparr>, True))"

definition add_node :: "'a :: linorder \<Rightarrow> 'a spt \<Rightarrow> ('a spt \<times> bool) res" where
  "add_node n s = (case find_node s n of
     Some r \<Rightarrow> res_bind (deref (heap s) r) (\<lambda>node.
       if valid node then Inr (s, False)
       else Inr (s\<lparr> heap := upd r (\<lambda>x. x\<lparr> adjacencies := [], valid := True \<rparr>) (heap s) \<rparr>, True))
   | None \<Rightarrow> Inr (s\<lparr> heap := heap s @ [Node n], nodes := om_insert n (length (heap s)) (nodes s) \<rparr>, True))"

definition update_node :: "'a \<Rightarrow> 'a spt \<Rightarrow> ('a spt \<times> bool) res" where
  "update_node n s = (case find_node s n of
     None \<Rightarrow> Inr (s, False)
   | Some r \<Rightarrow> res_bind (deref (heap s) r) (\<lambda>node.
       if \<not> valid node then Inr (s, False)
       else Inr (s\<lparr> heap := upd r (\<lambda>x. x\<lparr> nodename := n \<rparr>) (heap s) \<rparr>, True)))"

definition remove_node :: "'a \<Rightarrow> 'a spt \<Rightarrow> ('a spt \<times> bool) res" where
  "remove_node n s = (case find_node s n of
     None \<Rightarrow> Inr (s, False)
   | Some r \<Rightarrow> res_bind (deref (heap s) r) (\<lambda>node.
       if \<not> valid node then Inr (s, False)
       else Inr (s\<lparr> heap := upd r (\<lambda>x. x\<lparr> valid := False \<rparr>) (heap s) \<rparr>, True)))"

definition node_add_edge :: "node_ref \<Rightarrow> node_ref \<Rightarrow> int \<Rightarrow> 'a :: linorder spt_node list \<Rightarrow> ('a spt_node list \<times> bool) res" where
  "node_add_edge src dst weight h = res_bind (deref h src) (\<lambda>node. res_bind (deref h dst) (\<lambda>d.
     if map_of (adjacencies node) (nodename d) \<noteq> None then Inr (h, False)
     else Inr (upd src (\<lambda>x. x\<lparr> adjacencies := om_insert (nodename d) (dst, weight) (adjacencies x) \<rparr>) h, True)))"

definition add_edge :: "'a :: linorder \<Rightarrow> int \<Rightarrow> 'a \<Rightarrow> 'a spt \<Rightarrow> ('a spt \<times> bool) res" where
  "add_edge src weight dst s = (case find_node s src of
     None \<Rightarrow> Inr (s, False)
   | Some srcnode \<Rightarrow>
       res_bind (if find_node s dst = None then add_node dst s else Inr (s, True)) (\<lambda>(s, ok).
         if \<not> ok then Inr (s, False)
         else (case find_node s dst of
           None \<Rightarrow> Inr (s, False)
         | Some dstnode \<Rightarrow>
             res_map (\<lambda>(h, b). (s\<lparr> heap := h \<rparr>, b)) (node_add_edge srcnode dstnode weight (heap s)))))"

definition node_update_edge_weight :: "node_ref \<Rightarrow> node_ref \<Rightarrow> int \<Rightarrow> 'a :: linorder spt_node list \<Rightarrow> ('a spt_node list \<times> bool) res" where
  "node_update_edge_weight src dst weight h = res_bind (deref h src) (\<lambda>node. res_bind (deref h dst) (\<lambda>d.
     case map_of (adjacencies node) (nodename d) of
       None \<Rightarrow> Inr (h, False)
     | Some (r, w) \<Rightarrow>
         Inr (upd src (\<lambda>x. x\<lparr> adjacencies := om_insert (nodename d) (r, weight) (adjacencies x) \<rparr>) h, True)))"

definition node_remove_edge :: "node_ref \<Rightarrow> node_ref \<Rightarrow> 'a spt_node list \<Rightarrow> ('a spt_node list \<times> bool) res" where
  "node_remove_edge src dst h = res_bind (deref h src) (\<lambda>node. res_bind (deref h dst) (\<lambda>d.
     if map_of (adjacencies node) (nodename d) = None then Inr (h, False)
     else Inr (upd src (\<lambda>x. x\<lparr> adjacencies := om_erase (nodename d) (adjacencies x) \<rparr>) h, True)))"

text \<open>\<open>update_edge_weight\<close>, \<open>remove_edge\<close> and \<open>get_edge_weight\<close> of \<open>Spt\<close>: both nodes must exist.\<close>

definition update_edge_weight :: "'a :: linorder \<Rightarrow> int \<Rightarrow> 'a \<Rightarrow> 'a spt \<Rightarrow> ('a spt \<times> bool) res" where
  "update_edge_weight src weight dst s = (case (find_node s src, find_node s dst) of
     (Some srcnode, Some dstnode) \<Rightarrow>
       res_map (\<lambda>(h, b). (s\<lparr> heap := h \<rparr>, b)) (node_update_edge_weight srcnode dstnode weight (heap s))
   | _ \<Rightarrow> Inr (s, False))"

definition remove_edge :: "'a \<Rightarrow> 'a \<Rightarrow> 'a spt \<Rightarrow> ('a spt \<times> bool) res" where
  "remove_edge src dst s = (case (find_node s src, find_node s dst) of
     (Some srcnode, Some dstnode) \<Rightarrow>
       res_map (\<lambda>(h, b). (s\<lparr> heap := h \<rparr>, b)) (node_remove_edge srcnode dstnode (heap s))
   | _ \<Rightarrow> Inr (s, False))"

definition get_edge_weight :: "'a \<Rightarrow> 'a \<Rightarrow> 'a spt \<Rightarrow> int option res" where
  "get_edge_weight src dst s = (case (find_node s src, find_node s dst) of
     (Some srcnode, Some dstnode) \<Rightarrow>
       res_bind (deref (heap s) srcnode) (\<lambda>node. res_map (\<lambda>d.
         map_option snd (map_of (adjacencies node) (nodename d))) (deref (heap s) dstnode))
   | _ \<Rightarrow> Inr None)"

subsection \<open>The queue of tentative nodes\<close>

definition get_local_weight :: "'a spt_node list \<Rightarrow> node_ref \<Rightarrow> int res" where
  "get_local_weight h r = res_bind (deref h r) (\<lambda>x.
     if \<not> valid x \<or> \<not> tentative x \<or> \<not> path_valid (current x) then Inl XlogAssert
     else Inr (path_length (current x)))"

definition set_local_weight :: "node_ref \<Rightarrow> int \<Rightarrow> 'a spt_node list \<Rightarrow> ('a spt_node list \<times> bool) res" where
  "set_local_weight r weight h = res_bind (deref h r) (\<lambda>x.
     if \<not> tentative x then Inl XlogAssert
     else if \<not> path_valid (current x) then
       Inr (upd r (\<lambda>x. x\<lparr> current := (current x)\<lparr> path_length := weight, path_valid := True \<rparr> \<rparr>) h, True)
     else if path_length (current x) > weight then
       Inr (upd r (\<lambda>x. x\<lparr> current := (current x)\<lparr> path_length := weight \<rparr> \<rparr>) h, True)
     else Inr (h, False))"

definition lweight :: "(node_ref \<Rightarrow> nat) \<Rightarrow> 'a spt_node list \<Rightarrow> node_ref \<Rightarrow> node_ref \<Rightarrow> bool res" where
  "lweight addr h a b = res_bind (get_local_weight h a) (\<lambda>aw. res_bind (get_local_weight h b) (\<lambda>bw.
     Inr (if aw = bw then addr a < addr b else aw < bw)))"

text \<open>
  The \<open>std::set\<close> of tentative nodes in its order. \<open>tent_find\<close> divides it before the first element
  that is not less than \<open>n\<close>, where \<open>find\<close> looks for \<open>n\<close>.
\<close>

fun tent_find :: "(node_ref \<Rightarrow> nat) \<Rightarrow> 'a spt_node list \<Rightarrow> node_ref \<Rightarrow> node_ref list \<Rightarrow> (node_ref list \<times> node_ref list) res" where
  "tent_find addr h n [] = Inr ([], [])"
| "tent_find addr h n (m # ms) = res_bind (lweight addr h m n) (\<lambda>less.
     if less then res_map (\<lambda>(lo, hi). (m # lo, hi)) (tent_find addr h n ms) else Inr ([], m # ms))"

definition tent_erase :: "(node_ref \<Rightarrow> nat) \<Rightarrow> 'a spt_node list \<Rightarrow> node_ref \<Rightarrow> node_ref list \<Rightarrow> node_ref list res" where
  "tent_erase addr h n q = res_bind (tent_find addr h n q) (\<lambda>(lo, hi). case hi of
     [] \<Rightarrow> Inr q
   | m # _ \<Rightarrow> res_map (\<lambda>less. if less then q else lo @ remove1 n hi) (lweight addr h n m))"

definition tent_insert :: "(node_ref \<Rightarrow> nat) \<Rightarrow> 'a spt_node list \<Rightarrow> node_ref \<Rightarrow> node_ref list \<Rightarrow> node_ref list res" where
  "tent_insert addr h n q = res_bind (tent_find addr h n q) (\<lambda>(lo, hi). case hi of
     [] \<Rightarrow> Inr (lo @ [n])
   | m # _ \<Rightarrow> res_map (\<lambda>less. if less then lo @ n # hi else q) (lweight addr h n m))"

definition pq_add :: "(node_ref \<Rightarrow> nat) \<Rightarrow> node_ref \<Rightarrow> int \<Rightarrow> 'a spt_node list \<Rightarrow> node_ref list
    \<Rightarrow> ('a spt_node list \<times> node_ref list \<times> bool) res" where
  "pq_add addr n weight h q = res_bind (deref h n) (\<lambda>x.
     res_bind (if path_valid (current x) then tent_erase addr h n q else Inr q) (\<lambda>q.
     res_bind (set_local_weight n weight h) (\<lambda>(h, accepted).
     res_map (\<lambda>q. (h, q, accepted)) (tent_insert addr h n q))))"

subsection \<open>Dijkstra\<close>

text \<open>The sum of two C++ \<open>int\<close> values.\<close>

definition add_int :: "int \<Rightarrow> int \<Rightarrow> int res" where
  "add_int a b = (if - (2 ^ 31) \<le> a + b \<and> a + b < 2 ^ 31 then Inr (a + b) else Inl SignedOverflow)"

fun adjacent_loop :: "(node_ref \<Rightarrow> nat) \<Rightarrow> node_ref \<Rightarrow> int \<Rightarrow> ('a \<times> node_ref \<times> int) list \<Rightarrow> 'a spt_node list
    \<Rightarrow> node_ref list \<Rightarrow> ('a spt_node list \<times> node_ref list) res" where
  "adjacent_loop addr me delta_weight [] h q = Inr (h, q)"
| "adjacent_loop addr me delta_weight ((k, n, w) # es) h q = res_bind (deref h n) (\<lambda>x.
     if valid x \<and> tentative x then
       res_bind (add_int delta_weight w) (\<lambda>weight.
       res_bind (pq_add addr n weight h q) (\<lambda>(h, q, accepted).
         adjacent_loop addr me delta_weight es
           (if accepted then upd n (\<lambda>x. x\<lparr> current := (current x)\<lparr> last_hop := Some me \<rparr> \<rparr>) h else h) q))
     else adjacent_loop addr me delta_weight es h q)"

definition set_adjacent_weights :: "(node_ref \<Rightarrow> nat) \<Rightarrow> node_ref \<Rightarrow> int \<Rightarrow> 'a spt_node list \<Rightarrow> node_ref list
    \<Rightarrow> ('a spt_node list \<times> node_ref list) res" where
  "set_adjacent_weights addr me delta_weight h q =
     res_bind (deref h me) (\<lambda>x. adjacent_loop addr me delta_weight (adjacencies x) h q)"

definition get_first_hop :: "'a spt_node list \<Rightarrow> node_ref \<Rightarrow> node_ref option res" where
  "get_first_hop h r = res_bind (deref h r) (\<lambda>x.
     if \<not> path_valid (current x) then Inl XlogAssert else Inr (first_hop (current x)))"

definition get_last_hop :: "'a spt_node list \<Rightarrow> node_ref \<Rightarrow> node_ref option res" where
  "get_last_hop h r = res_bind (deref h r) (\<lambda>x.
     if \<not> path_valid (current x) then Inl XlogAssert else Inr (last_hop (current x)))"

definition set_first_hop :: "node_ref \<Rightarrow> node_ref option \<Rightarrow> 'a spt_node list \<Rightarrow> 'a spt_node list" where
  "set_first_hop r f = upd r (\<lambda>x. x\<lparr> current := (current x)\<lparr> first_hop := f \<rparr> \<rparr>)"

definition set_tentative :: "bool \<Rightarrow> node_ref \<Rightarrow> 'a spt_node list \<Rightarrow> 'a spt_node list" where
  "set_tentative b r = upd r (\<lambda>x. x\<lparr> tentative := b \<rparr>)"

text \<open>The body of the loop for the node \<open>cur\<close> that was popped: it becomes permanent and gets its first hop.\<close>

definition make_permanent :: "node_ref \<Rightarrow> node_ref \<Rightarrow> 'a spt_node list \<Rightarrow> ('a spt_node list \<times> int) res" where
  "make_permanent org cur h = res_bind (get_local_weight h cur) (\<lambda>weight.
     let h = set_tentative False cur h in
     res_bind (get_last_hop h cur) (\<lambda>prev.
       if prev = Some org then Inr (set_first_hop cur (Some cur) h, weight)
       else (case prev of
         None \<Rightarrow> Inl Abort
       | Some p \<Rightarrow> res_map (\<lambda>f. (set_first_hop cur f h, weight)) (get_first_hop h p))))"

lemma map_upd:
  assumes "\<And>x. g (f x) = g x"
  shows "map g (upd r f h) = map g h"
proof (cases "r < length h")
  case True
  then have "(map g h)[r := g (h ! r)] = map g h" by (metis list_update_id nth_map)
  then show ?thesis by (simp only: upd_def map_update assms)
qed (simp add: upd_def list_update_beyond)

lemmas tentative_upd = map_upd [where g = tentative]

lemma pq_add_tentative: "pq_add addr n w h q = Inr (h', q', acc) \<Longrightarrow> map tentative h' = map tentative h"
  by (auto simp: pq_add_def set_local_weight_def tentative_upd split: if_splits)

lemma adjacent_loop_tentative:
  "adjacent_loop addr me d es h q = Inr (h', q') \<Longrightarrow> map tentative h' = map tentative h"
proof (induction es arbitrary: h q)
  case (Cons e es)
  obtain k n w where "e = (k, n, w)" by (cases e)
  with Cons.prems Cons.IH show ?case
    by (auto simp: tentative_upd split: if_splits dest!: pq_add_tentative)
qed simp

lemma count_True_less:
  "i < length bs \<Longrightarrow> bs ! i \<Longrightarrow> length (filter id (bs[i := False])) < length (filter id bs)"
proof (induction bs arbitrary: i)
  case (Cons b bs)
  then show ?case by (cases i) auto
qed simp

lemma make_permanent_tentative:
  assumes "make_permanent org c h = Inr (h', w)"
  shows "c < length h" "tentative (h ! c)" "map tentative h' = (map tentative h)[c := False]"
proof -
  from assms have c: "c < length h" "tentative (h ! c)"
    by (auto simp: make_permanent_def get_local_weight_def deref_def split: if_splits)
  have "map tentative (set_tentative False c h) = (map tentative h)[c := False]"
    by (simp add: set_tentative_def upd_def map_update)
  moreover have "map tentative h' = map tentative (set_tentative False c h)"
    using assms by (auto simp: make_permanent_def Let_def set_first_hop_def tentative_upd split: if_splits option.splits)
  ultimately show "c < length h" "tentative (h ! c)" "map tentative h' = (map tentative h)[c := False]"
    using c by simp_all
qed

function dijkstra_loop :: "(node_ref \<Rightarrow> nat) \<Rightarrow> node_ref \<Rightarrow> node_ref \<Rightarrow> int \<Rightarrow> 'a spt_node list \<Rightarrow> node_ref list
    \<Rightarrow> 'a spt_node list res" where
  "dijkstra_loop addr org cur weight h q =
     res_bind (set_adjacent_weights addr cur weight h q) (\<lambda>hq. case snd hq of
       [] \<Rightarrow> Inr (fst hq)
     | c # q' \<Rightarrow> res_bind (make_permanent org c (fst hq)) (\<lambda>hw. dijkstra_loop addr org c (snd hw) (fst hw) q'))"
  by pat_completeness auto
termination
proof (relation "measure (\<lambda>(addr, org, cur, weight, h, q). length (filter id (map tentative h)))", goal_cases)
  case (2 addr org cur weight h q hq c q' hw)
  have "map tentative (fst hq) = map tentative h"
    using 2(1) by (cases hq) (auto simp: set_adjacent_weights_def dest: adjacent_loop_tentative)
  moreover have c: "c < length (fst hq)" "tentative (fst hq ! c)"
      "map tentative (fst hw) = (map tentative (fst hq))[c := False]"
    using make_permanent_tentative [of org c "fst hq" "fst hw" "snd hw"] 2(3) by simp_all
  moreover have "length (filter id ((map tentative (fst hq))[c := False])) < length (filter id (map tentative (fst hq)))"
    using c by (intro count_True_less) simp_all
  ultimately show ?case by (simp del: length_filter_map)
qed simp

declare dijkstra_loop.simps [simp del]

definition init_dijkstra :: "node_ref \<Rightarrow> 'a spt_node list \<Rightarrow> 'a spt_node list" where
  "init_dijkstra r = upd r (\<lambda>x. x\<lparr> tentative := True, current := (current x)\<lparr> path_valid := False \<rparr> \<rparr>)"

definition dijkstra :: "(node_ref \<Rightarrow> nat) \<Rightarrow> 'a spt \<Rightarrow> ('a spt \<times> bool) res" where
  "dijkstra addr s = (case spt_origin s of
     None \<Rightarrow> Inr (s, False)
   | Some org \<Rightarrow>
       (let h = fold (\<lambda>(k, r). init_dijkstra r) (nodes s) (heap s);
            h = set_tentative False org h
        in res_map (\<lambda>h. (s\<lparr> heap := h \<rparr>, True)) (dijkstra_loop addr org org 0 h [])))"

subsection \<open>Route commands\<close>

datatype cmd = ADD | DELETE | REPLACE

record 'a route_cmd =
  rc_cmd :: cmd
  rc_node :: 'a
  nexthop :: 'a
  prevhop :: 'a
  rc_weight :: int
  next_hop_changed :: bool
  weight_changed :: bool

definition hop_name :: "'a spt_node list \<Rightarrow> node_ref option \<Rightarrow> 'a res" where
  "hop_name h r = (case r of None \<Rightarrow> Inl Abort | Some r \<Rightarrow> res_map nodename (deref h r))"

definition delete_cmd :: "'a \<Rightarrow> 'a route_cmd" where
  "delete_cmd n = \<lparr> rc_cmd = DELETE, rc_node = n, nexthop = n, prevhop = n, rc_weight = 0,
     next_hop_changed = False, weight_changed = False \<rparr>"

definition delta :: "node_ref \<Rightarrow> 'a spt_node list \<Rightarrow> ('a spt_node list \<times> 'a route_cmd option) res" where
  "delta r h = res_bind (deref h r) (\<lambda>x.
     if \<not> valid x then Inr (h, Some (delete_cmd (nodename x)))
     else let c = current x; p = previous x; h = upd r (\<lambda>x. x\<lparr> previous := current x \<rparr>) h in
       if \<not> path_valid c then Inr (h, if path_valid p then Some (delete_cmd (nodename x)) else None)
       else if path_valid p \<and> first_hop c = first_hop p \<and> path_length c = path_length p then Inr (h, None)
       else res_bind (hop_name h (first_hop c)) (\<lambda>next. res_bind (hop_name h (last_hop c)) (\<lambda>prev.
         Inr (h, Some (if \<not> path_valid p
           then \<lparr> rc_cmd = ADD, rc_node = nodename x, nexthop = next, prevhop = prev, rc_weight = path_length c,
                  next_hop_changed = False, weight_changed = False \<rparr>
           else \<lparr> rc_cmd = REPLACE, rc_node = nodename x, nexthop = next, prevhop = prev, rc_weight = path_length c,
                  next_hop_changed = first_hop c \<noteq> first_hop p,
                  weight_changed = path_length c \<noteq> path_length p \<rparr>)))))"

fun delta_loop :: "node_ref option \<Rightarrow> ('a \<times> node_ref) list \<Rightarrow> 'a spt_node list \<Rightarrow> ('a spt_node list \<times> 'a route_cmd list) res" where
  "delta_loop org [] h = Inr (h, [])"
| "delta_loop org ((k, r) # ns) h =
     (if Some r = org then delta_loop org ns h
      else res_bind (delta r h) (\<lambda>(h, c).
        res_map (\<lambda>(h, cs). (h, case c of None \<Rightarrow> cs | Some c \<Rightarrow> c # cs)) (delta_loop org ns h)))"

subsection \<open>Garbage collection\<close>

definition clear_node :: "node_ref \<Rightarrow> 'a spt_node list \<Rightarrow> 'a spt_node list" where
  "clear_node r = upd r (\<lambda>x. x\<lparr> current := (current x)\<lparr> first_hop := None, last_hop := None \<rparr>,
     previous := (previous x)\<lparr> first_hop := None, last_hop := None \<rparr>, adjacencies := [] \<rparr>)"

text \<open>
  \<open>Node::garbage_collect\<close> walks the adjacencies \<open>es\<close> of the node \<open>r\<close>. A node is not its own invalid
  neighbour, so clearing a neighbour does not change the list it walks.
\<close>

fun gc_edges :: "node_ref \<Rightarrow> ('a \<times> node_ref \<times> int) list \<Rightarrow> 'a spt_node list \<Rightarrow> 'a spt_node list res" where
  "gc_edges r [] h = Inr h"
| "gc_edges r ((k, n, w) # es) h = res_bind (deref h n) (\<lambda>x.
     if \<not> valid x
     then gc_edges r es (upd r (\<lambda>x. x\<lparr> adjacencies := om_erase k (adjacencies x) \<rparr>) (clear_node n h))
     else gc_edges r es h)"

fun gc_nodes :: "('a \<times> node_ref) list \<Rightarrow> 'a spt_node list \<Rightarrow> 'a spt_node list res" where
  "gc_nodes [] h = Inr h"
| "gc_nodes ((k, r) # ns) h = res_bind (deref h r) (\<lambda>x. res_bind (gc_edges r (adjacencies x) h) (gc_nodes ns))"

fun live_nodes :: "('a \<times> node_ref) list \<Rightarrow> 'a spt_node list \<Rightarrow> ('a \<times> node_ref) list res" where
  "live_nodes [] h = Inr []"
| "live_nodes ((k, r) # ns) h = res_bind (deref h r) (\<lambda>x.
     res_map (\<lambda>rest. if \<not> valid x then rest else (k, r) # rest) (live_nodes ns h))"

definition spt_garbage_collect :: "'a spt \<Rightarrow> 'a spt res" where
  "spt_garbage_collect s = res_bind (live_nodes (nodes s) (heap s)) (\<lambda>ns.
     res_map (\<lambda>h. s\<lparr> nodes := ns, heap := h \<rparr>) (gc_nodes ns (heap s)))"

definition compute :: "(node_ref \<Rightarrow> nat) \<Rightarrow> 'a spt \<Rightarrow> ('a spt \<times> 'a route_cmd list \<times> bool) res" where
  "compute addr s = res_bind (dijkstra addr s) (\<lambda>(s, ok).
     if \<not> ok then Inr (s, [], False)
     else res_bind (delta_loop (spt_origin s) (nodes s) (heap s)) (\<lambda>(h, routes).
       res_map (\<lambda>s. (s, routes, True)) (spt_garbage_collect (s\<lparr> heap := h \<rparr>))))"

end
