(* ===== verification/Spt_Queue.thy ===== *)
theory Spt_Queue
  imports Spt
begin

text \<open>
  The queue of tentative nodes of \<open>Spt\<close>: the \<open>std::set\<close> is kept in order of weight and address, and
  \<open>PriorityQueue::add\<close> lowers the weight of a node and keeps that order.
\<close>

abbreviation plen :: "'a spt_node list \<Rightarrow> node_ref \<Rightarrow> int" where
  "plen h r \<equiv> path_length (current (h ! r))"

abbreviation known :: "'a spt_node list \<Rightarrow> node_ref \<Rightarrow> bool" where
  "known h r \<equiv> path_valid (current (h ! r))"

definition queueable :: "'a spt_node list \<Rightarrow> node_ref \<Rightarrow> bool" where
  "queueable h r \<longleftrightarrow> r < length h \<and> valid (h ! r) \<and> tentative (h ! r) \<and> known h r"

definition before :: "(node_ref \<Rightarrow> nat) \<Rightarrow> 'a spt_node list \<Rightarrow> node_ref \<Rightarrow> node_ref \<Rightarrow> bool" where
  "before addr h a b \<longleftrightarrow> plen h a < plen h b \<or> plen h a = plen h b \<and> addr a < addr b"

definition queue_ok :: "(node_ref \<Rightarrow> nat) \<Rightarrow> 'a spt_node list \<Rightarrow> node_ref list \<Rightarrow> bool" where
  "queue_ok addr h q \<longleftrightarrow> sorted_wrt (before addr h) q \<and> list_all (queueable h) q"

lemma before_irrefl [simp]: "\<not> before addr h a a"
  by (simp add: before_def)

lemma before_trans: "before addr h a b \<Longrightarrow> before addr h b c \<Longrightarrow> before addr h a c"
  by (auto simp: before_def)

lemma before_total: "inj addr \<Longrightarrow> a \<noteq> b \<Longrightarrow> before addr h a b \<or> before addr h b a"
  using inj_eq [of addr a b] by (auto simp: before_def)

lemma before_asym: "before addr h a b \<Longrightarrow> \<not> before addr h b a"
  by (auto simp: before_def)

lemma queue_ok_distinct: "queue_ok addr h q \<Longrightarrow> distinct q"
  by (induction q) (auto simp: queue_ok_def)

lemma get_local_weight_queueable: "queueable h r \<Longrightarrow> get_local_weight h r = Inr (plen h r)"
  by (simp add: queueable_def get_local_weight_def deref_def)

lemma lweight_queueable:
  "queueable h a \<Longrightarrow> queueable h b \<Longrightarrow> lweight addr h a b = Inr (before addr h a b)"
  by (auto simp: lweight_def get_local_weight_queueable before_def)

lemma tent_find_eq:
  "list_all (queueable h) q \<Longrightarrow> queueable h n \<Longrightarrow>
     tent_find addr h n q = Inr (takeWhile (\<lambda>m. before addr h m n) q, dropWhile (\<lambda>m. before addr h m n) q)"
  by (induction q) (auto simp: lweight_queueable)

lemma split_at_member:
  assumes "sorted_wrt (before addr h) q" "n \<in> set q"
  shows "\<exists>lo hi. q = lo @ n # hi \<and> takeWhile (\<lambda>m. before addr h m n) q = lo
    \<and> dropWhile (\<lambda>m. before addr h m n) q = n # hi \<and> n \<notin> set lo"
proof -
  obtain lo hi where q: "q = lo @ n # hi" using assms(2) by (meson split_list)
  have lo: "\<forall>m \<in> set lo. before addr h m n" using assms(1) unfolding q by (auto simp: sorted_wrt_append)
  then have "takeWhile (\<lambda>m. before addr h m n) q = lo" "dropWhile (\<lambda>m. before addr h m n) q = n # hi"
    unfolding q by (auto simp: takeWhile_append2 dropWhile_append2)
  with q lo show ?thesis by auto
qed

lemma tent_erase_member:
  assumes "queue_ok addr h q" "n \<in> set q"
  shows "tent_erase addr h n q = Inr (remove1 n q)"
proof -
  have n: "queueable h n" and all: "list_all (queueable h) q"
    using assms by (auto simp: queue_ok_def list_all_iff)
  obtain lo hi where q: "q = lo @ n # hi" "takeWhile (\<lambda>m. before addr h m n) q = lo"
      "dropWhile (\<lambda>m. before addr h m n) q = n # hi" "n \<notin> set lo"
    using split_at_member assms by (metis queue_ok_def)
  have "tent_erase addr h n q = Inr (lo @ remove1 n (n # hi))"
    using n by (simp add: tent_erase_def tent_find_eq [OF all n] q(2,3) lweight_queueable)
  moreover have "remove1 n q = lo @ hi" using q(4) unfolding q(1) by (simp add: remove1_append)
  ultimately show ?thesis by simp
qed

lemma sorted_split:
  assumes "sorted_wrt (before addr h) q" "inj addr" "n \<notin> set q"
  obtains lo hi where "takeWhile (\<lambda>m. before addr h m n) q = lo" "dropWhile (\<lambda>m. before addr h m n) q = hi"
    and "q = lo @ hi" "sorted_wrt (before addr h) (lo @ n # hi)" "\<forall>m \<in> set hi. before addr h n m"
proof -
  define lo hi where "lo = takeWhile (\<lambda>m. before addr h m n) q" and "hi = dropWhile (\<lambda>m. before addr h m n) q"
  have q: "q = lo @ hi" by (simp add: lo_def hi_def)
  have lo: "before addr h m n" if "m \<in> set lo" for m using that unfolding lo_def by (rule set_takeWhileD [THEN conjunct2])
  have hi: "before addr h n m" if m: "m \<in> set hi" for m
  proof (cases hi)
    case (Cons x xs)
    then have "\<not> before addr h x n" unfolding hi_def by (metis hd_dropWhile list.discI list.sel(1))
    moreover have "x \<noteq> n" using assms(3) Cons q by auto
    ultimately have "before addr h n x" using before_total [OF assms(2)] by blast
    moreover have "m = x \<or> before addr h x m" using m assms(1) Cons q by (auto simp: sorted_wrt_append)
    ultimately show ?thesis using before_trans by blast
  next
    case Nil
    with m show ?thesis by simp
  qed
  have "sorted_wrt (before addr h) (lo @ n # hi)"
    using assms(1) lo hi unfolding q by (auto simp: sorted_wrt_append)
  with q hi show ?thesis using that [OF lo_def [symmetric] hi_def [symmetric]] by blast
qed

lemma tent_insert_new:
  assumes "queue_ok addr h q" "queueable h n" "n \<notin> set q" "inj addr"
  shows "\<exists>q'. tent_insert addr h n q = Inr q' \<and> queue_ok addr h q' \<and> set q' = insert n (set q)"
proof -
  have all: "list_all (queueable h) q" and sorted: "sorted_wrt (before addr h) q" using assms(1) by (simp_all add: queue_ok_def)
  obtain lo hi where lo: "takeWhile (\<lambda>m. before addr h m n) q = lo" "dropWhile (\<lambda>m. before addr h m n) q = hi"
    and q: "q = lo @ hi" and split: "sorted_wrt (before addr h) (lo @ n # hi)" "\<forall>m \<in> set hi. before addr h n m"
    using sorted_split [OF sorted assms(4,3)] .
  have "tent_find addr h n q = Inr (lo, hi)" using tent_find_eq [OF all assms(2)] lo by simp
  then have "tent_insert addr h n q = Inr (lo @ n # hi)"
    using split(2) all assms(2) q
    by (cases hi) (simp_all add: tent_insert_def lweight_queueable)
  moreover have "queue_ok addr h (lo @ n # hi)"
    using split(1) all assms(2) q by (simp add: queue_ok_def)
  ultimately show ?thesis using q by auto
qed

text \<open>\<open>PriorityQueue::add\<close>: a weight that is not lower than the known one changes nothing.\<close>

definition relaxed :: "node_ref \<Rightarrow> int \<Rightarrow> 'a spt_node list \<Rightarrow> 'a spt_node list" where
  "relaxed n weight = upd n (\<lambda>x. x\<lparr> current := (current x)\<lparr> path_length := weight, path_valid := True \<rparr> \<rparr>)"

lemma path_valid_again: "path_valid c \<Longrightarrow> c\<lparr> path_length := w, path_valid := True \<rparr> = c\<lparr> path_length := w \<rparr>"
  by (cases c) simp

lemma queue_ok_relaxed:
  assumes "queue_ok addr h q" "n \<notin> set q"
  shows "queue_ok addr (relaxed n w h) q"
proof -
  have same: "relaxed n w h ! m = h ! m" if "m \<in> set q" for m
    using that assms(2) by (cases "m = n") (simp_all add: relaxed_def upd_def)
  have "sorted_wrt (before addr (relaxed n w h)) q"
    by (rule sorted_wrt_mono_rel [of q "before addr h"]) (use assms(1) same in \<open>simp_all add: queue_ok_def before_def\<close>)
  moreover have "list_all (queueable (relaxed n w h)) q"
    using assms(1) same by (simp add: queue_ok_def list_all_iff queueable_def) (simp add: relaxed_def upd_def)
  ultimately show ?thesis by (simp add: queue_ok_def)
qed

lemma queueable_relaxed:
  assumes "n < length h" "valid (h ! n)" "tentative (h ! n)"
  shows "queueable (relaxed n w h) n"
  using assms by (simp add: relaxed_def upd_def queueable_def)

lemma sorted_wrt_remove1: "sorted_wrt P q \<Longrightarrow> sorted_wrt P (remove1 n q)"
  by (induction q) (auto dest: set_remove1_subset [THEN subsetD])

lemma queue_ok_remove1: "queue_ok addr h q \<Longrightarrow> queue_ok addr h (remove1 n q)"
  unfolding queue_ok_def by (auto simp: sorted_wrt_remove1 list_all_iff dest: set_remove1_subset [THEN subsetD])

lemma pq_add_spec:
  assumes "queue_ok addr h q" "inj addr" "n < length h" "valid (h ! n)" "tentative (h ! n)" "known h n \<longleftrightarrow> n \<in> set q"
  shows "\<exists>q'. pq_add addr n w h q = Inr (if known h n \<and> plen h n \<le> w then (h, q', False) else (relaxed n w h, q', True))
    \<and> queue_ok addr (if known h n \<and> plen h n \<le> w then h else relaxed n w h) q' \<and> set q' = insert n (set q)"
proof -
  define q1 where "q1 = remove1 n q"
  have q1: "queue_ok addr h q1" "n \<notin> set q1" "insert n (set q1) = insert n (set q)"
    unfolding q1_def using queue_ok_remove1 [OF assms(1)] queue_ok_distinct [OF assms(1)] by auto
  have erase: "(if known h n then tent_erase addr h n q else Inr q) = Inr q1"
    using assms(1,6) tent_erase_member by (auto simp: q1_def remove1_idem)
  show ?thesis
  proof (cases "known h n \<and> plen h n \<le> w")
    case True
    then have "queueable h n" using assms(3-5) by (simp add: queueable_def)
    then obtain q' where "tent_insert addr h n q1 = Inr q'" "queue_ok addr h q'" "set q' = insert n (set q1)"
      using tent_insert_new [OF q1(1) _ q1(2) assms(2)] by blast
    moreover have "set_local_weight n w h = Inr (h, False)"
      using True assms(3,5) by (simp add: set_local_weight_def deref_def)
    ultimately show ?thesis using True erase q1(3) assms(3) by (auto simp: pq_add_def deref_def)
  next
    case False
    obtain q' where "tent_insert addr (relaxed n w h) n q1 = Inr q'" "queue_ok addr (relaxed n w h) q'"
        "set q' = insert n (set q1)"
      using tent_insert_new [OF queue_ok_relaxed [OF q1(1,2)] queueable_relaxed [OF assms(3-5)] q1(2) assms(2)] by blast
    moreover have "set_local_weight n w h = Inr (relaxed n w h, True)"
      using False assms(3,5) by (auto simp: set_local_weight_def deref_def relaxed_def upd_def path_valid_again)
    ultimately show ?thesis using False erase q1(3) assms(3) by (auto simp: pq_add_def deref_def)
  qed
qed

end
