(* ===== verification/Spt_Paths.thy ===== *)
theory Spt_Paths
  imports Spt_Queue
begin

text \<open>
  Dijkstra's algorithm as \<open>Spt\<close> runs it computes shortest paths: it ends without a failing assertion
  and without an overflow, reaches exactly the nodes that the origin has a path to, and leaves in
  every one of them the length of a shortest path, its last node before the end and its first node
  after the origin.
\<close>

subsection \<open>Walks in the graph\<close>

text \<open>An edge leads to a node that is not marked for deletion; a walk is a sequence of edges, with its weight.\<close>

definition edge :: "'a spt_node list \<Rightarrow> node_ref \<Rightarrow> node_ref \<Rightarrow> int \<Rightarrow> bool" where
  "edge h u v w \<longleftrightarrow> u < length h \<and> v < length h \<and> valid (h ! v) \<and> (\<exists>k. (k, v, w) \<in> set (adjacencies (h ! u)))"

inductive walk :: "'a spt_node list \<Rightarrow> node_ref \<Rightarrow> int \<Rightarrow> node_ref \<Rightarrow> bool" for h u where
  walk_start: "walk h u 0 u"
| walk_step: "walk h u d v \<Longrightarrow> edge h v v' w \<Longrightarrow> walk h u (d + w) v'"

definition shortest :: "'a spt_node list \<Rightarrow> node_ref \<Rightarrow> int \<Rightarrow> node_ref \<Rightarrow> bool" where
  "shortest h u d v \<longleftrightarrow> walk h u d v \<and> (\<forall>d'. walk h u d' v \<longrightarrow> d \<le> d')"

text \<open>
  The graph on the nodes \<open>N\<close>: edges do not leave it, their weights are between 0 and \<open>M\<close>, and no
  path without a cycle is too long for an \<open>int\<close>.
\<close>

definition graph_ok :: "'a spt_node list \<Rightarrow> node_ref set \<Rightarrow> int \<Rightarrow> bool" where
  "graph_ok h N M \<longleftrightarrow> finite N \<and> (\<forall>u \<in> N. u < length h) \<and> 0 \<le> M \<and> M * int (card N) < 2 ^ 31
     \<and> (\<forall>u \<in> N. \<forall>(k, v, w) \<in> set (adjacencies (h ! u)). v \<in> N \<and> 0 \<le> w \<and> w \<le> M)"

lemma graph_edge:
  assumes "graph_ok h N M" "u \<in> N" "edge h u v w"
  shows "v \<in> N" "0 \<le> w" "w \<le> M"
  using assms by (auto simp: graph_ok_def edge_def)

lemma graph_adjacency:
  assumes "graph_ok h N M" "u \<in> N" "(k, v, w) \<in> set (adjacencies (h ! u))"
  shows "v \<in> N" "0 \<le> w" "w \<le> M" "v < length h"
proof -
  show v: "v \<in> N" "0 \<le> w" "w \<le> M" using assms by (auto simp: graph_ok_def)
  show "v < length h" using assms(1) v(1) by (simp add: graph_ok_def)
qed

lemma walk_in_graph:
  assumes "walk h u d v" "graph_ok h N M" "u \<in> N"
  shows "v \<in> N \<and> 0 \<le> d"
  using assms(1)
proof (induction rule: walk.induct)
  case (walk_step d v v' w)
  with graph_edge [OF assms(2), of v v' w] show ?case by simp
qed (use assms(3) in simp)

lemma walk_append:
  assumes "walk h v d' v'" "walk h u d v"
  shows "walk h u (d + d') v'"
  using assms(1)
proof (induction rule: walk.induct)
  case (walk_step e x y w)
  then have "walk h u ((d + e) + w) y" by (auto intro: walk.walk_step)
  then show ?case by (simp add: add.assoc)
qed (use assms(2) in simp)

text \<open>A walk from a node in \<open>P\<close> to a node outside leaves \<open>P\<close> by an edge.\<close>

lemma walk_leaves:
  assumes "walk h u d v" "u \<in> P" "v \<notin> P" "graph_ok h N M" "u \<in> N"
  shows "\<exists>d1 x y w. walk h u d1 x \<and> x \<in> P \<and> edge h x y w \<and> y \<notin> P \<and> d1 + w \<le> d"
  using assms(1,3)
proof (induction rule: walk.induct)
  case walk_start
  with assms(2) show ?case by simp
next
  case (walk_step d v v' w)
  show ?case
  proof (cases "v \<in> P")
    case True
    with walk_step show ?thesis by blast
  next
    case False
    then obtain d1 x y w' where "walk h u d1 x" "x \<in> P" "edge h x y w'" "y \<notin> P" "d1 + w' \<le> d"
      using walk_step.IH by blast
    moreover have "0 \<le> w"
      using walk_in_graph [OF walk_step.hyps(1) assms(4,5)] graph_edge(2) [OF assms(4) _ walk_step.hyps(2)] by simp
    ultimately show ?thesis by (intro exI [of _ d1] exI [of _ x] exI [of _ y] exI [of _ w']) simp
  qed
qed

subsection \<open>The algorithm leaves the graph alone\<close>

definition frame :: "'a spt_node \<Rightarrow> bool \<times> 'a \<times> ('a \<times> node_ref \<times> int) list \<times> spt_path" where
  "frame x = (valid x, nodename x, adjacencies x, previous x)"

definition same_graph :: "'a spt_node list \<Rightarrow> 'a spt_node list \<Rightarrow> bool" where
  "same_graph g h \<longleftrightarrow> map frame h = map frame g"

lemma same_graph_refl [simp]: "same_graph g g"
  by (simp add: same_graph_def)

lemma same_graph_upd: "(\<And>x. frame (f x) = frame x) \<Longrightarrow> same_graph g (upd r f h) = same_graph g h"
  by (simp add: same_graph_def map_upd [where g = frame])

lemma same_graph_fields:
  assumes "same_graph g h"
  shows "length h = length g" "v < length g \<Longrightarrow> valid (h ! v) = valid (g ! v)"
    and "v < length g \<Longrightarrow> nodename (h ! v) = nodename (g ! v)"
    and "v < length g \<Longrightarrow> adjacencies (h ! v) = adjacencies (g ! v)"
    and "v < length g \<Longrightarrow> previous (h ! v) = previous (g ! v)"
proof -
  show len: "length h = length g" using assms unfolding same_graph_def by (metis length_map)
  assume "v < length g"
  then have "frame (h ! v) = frame (g ! v)" using assms len unfolding same_graph_def by (metis nth_map)
  then show "valid (h ! v) = valid (g ! v)" "nodename (h ! v) = nodename (g ! v)"
    "adjacencies (h ! v) = adjacencies (g ! v)" "previous (h ! v) = previous (g ! v)"
    by (simp_all add: frame_def)
qed

lemma nth_upd: "n < length h \<Longrightarrow> upd n f h ! m = (if m = n then f (h ! n) else h ! m)"
  by (simp add: upd_def)

lemma length_upd [simp]: "length (upd n f h) = length h"
  by (simp add: upd_def)

subsection \<open>The invariant\<close>

definition dist :: "node_ref \<Rightarrow> 'a spt_node list \<Rightarrow> node_ref \<Rightarrow> int" where
  "dist org h v = (if v = org then 0 else plen h v)"

definition perm :: "'a spt_node list \<Rightarrow> node_ref set \<Rightarrow> node_ref set" where
  "perm h N = {v \<in> N. \<not> tentative (h ! v)}"

text \<open>The path to \<open>v\<close> ends with one of the edges in \<open>R\<close>, those that were looked at.\<close>

definition last_ok :: "'a spt_node list \<Rightarrow> node_ref \<Rightarrow> (node_ref \<times> node_ref \<times> int) set \<Rightarrow> 'a spt_node list \<Rightarrow> node_ref \<Rightarrow> bool" where
  "last_ok g org R h v \<longleftrightarrow> (\<exists>u w. (u, v, w) \<in> R \<and> edge g u v w \<and> last_hop (current (h ! v)) = Some u
     \<and> dist org h v = dist org h u + w)"

definition first_ok :: "'a spt_node list \<Rightarrow> node_ref \<Rightarrow> 'a spt_node list \<Rightarrow> node_ref \<Rightarrow> bool" where
  "first_ok g org h v \<longleftrightarrow> (\<exists>f w d. first_hop (current (h ! v)) = Some f \<and> edge g org f w \<and> walk g f d v
     \<and> dist org h v = w + d)"

definition perm_ok :: "'a spt_node list \<Rightarrow> node_ref \<Rightarrow> node_ref set \<Rightarrow> int \<Rightarrow> 'a spt_node list \<Rightarrow> node_ref \<Rightarrow> bool" where
  "perm_ok g org N M h v \<longleftrightarrow> shortest g org (dist org h v) v \<and> dist org h v \<le> M * (int (card (perm h N)) - 1)
     \<and> (v \<noteq> org \<longrightarrow> valid (g ! v) \<and> known h v \<and> first_ok g org h v)"

definition loop_inv :: "(node_ref \<Rightarrow> nat) \<Rightarrow> 'a spt_node list \<Rightarrow> node_ref \<Rightarrow> node_ref set \<Rightarrow> int
    \<Rightarrow> (node_ref \<times> node_ref \<times> int) set \<Rightarrow> 'a spt_node list \<Rightarrow> node_ref list \<Rightarrow> bool" where
  "loop_inv addr g org N M R h q \<longleftrightarrow> same_graph g h \<and> org \<in> perm h N
     \<and> queue_ok addr h q \<and> set q = {v \<in> N. valid (g ! v) \<and> tentative (h ! v) \<and> known h v}
     \<and> (\<forall>v \<in> perm h N. perm_ok g org N M h v)
     \<and> (\<forall>v \<in> (perm h N \<union> set q) - {org}. last_ok g org R h v)
     \<and> (\<forall>(u, v, w) \<in> R. u \<in> perm h N \<and> (edge g u v w \<and> tentative (h ! v) \<longrightarrow> known h v \<and> plen h v \<le> dist org h u + w))"

lemma loop_invI:
  assumes "same_graph g h" "org \<in> perm h N" "queue_ok addr h q"
    and "set q = {v \<in> N. valid (g ! v) \<and> tentative (h ! v) \<and> known h v}"
    and "\<And>v. v \<in> perm h N \<Longrightarrow> perm_ok g org N M h v"
    and "\<And>v. v \<in> (perm h N \<union> set q) - {org} \<Longrightarrow> last_ok g org R h v"
    and edges: "\<And>u v w. (u, v, w) \<in> R \<Longrightarrow>
      u \<in> perm h N \<and> (edge g u v w \<and> tentative (h ! v) \<longrightarrow> known h v \<and> plen h v \<le> dist org h u + w)"
  shows "loop_inv addr g org N M R h q"
proof -
  have "\<forall>(u, v, w) \<in> R. u \<in> perm h N \<and> (edge g u v w \<and> tentative (h ! v) \<longrightarrow> known h v \<and> plen h v \<le> dist org h u + w)"
    using edges by blast
  with assms(1-6) show ?thesis unfolding loop_inv_def by blast
qed

lemma loop_invD:
  assumes "loop_inv addr g org N M R h q"
  shows "same_graph g h" "org \<in> perm h N" "queue_ok addr h q"
    and "set q = {v \<in> N. valid (g ! v) \<and> tentative (h ! v) \<and> known h v}"
    and "v \<in> perm h N \<Longrightarrow> perm_ok g org N M h v"
    and "v \<in> perm h N \<union> set q \<Longrightarrow> v \<noteq> org \<Longrightarrow> last_ok g org R h v"
    and "(u, v, w) \<in> R \<Longrightarrow> u \<in> perm h N"
    and "(u, v, w) \<in> R \<Longrightarrow> edge g u v w \<Longrightarrow> tentative (h ! v) \<Longrightarrow> known h v \<and> plen h v \<le> dist org h u + w"
  using assms unfolding loop_inv_def by auto

subsection \<open>Looking at an edge\<close>

text \<open>The new weight and last hop of a node that is reached on a shorter way.\<close>

definition reach :: "node_ref \<Rightarrow> int \<Rightarrow> node_ref \<Rightarrow> 'a spt_node list \<Rightarrow> 'a spt_node list" where
  "reach n t me h = upd n (\<lambda>x. x\<lparr> current := (current x)\<lparr> last_hop := Some me \<rparr> \<rparr>) (relaxed n t h)"

lemma reach_nth:
  assumes "n < length h"
  shows "reach n t me h ! m = (if m = n then (h ! n)\<lparr> current := (current (h ! n))\<lparr> path_length := t,
    path_valid := True, last_hop := Some me \<rparr> \<rparr> else h ! m)"
  using assms by (simp add: reach_def relaxed_def nth_upd)

lemma queue_ok_cong:
  assumes "queue_ok addr h q" "length h' = length h"
    and "\<And>m. m \<in> set q \<Longrightarrow> valid (h' ! m) = valid (h ! m) \<and> tentative (h' ! m) = tentative (h ! m)
      \<and> known h' m = known h m \<and> plen h' m = plen h m"
  shows "queue_ok addr h' q"
proof -
  have "sorted_wrt (before addr h') q"
    by (rule sorted_wrt_mono_rel [of q "before addr h"]) (use assms(1,3) in \<open>simp_all add: queue_ok_def before_def\<close>)
  moreover have "list_all (queueable h') q"
    using assms by (simp add: queue_ok_def list_all_iff queueable_def)
  ultimately show ?thesis by (simp add: queue_ok_def)
qed

lemma queue_ok_reach:
  assumes "queue_ok addr (relaxed n t h) q" "n < length h"
  shows "queue_ok addr (reach n t me h) q"
  by (rule queue_ok_cong [OF assms(1)]) (use assms(2) in \<open>simp_all add: reach_def nth_upd relaxed_def\<close>)

lemma reach_inv:
  assumes inv: "loop_inv addr g org N M R h q" and n: "n \<in> N" "n < length h" "tentative (h ! n)" "valid (g ! n)"
    and cur: "cur \<in> perm h N" "edge g cur n w"
    and t: "t = dist org h cur + w" and better: "known h n \<longrightarrow> t < plen h n"
    and q': "queue_ok addr (relaxed n t h) q'" "set q' = insert n (set q)"
  shows "loop_inv addr g org N M (insert (cur, n, w) R) (reach n t cur h) q'"
    and "perm (reach n t cur h) N = perm h N"
    and "dist org (reach n t cur h) cur = dist org h cur"
proof -
  let ?h = "reach n t cur h"
  note nth = reach_nth [OF n(2), of t cur]
  have org: "org \<in> perm h N" and set_q: "set q = {v \<in> N. valid (g ! v) \<and> tentative (h ! v) \<and> known h v}"
    and perms: "\<forall>v \<in> perm h N. perm_ok g org N M h v"
    and lasts: "\<forall>v \<in> (perm h N \<union> set q) - {org}. last_ok g org R h v"
    and edges: "\<forall>(u, v, w) \<in> R. u \<in> perm h N \<and> (edge g u v w \<and> tentative (h ! v) \<longrightarrow> known h v \<and> plen h v \<le> dist org h u + w)"
    and same: "same_graph g h"
    using inv by (simp_all add: loop_inv_def)
  have notn: "v \<noteq> n" if "v \<in> perm h N" for v using that n(3) by (auto simp: perm_def)
  have dist_perm: "dist org ?h v = dist org h v" if "v \<noteq> n" for v using that by (simp add: dist_def nth)
  have tent: "tentative (?h ! v) = tentative (h ! v)" for v by (simp add: nth)
  show perm: "perm ?h N = perm h N" by (simp add: perm_def tent)
  show "dist org ?h cur = dist org h cur" using dist_perm [OF notn [OF cur(1)]] .
  have at_n: "known ?h n" "plen ?h n = t" by (simp_all add: nth)
  have dist_n: "dist org ?h n = t" using notn [OF org] by (auto simp: dist_def nth)
  have "same_graph g ?h" using same by (simp add: reach_def relaxed_def same_graph_upd frame_def)
  moreover have "queue_ok addr ?h q'" by (rule queue_ok_reach [OF q'(1) n(2)])
  moreover have "set q' = {v \<in> N. valid (g ! v) \<and> tentative (?h ! v) \<and> known ?h v}"
    unfolding q'(2) set_q using n by (auto simp: nth)
  moreover have "perm_ok g org N M ?h v" if "v \<in> perm ?h N" for v
    using perms that notn [of v] unfolding perm by (simp add: perm_ok_def first_ok_def dist_perm nth perm)
  moreover have "last_ok g org (insert (cur, n, w) R) ?h v" if v: "v \<in> (perm ?h N \<union> set q') - {org}" for v
  proof (cases "v = n")
    case True
    have "last_hop (current (?h ! n)) = Some cur" by (simp add: nth)
    with True show ?thesis
      using cur(2) dist_n dist_perm [OF notn [OF cur(1)]] unfolding last_ok_def by (auto simp: t)
  next
    case False
    with v have "last_ok g org R h v" using lasts unfolding perm q'(2) by auto
    then obtain u w' where u: "(u, v, w') \<in> R" "edge g u v w'" "last_hop (current (h ! v)) = Some u"
        "dist org h v = dist org h u + w'"
      by (auto simp: last_ok_def)
    then have "u \<noteq> n" using edges notn by auto
    with u False show ?thesis unfolding last_ok_def by (auto simp: dist_perm nth)
  qed
  moreover have "u \<in> perm ?h N \<and> (edge g u v w' \<and> tentative (?h ! v) \<longrightarrow> known ?h v \<and> plen ?h v \<le> dist org ?h u + w')"
    if e: "(u, v, w') \<in> insert (cur, n, w) R" for u v w'
  proof (cases "(u, v, w') \<in> R")
    case True
    then have u: "u \<in> perm h N" "edge g u v w' \<and> tentative (h ! v) \<longrightarrow> known h v \<and> plen h v \<le> dist org h u + w'"
      using edges by auto
    with better show ?thesis unfolding perm tent using dist_perm [OF notn [OF u(1)]] by (auto simp: nth)
  next
    case False
    with e cur(1) show ?thesis unfolding perm tent using dist_perm [OF notn [OF cur(1)]] at_n t by auto
  qed
  moreover have "org \<in> perm ?h N" using org perm by simp
  ultimately show "loop_inv addr g org N M (insert (cur, n, w) R) ?h q'"
    by (intro loop_invI)
qed

lemma relax_edge:
  assumes inv: "loop_inv addr g org N M R h q" and cur: "cur \<in> perm h N" and e: "(k, n, w) \<in> set (adjacencies (g ! cur))"
    and graph: "graph_ok g N M" and addr: "inj addr"
  shows "\<exists>h' q'. adjacent_loop addr cur (dist org h cur) ((k, n, w) # es) h q = adjacent_loop addr cur (dist org h cur) es h' q'
    \<and> loop_inv addr g org N M (insert (cur, n, w) R) h' q' \<and> perm h' N = perm h N \<and> dist org h' cur = dist org h cur"
proof -
  have same: "same_graph g h" by (rule loop_invD(1) [OF inv])
  have cur_N: "cur \<in> N" using cur by (simp add: perm_def)
  have n: "n \<in> N" "0 \<le> w" "w \<le> M" "n < length h"
    using graph_adjacency [OF graph cur_N e] same_graph_fields(1) [OF same] by simp_all
  have frame: "valid (h ! n) = valid (g ! n)" using same_graph_fields(1,2) [OF same] n(4) by simp
  show ?thesis
  proof (cases "valid (h ! n) \<and> tentative (h ! n)")
    case False
    have "adjacent_loop addr cur (dist org h cur) ((k, n, w) # es) h q = adjacent_loop addr cur (dist org h cur) es h q"
      using False n(4) by (auto simp: deref_def)
    moreover have no_edge: "\<not> (edge g cur n w \<and> tentative (h ! n))" using False frame by (auto simp: edge_def)
    have "loop_inv addr g org N M (insert (cur, n, w) R) h q"
    proof (rule loop_invI [OF loop_invD(1-5) [OF inv]])
      fix v assume "v \<in> (perm h N \<union> set q) - {org}"
      then have "last_ok g org R h v" using loop_invD(6) [OF inv] by blast
      then show "last_ok g org (insert (cur, n, w) R) h v" unfolding last_ok_def by blast
    next
      fix u v w' assume "(u, v, w') \<in> insert (cur, n, w) R"
      then show "u \<in> perm h N \<and> (edge g u v w' \<and> tentative (h ! v) \<longrightarrow> known h v \<and> plen h v \<le> dist org h u + w')"
        using no_edge cur loop_invD(7,8) [OF inv] by auto
    qed
    ultimately show ?thesis by blast
  next
    case True
    define t where "t = dist org h cur + w"
    have "shortest g org (dist org h cur) cur" "dist org h cur \<le> M * (int (card (perm h N)) - 1)"
      using loop_invD(5) [OF inv cur] by (simp_all add: perm_ok_def)
    moreover have "org \<in> N" using loop_invD(2) [OF inv] by (simp add: perm_def)
    ultimately have "0 \<le> dist org h cur" "t \<le> M * int (card (perm h N))"
      using walk_in_graph [OF _ graph] n(3) by (auto simp: shortest_def t_def algebra_simps)
    moreover have "M * int (card (perm h N)) \<le> M * int (card N)"
      using graph by (intro mult_left_mono) (auto simp: graph_ok_def perm_def intro: card_mono)
    ultimately have sum: "add_int (dist org h cur) w = Inr t"
      using graph n(2) by (simp add: add_int_def graph_ok_def t_def)
    have "known h n \<longleftrightarrow> n \<in> set q"
      using loop_invD(4) [OF inv] n(1) True frame by auto
    then obtain q' where q': "pq_add addr n t h q = Inr (if known h n \<and> plen h n \<le> t then (h, q', False) else (relaxed n t h, q', True))"
        "queue_ok addr (if known h n \<and> plen h n \<le> t then h else relaxed n t h) q'" "set q' = insert n (set q)"
      using pq_add_spec [OF loop_invD(3) [OF inv] addr n(4)] True by blast
    have edge: "edge g cur n w"
      using e True frame n(4) same_graph_fields(1) [OF same] cur_N graph by (auto simp: edge_def graph_ok_def)
    show ?thesis
    proof (cases "known h n \<and> plen h n \<le> t")
      case better: True
      then have q: "set q' = set q" using q'(3) loop_invD(4) [OF inv] n(1) True frame by auto
      have "adjacent_loop addr cur (dist org h cur) ((k, n, w) # es) h q = adjacent_loop addr cur (dist org h cur) es h q'"
        using True better n(4) sum q'(1) by (simp add: deref_def)
      moreover have "loop_inv addr g org N M (insert (cur, n, w) R) h q'"
      proof (rule loop_invI [OF loop_invD(1,2) [OF inv]])
        show "queue_ok addr h q'" using q'(2) better by simp
        show "set q' = {v \<in> N. valid (g ! v) \<and> tentative (h ! v) \<and> known h v}" using q loop_invD(4) [OF inv] by simp
        fix v assume "v \<in> (perm h N \<union> set q') - {org}"
        then have "last_ok g org R h v" using loop_invD(6) [OF inv] unfolding q by blast
        then show "last_ok g org (insert (cur, n, w) R) h v" unfolding last_ok_def by blast
      next
        fix u v w' assume "(u, v, w') \<in> insert (cur, n, w) R"
        then show "u \<in> perm h N \<and> (edge g u v w' \<and> tentative (h ! v) \<longrightarrow> known h v \<and> plen h v \<le> dist org h u + w')"
          using better cur loop_invD(7,8) [OF inv] by (auto simp: t_def)
      qed (rule loop_invD(5) [OF inv])
      ultimately show ?thesis by blast
    next
      case False
      then have "adjacent_loop addr cur (dist org h cur) ((k, n, w) # es) h q
          = adjacent_loop addr cur (dist org h cur) es (reach n t cur h) q'"
        using True n(4) sum q'(1) by (auto simp: deref_def reach_def)
      moreover have qq: "queue_ok addr (relaxed n t h) q'" using q'(2) False by auto
      have pre: "tentative (h ! n)" "valid (g ! n)" "known h n \<longrightarrow> t < plen h n" using True False frame by auto
      note reach_inv [OF inv n(1,4) pre(1,2) cur edge t_def pre(3) qq q'(3)]
      ultimately show ?thesis by blast
    qed
  qed
qed

lemma relax_all:
  assumes graph: "graph_ok g N M" and addr: "inj addr"
  shows "loop_inv addr g org N M R h q \<Longrightarrow> cur \<in> perm h N \<Longrightarrow> set es \<subseteq> set (adjacencies (g ! cur)) \<Longrightarrow>
    \<exists>h' q'. adjacent_loop addr cur (dist org h cur) es h q = Inr (h', q')
      \<and> loop_inv addr g org N M (R \<union> {(cur, n, w) | k n w. (k, n, w) \<in> set es}) h' q'
      \<and> perm h' N = perm h N \<and> dist org h' cur = dist org h cur"
proof (induction es arbitrary: R h q)
  case (Cons e es)
  obtain k n w where e: "e = (k, n, w)" by (cases e)
  obtain h1 q1 where 1: "adjacent_loop addr cur (dist org h cur) (e # es) h q = adjacent_loop addr cur (dist org h cur) es h1 q1"
      "loop_inv addr g org N M (insert (cur, n, w) R) h1 q1" "perm h1 N = perm h N" "dist org h1 cur = dist org h cur"
    using relax_edge [OF Cons.prems(1,2) _ graph addr, of k n w es] Cons.prems(3) unfolding e by auto
  have "insert (cur, n, w) R \<union> {(cur, n, w) | k n w. (k, n, w) \<in> set es} = R \<union> {(cur, n, w) | k n w. (k, n, w) \<in> set (e # es)}"
    unfolding e by auto
  with Cons.IH [OF 1(2)] 1 Cons.prems show ?case by auto
qed auto

subsection \<open>Making a node permanent\<close>

lemma nearest_is_shortest:
  assumes inv: "loop_inv addr g org N M R h (c # q)" and graph: "graph_ok g N M"
    and all: "\<And>u v w. u \<in> perm h N \<Longrightarrow> edge g u v w \<Longrightarrow> (u, v, w) \<in> R"
  shows "shortest g org (plen h c) c"
proof -
  have org: "org \<in> perm h N" "org \<in> N" using loop_invD(2) [OF inv] by (auto simp: perm_def)
  have c: "c \<in> N" "tentative (h ! c)" "c \<noteq> org" using loop_invD(4) [OF inv] org by (auto simp: perm_def)
  obtain u w where u: "(u, c, w) \<in> R" "edge g u c w" "dist org h c = dist org h u + w"
    using loop_invD(6) [OF inv, of c] c(3) by (auto simp: last_ok_def)
  have "shortest g org (dist org h u) u"
    using loop_invD(5) [OF inv loop_invD(7) [OF inv u(1)]] by (simp add: perm_ok_def)
  then have "walk g org (dist org h u + w) c" using u(2) by (auto simp: shortest_def intro: walk_step)
  moreover have "plen h c = dist org h u + w" using u(3) c(3) by (simp add: dist_def)
  ultimately have "walk g org (plen h c) c" by simp
  moreover have "plen h c \<le> d" if walk: "walk g org d c" for d
  proof -
    have "c \<notin> perm h N" using c(2) by (simp add: perm_def)
    then obtain d1 x y w' where x: "walk g org d1 x" "x \<in> perm h N" "edge g x y w'" "y \<notin> perm h N" "d1 + w' \<le> d"
      using walk_leaves [OF walk org(1) _ graph org(2)] by blast
    have "x \<in> N" using x(2) by (simp add: perm_def)
    then have y: "y \<in> N" "tentative (h ! y)" using graph_edge(1) [OF graph _ x(3)] x(4) by (auto simp: perm_def)
    then have "known h y" "plen h y \<le> dist org h x + w'" using loop_invD(8) [OF inv all [OF x(2,3)] x(3)] by simp_all
    moreover have "dist org h x \<le> d1" using loop_invD(5) [OF inv x(2)] x(1) by (simp add: perm_ok_def shortest_def)
    moreover have "y \<in> set (c # q)" using loop_invD(4) [OF inv] y x(3) calculation(1) by (simp add: edge_def)
    then have "plen h c \<le> plen h y" using loop_invD(3) [OF inv] by (auto simp: queue_ok_def before_def)
    ultimately show ?thesis using x(5) by simp
  qed
  ultimately show ?thesis by (simp add: shortest_def)
qed

definition settled :: "node_ref \<Rightarrow> node_ref option \<Rightarrow> 'a spt_node list \<Rightarrow> 'a spt_node list" where
  "settled c f h = set_first_hop c f (set_tentative False c h)"

lemma settled_nth:
  assumes "c < length h"
  shows "settled c f h ! m = (if m = c then (h ! c)\<lparr> tentative := False, current := (current (h ! c))\<lparr> first_hop := f \<rparr> \<rparr> else h ! m)"
  using assms by (simp add: settled_def set_first_hop_def set_tentative_def nth_upd)

lemma make_permanent_first:
  assumes inv: "loop_inv addr g org N M R h (c # q)"
  shows "\<exists>f w d. make_permanent org c h = Inr (settled c (Some f) h, plen h c)
    \<and> edge g org f w \<and> walk g f d c \<and> plen h c = w + d"
proof -
  have org: "org \<in> perm h N" by (rule loop_invD(2) [OF inv])
  have c: "queueable h c" "c \<noteq> org" using loop_invD(3,4) [OF inv] org by (auto simp: queue_ok_def perm_def)
  obtain u w where u: "(u, c, w) \<in> R" "edge g u c w" "last_hop (current (h ! c)) = Some u" "plen h c = dist org h u + w"
    using loop_invD(6) [OF inv, of c] c(2) by (auto simp: last_ok_def dist_def)
  have u_perm: "u \<in> perm h N" by (rule loop_invD(7) [OF inv u(1)])
  let ?h = "set_tentative False c h"
  have len: "c < length h" and known: "known h c" using c(1) by (simp_all add: queueable_def)
  have last: "get_last_hop ?h c = Inr (Some u)"
    using len known u(3) by (simp add: get_last_hop_def deref_def set_tentative_def nth_upd)
  show ?thesis
  proof (cases "u = org")
    case True
    then have "make_permanent org c h = Inr (settled c (Some c) h, plen h c)"
      using last by (simp add: make_permanent_def get_local_weight_queueable [OF c(1)] Let_def settled_def)
    moreover have "walk g c 0 c" by (rule walk_start)
    moreover have "edge g org c w" "plen h c = w + 0" using u(2,4) True by (simp_all add: dist_def)
    ultimately show ?thesis by blast
  next
    case False
    then obtain f w0 d where f: "first_hop (current (h ! u)) = Some f" "edge g org f w0" "walk g f d u"
        "dist org h u = w0 + d" "known h u"
      using loop_invD(5) [OF inv u_perm] by (auto simp: perm_ok_def first_ok_def)
    have "u \<noteq> c" using u_perm c(1) by (auto simp: perm_def queueable_def)
    moreover have "u < length h" using u(2) same_graph_fields(1) [OF loop_invD(1) [OF inv]] by (simp add: edge_def)
    ultimately have "get_first_hop ?h u = Inr (Some f)"
      using f(1,5) len by (simp add: get_first_hop_def deref_def set_tentative_def nth_upd)
    then have "make_permanent org c h = Inr (settled c (Some f) h, plen h c)"
      using last False by (simp add: make_permanent_def get_local_weight_queueable [OF c(1)] Let_def settled_def)
    moreover have "walk g f (d + w) c" using f(3) u(2) by (rule walk_step)
    moreover have "plen h c = w0 + (d + w)" using f(4) u(4) by simp
    ultimately show ?thesis using f(2) by blast
  qed
qed

lemma settle_inv:
  assumes inv: "loop_inv addr g org N M R h (c # q)" and graph: "graph_ok g N M"
    and all: "\<And>u v w. u \<in> perm h N \<Longrightarrow> edge g u v w \<Longrightarrow> (u, v, w) \<in> R"
  shows "\<exists>h'. make_permanent org c h = Inr (h', dist org h' c) \<and> loop_inv addr g org N M R h' q
    \<and> perm h' N = insert c (perm h N) \<and> c \<in> N - perm h N"
proof -
  obtain f w0 d0 where f: "make_permanent org c h = Inr (settled c (Some f) h, plen h c)" "edge g org f w0"
      "walk g f d0 c" "plen h c = w0 + d0"
    using make_permanent_first [OF inv] by blast
  let ?h = "settled c (Some f) h"
  have c: "c \<in> N" "c < length h" "tentative (h ! c)" "valid (g ! c)" "known h c" "c \<noteq> org" "c \<notin> perm h N"
    using loop_invD(2,3,4) [OF inv] by (auto simp: queue_ok_def queueable_def perm_def)
  note nth = settled_nth [OF c(2), of "Some f"]
  have dist: "dist org ?h v = dist org h v" for v by (simp add: dist_def nth)
  have perm: "perm ?h N = insert c (perm h N)" using c(1) by (auto simp: perm_def nth)
  have finite: "finite (perm h N)" using graph by (auto simp: graph_ok_def perm_def)
  have card: "int (card (perm ?h N)) - 1 = int (card (perm h N))" unfolding perm using finite c(7) by simp
  have "queue_ok addr ?h q"
  proof (rule queue_ok_cong [of addr h])
    show "queue_ok addr h q" using loop_invD(3) [OF inv] by (simp add: queue_ok_def)
    show "length ?h = length h" by (simp add: settled_def set_first_hop_def set_tentative_def)
    have "c \<notin> set q" using queue_ok_distinct [OF loop_invD(3) [OF inv]] by simp
    then show "valid (?h ! m) = valid (h ! m) \<and> tentative (?h ! m) = tentative (h ! m) \<and> known ?h m = known h m
        \<and> plen ?h m = plen h m" if "m \<in> set q" for m using that by (auto simp: nth)
  qed
  moreover have "set q = {v \<in> N. valid (g ! v) \<and> tentative (?h ! v) \<and> known ?h v}"
    using loop_invD(4) [OF inv] queue_ok_distinct [OF loop_invD(3) [OF inv]] by (auto simp: nth split: if_splits)
  moreover have "same_graph g ?h"
    using loop_invD(1) [OF inv] by (simp add: settled_def set_first_hop_def set_tentative_def same_graph_upd frame_def)
  moreover have "perm_ok g org N M ?h v" if v: "v \<in> perm ?h N" for v
  proof (cases "v = c")
    case True
    obtain u w where u: "(u, c, w) \<in> R" "edge g u c w" "dist org h c = dist org h u + w"
      using loop_invD(6) [OF inv, of c] c(6) by (auto simp: last_ok_def)
    have u_perm: "u \<in> perm h N" by (rule loop_invD(7) [OF inv u(1)])
    then have "w \<le> M" using graph_edge(3) [OF graph _ u(2)] by (simp add: perm_def)
    then have "dist org h c \<le> M * int (card (perm h N))"
      using u(3) loop_invD(5) [OF inv u_perm] by (simp add: perm_ok_def algebra_simps)
    moreover have "dist org h c = plen h c" using c(6) by (simp add: dist_def)
    moreover have "first_ok g org ?h c"
      using f(2-4) calculation(2) unfolding first_ok_def dist by (auto simp: nth)
    ultimately show ?thesis
      using True c nearest_is_shortest [OF inv graph all] by (simp add: perm_ok_def dist card nth)
  next
    case False
    then have v: "v \<in> perm h N" using v perm by simp
    have "M * (int (card (perm h N)) - 1) \<le> M * int (card (perm h N))"
      using graph by (intro mult_left_mono) (auto simp: graph_ok_def)
    with loop_invD(5) [OF inv v] False show ?thesis
      by (auto simp: perm_ok_def first_ok_def dist card nth)
  qed
  moreover have "last_ok g org R ?h v" if "v \<in> (perm ?h N \<union> set q) - {org}" for v
  proof -
    have "last_ok g org R h v" using that loop_invD(6) [OF inv, of v] unfolding perm by auto
    then show ?thesis by (auto simp: last_ok_def dist nth)
  qed
  moreover have "u \<in> perm ?h N \<and> (edge g u v w \<and> tentative (?h ! v) \<longrightarrow> known ?h v \<and> plen ?h v \<le> dist org ?h u + w)"
    if "(u, v, w) \<in> R" for u v w
    using loop_invD(7,8) [OF inv that] unfolding perm dist by (auto simp: nth)
  moreover have "org \<in> perm ?h N" using loop_invD(2) [OF inv] perm by simp
  ultimately have "loop_inv addr g org N M R ?h q" by (intro loop_invI)
  moreover have "dist org ?h c = plen h c" using c(6) unfolding dist by (simp add: dist_def)
  ultimately show ?thesis using f(1) perm c(1,7) by auto
qed

subsection \<open>The whole run\<close>

lemma dijkstra_loop_inv:
  assumes graph: "graph_ok g N M" and addr: "inj addr"
  shows "loop_inv addr g org N M R h q \<Longrightarrow> cur \<in> perm h N \<Longrightarrow>
    (\<And>u v w. u \<in> perm h N - {cur} \<Longrightarrow> edge g u v w \<Longrightarrow> (u, v, w) \<in> R) \<Longrightarrow>
    \<exists>h' R'. dijkstra_loop addr org cur (dist org h cur) h q = Inr h' \<and> loop_inv addr g org N M R' h' []
      \<and> (\<forall>u \<in> perm h' N. \<forall>v w. edge g u v w \<longrightarrow> (u, v, w) \<in> R')"
proof (induction "card (N - perm h N)" arbitrary: R h q cur rule: less_induct)
  case less
  note inv = less.prems(1)
  have cur: "cur < length h" "adjacencies (h ! cur) = adjacencies (g ! cur)"
    using less.prems(2) graph same_graph_fields(1,4) [OF loop_invD(1) [OF inv]] by (simp_all add: perm_def graph_ok_def)
  let ?R = "R \<union> {(cur, n, w) | k n w. (k, n, w) \<in> set (adjacencies (g ! cur))}"
  obtain h1 q1 where 1: "adjacent_loop addr cur (dist org h cur) (adjacencies (g ! cur)) h q = Inr (h1, q1)"
      "loop_inv addr g org N M ?R h1 q1" "perm h1 N = perm h N"
    using relax_all [OF graph addr inv less.prems(2) order.refl] by blast
  have set: "set_adjacent_weights addr cur (dist org h cur) h q = Inr (h1, q1)"
    using cur 1(1) by (simp add: set_adjacent_weights_def deref_def)
  have all: "(u, v, w) \<in> ?R" if "u \<in> perm h1 N" "edge g u v w" for u v w
    using that less.prems(3) [of u v w] 1(3) by (cases "u = cur") (auto simp: edge_def)
  show ?case
  proof (cases q1)
    case Nil
    have "dijkstra_loop addr org cur (dist org h cur) h q = Inr h1"
      by (subst dijkstra_loop.simps) (simp add: set Nil)
    with 1(2) all Nil show ?thesis by blast
  next
    case (Cons c q2)
    obtain h2 where 2: "make_permanent org c h1 = Inr (h2, dist org h2 c)" "loop_inv addr g org N M ?R h2 q2"
        "perm h2 N = insert c (perm h1 N)" "c \<in> N - perm h1 N"
      using settle_inv [OF 1(2) [unfolded Cons] graph all] by blast
    have step: "dijkstra_loop addr org cur (dist org h cur) h q = dijkstra_loop addr org c (dist org h2 c) h2 q2"
      by (subst dijkstra_loop.simps) (simp add: set Cons 2(1))
    have "N - perm h2 N \<subset> N - perm h N" using 2(3,4) 1(3) by auto
    then have "card (N - perm h2 N) < card (N - perm h N)"
      using graph by (intro psubset_card_mono) (auto simp: graph_ok_def)
    moreover have "(u, v, w) \<in> ?R" if "u \<in> perm h2 N - {c}" "edge g u v w" for u v w
      using that all 2(3) by blast
    ultimately show ?thesis unfolding step using less.hyps [OF _ 2(2)] 2(3) by blast
  qed
qed

text \<open>What the algorithm leaves in the node \<open>v\<close>.\<close>

definition path_ok :: "'a spt_node list \<Rightarrow> node_ref \<Rightarrow> 'a spt_node list \<Rightarrow> node_ref \<Rightarrow> bool" where
  "path_ok g org h v \<longleftrightarrow> (known h v \<longleftrightarrow> (\<exists>d. walk g org d v))
     \<and> (known h v \<longrightarrow> shortest g org (plen h v) v
       \<and> (\<exists>u w d. last_hop (current (h ! v)) = Some u \<and> edge g u v w \<and> shortest g org d u \<and> plen h v = d + w)
       \<and> (\<exists>f w d. first_hop (current (h ! v)) = Some f \<and> edge g org f w \<and> walk g f d v \<and> plen h v = w + d))"

lemma final_path_ok:
  assumes graph: "graph_ok g N M" and inv: "loop_inv addr g org N M R h []"
    and all: "\<forall>u \<in> perm h N. \<forall>v w. edge g u v w \<longrightarrow> (u, v, w) \<in> R"
    and v: "v \<in> N" "v \<noteq> org" "valid (g ! v)"
  shows "path_ok g org h v"
proof (cases "v \<in> perm h N")
  case True
  have "perm_ok g org N M h v" by (rule loop_invD(5) [OF inv True])
  then have v1: "shortest g org (plen h v) v" "known h v" "first_ok g org h v"
    using v(2) by (simp_all add: perm_ok_def dist_def)
  obtain u w where u: "(u, v, w) \<in> R" "edge g u v w" "last_hop (current (h ! v)) = Some u" "plen h v = dist org h u + w"
    using loop_invD(6) [OF inv, of v] True v(2) by (auto simp: last_ok_def dist_def)
  have "shortest g org (dist org h u) u"
    using loop_invD(5) [OF inv loop_invD(7) [OF inv u(1)]] by (simp add: perm_ok_def)
  with u have "\<exists>u w d. last_hop (current (h ! v)) = Some u \<and> edge g u v w \<and> shortest g org d u \<and> plen h v = d + w" by blast
  moreover have "dist org h v = plen h v" using v(2) by (simp add: dist_def)
  then have "\<exists>f w d. first_hop (current (h ! v)) = Some f \<and> edge g org f w \<and> walk g f d v \<and> plen h v = w + d"
    using v1(3) by (auto simp: first_ok_def)
  moreover have "\<exists>d. walk g org d v" using v1(1) by (auto simp: shortest_def)
  ultimately show ?thesis using v1(1,2) unfolding path_ok_def by simp
next
  case False
  have org: "org \<in> perm h N" "org \<in> N" using loop_invD(2) [OF inv] by (auto simp: perm_def)
  have "\<not> known h v" using False v(1,3) loop_invD(4) [OF inv] by (auto simp: perm_def)
  moreover have "\<not> walk g org d v" for d
  proof
    assume "walk g org d v"
    then obtain d1 x y w where x: "x \<in> perm h N" "edge g x y w" "y \<notin> perm h N"
      using walk_leaves [OF _ org(1) False graph org(2)] by blast
    have "x \<in> N" using x(1) by (simp add: perm_def)
    then have y: "y \<in> N" "tentative (h ! y)" using graph_edge(1) [OF graph _ x(2)] x(3) by (auto simp: perm_def)
    have "(x, y, w) \<in> R" using all x(1,2) by blast
    then have "known h y" using loop_invD(8) [OF inv _ x(2) y(2)] by simp
    moreover have "valid (g ! y)" using x(2) by (simp add: edge_def)
    ultimately show False using y loop_invD(4) [OF inv] by auto
  qed
  ultimately show ?thesis by (simp add: path_ok_def)
qed

subsection \<open>The graph of an \<open>Spt\<close>\<close>

definition graph_nodes :: "'a spt \<Rightarrow> node_ref set" where
  "graph_nodes s = snd ` set (nodes s)"

text \<open>
  The map from names to nodes is in order and agrees with the names in the nodes; the edges of a
  node of the graph lead to nodes of the graph, under their names.
\<close>

definition spt_ok :: "'a :: linorder spt \<Rightarrow> bool" where
  "spt_ok s \<longleftrightarrow> om_ok (nodes s)
     \<and> (\<forall>(k, r) \<in> set (nodes s). r < length (heap s) \<and> nodename (heap s ! r) = k \<and> om_ok (adjacencies (heap s ! r)))
     \<and> (\<forall>r \<in> graph_nodes s. \<forall>(k, n, w) \<in> set (adjacencies (heap s ! r)). (k, n) \<in> set (nodes s))"

definition metrics_ok :: "'a spt \<Rightarrow> int \<Rightarrow> bool" where
  "metrics_ok s M \<longleftrightarrow> 0 \<le> M \<and> M * int (length (nodes s)) < 2 ^ 31
     \<and> (\<forall>r \<in> graph_nodes s. \<forall>(k, n, w) \<in> set (adjacencies (heap s ! r)). 0 \<le> w \<and> w \<le> M)"

lemma graph_ok_spt:
  assumes "spt_ok s" "metrics_ok s M"
  shows "graph_ok (heap s) (graph_nodes s) M"
proof -
  have M: "0 \<le> M" "M * int (length (nodes s)) < 2 ^ 31" using assms(2) by (simp_all add: metrics_ok_def)
  have "card (graph_nodes s) \<le> length (nodes s)"
    unfolding graph_nodes_def by (metis card_image_le card_length finite_set le_trans)
  then have "M * int (card (graph_nodes s)) \<le> M * int (length (nodes s))"
    using M(1) by (intro mult_left_mono) simp_all
  with M have "M * int (card (graph_nodes s)) < 2 ^ 31" by simp
  moreover have "v \<in> graph_nodes s \<and> 0 \<le> w \<and> w \<le> M" if "u \<in> graph_nodes s" "(k, v, w) \<in> set (adjacencies (heap s ! u))" for u k v w
  proof -
    have "(k, v) \<in> set (nodes s)" using assms(1) that by (auto simp: spt_ok_def)
    then have "v \<in> graph_nodes s" unfolding graph_nodes_def by force
    with assms(2) that show ?thesis by (auto simp: metrics_ok_def)
  qed
  moreover have "\<forall>u \<in> graph_nodes s. u < length (heap s)" using assms(1) by (auto simp: spt_ok_def graph_nodes_def)
  moreover have "finite (graph_nodes s)" by (simp add: graph_nodes_def)
  ultimately show ?thesis using M(1) unfolding graph_ok_def by blast
qed

lemma init_fold_nth:
  assumes "\<forall>(k, r) \<in> set ns. r < length h" "v < length h"
  shows "length (fold (\<lambda>(k, r). init_dijkstra r) ns h) = length h \<and> fold (\<lambda>(k, r). init_dijkstra r) ns h ! v
    = (if v \<in> snd ` set ns then (h ! v)\<lparr> tentative := True, current := (current (h ! v))\<lparr> path_valid := False \<rparr> \<rparr> else h ! v)"
  using assms
proof (induction ns arbitrary: h)
  case (Cons x ns)
  obtain k r where x: "x = (k, r)" by (cases x)
  have r: "r < length h" and "\<forall>(k, r') \<in> set ns. r' < length (init_dijkstra r h)"
    using Cons.prems(1) by (auto simp: x init_dijkstra_def)
  then show ?case
    using Cons.IH [of "init_dijkstra r h"] Cons.prems(2) by (auto simp: x init_dijkstra_def nth_upd)
qed simp

lemma same_graph_init_dijkstra: "same_graph g (init_dijkstra r h) = same_graph g h"
  unfolding init_dijkstra_def by (rule same_graph_upd) (simp add: frame_def)

lemma same_graph_set_tentative: "same_graph g (set_tentative b r h) = same_graph g h"
  unfolding set_tentative_def by (rule same_graph_upd) (simp add: frame_def)

lemma same_graph_init: "same_graph g (fold (\<lambda>(k, r). init_dijkstra r) ns h) = same_graph g h"
  by (induction ns arbitrary: h) (simp_all add: case_prod_beta same_graph_init_dijkstra)

lemma initial_inv:
  assumes "spt_ok s" "metrics_ok s M" "org \<in> graph_nodes s"
  shows "loop_inv addr (heap s) org (graph_nodes s) M {} (set_tentative False org (fold (\<lambda>(k, r). init_dijkstra r) (nodes s) (heap s))) []
    \<and> perm (set_tentative False org (fold (\<lambda>(k, r). init_dijkstra r) (nodes s) (heap s))) (graph_nodes s) = {org}"
proof -
  let ?N = "graph_nodes s"
  define h1 where "h1 = fold (\<lambda>(k, r). init_dijkstra r) (nodes s) (heap s)"
  let ?h = "set_tentative False org h1"
  note graph = graph_ok_spt [OF assms(1,2)]
  have len: "\<forall>(k, r) \<in> set (nodes s). r < length (heap s)" using assms(1) by (auto simp: spt_ok_def)
  have "org < length (heap s)" using graph assms(3) by (auto simp: graph_ok_def)
  then have org: "org < length h1" using init_fold_nth [OF len] unfolding h1_def by simp
  have h1: "tentative (h1 ! v)" "\<not> known h1 v" if "v \<in> ?N" for v
    using that init_fold_nth [OF len, of v] graph unfolding h1_def by (auto simp: graph_ok_def graph_nodes_def)
  have at: "tentative (?h ! v) = (v \<noteq> org)" "\<not> known ?h v" if "v \<in> ?N" for v
    using h1 [OF that] org by (auto simp: set_tentative_def nth_upd)
  then have perm: "perm ?h ?N = {org}" using assms(3) by (auto simp: perm_def)
  have "shortest (heap s) org 0 org"
    using walk_in_graph [OF _ graph assms(3)] by (auto simp: shortest_def intro: walk_start)
  then have "perm_ok (heap s) org ?N M ?h org" by (simp add: perm_ok_def dist_def perm)
  moreover have "same_graph (heap s) ?h"
    by (simp add: same_graph_set_tentative same_graph_init h1_def)
  ultimately have "loop_inv addr (heap s) org ?N M {} ?h []"
    using perm at by (intro loop_invI) (auto simp: queue_ok_def)
  with perm show ?thesis by (simp add: h1_def)
qed

lemma dijkstra_result:
  assumes "spt_ok s" "metrics_ok s M" "inj addr" "spt_origin s = Some org" "org \<in> graph_nodes s"
  shows "\<exists>h. dijkstra addr s = Inr (s\<lparr> heap := h \<rparr>, True) \<and> same_graph (heap s) h
    \<and> (\<forall>v \<in> graph_nodes s. v \<noteq> org \<and> valid (heap s ! v) \<longrightarrow> path_ok (heap s) org h v)"
proof -
  note graph = graph_ok_spt [OF assms(1,2)]
  define h0 where "h0 = set_tentative False org (fold (\<lambda>(k, r). init_dijkstra r) (nodes s) (heap s))"
  have inv: "loop_inv addr (heap s) org (graph_nodes s) M {} h0 []" and perm: "perm h0 (graph_nodes s) = {org}"
    using initial_inv [OF assms(1,2,5)] unfolding h0_def by blast+
  obtain h R where h: "dijkstra_loop addr org org (dist org h0 org) h0 [] = Inr h"
      "loop_inv addr (heap s) org (graph_nodes s) M R h []"
      "\<forall>u \<in> perm h (graph_nodes s). \<forall>v w. edge (heap s) u v w \<longrightarrow> (u, v, w) \<in> R"
    using dijkstra_loop_inv [OF graph assms(3) inv, of org] perm by auto
  have "dijkstra addr s = Inr (s\<lparr> heap := h \<rparr>, True)"
    using assms(4) h(1) by (simp add: dijkstra_def h0_def dist_def)
  then show ?thesis using loop_invD(1) [OF h(2)] final_path_ok [OF graph h(2,3)] by blast
qed

end
