(* ===== verification/Spt_Routes.thy ===== *)
theory Spt_Routes
  imports Spt_Paths
begin

text \<open>
  The \<open>Spt\<close> as its client sees it: the operations that change the graph keep it well formed, and
  the route commands of \<open>compute\<close>, applied to the client's table of routes, make it the table of
  the shortest paths from the origin.
\<close>

subsection \<open>Operations on the graph\<close>

lemma spt_okD:
  assumes "spt_ok s"
  shows "om_ok (nodes s)"
    and "(k, r) \<in> set (nodes s) \<Longrightarrow> r < length (heap s)"
    and "(k, r) \<in> set (nodes s) \<Longrightarrow> nodename (heap s ! r) = k"
    and "(k, r) \<in> set (nodes s) \<Longrightarrow> om_ok (adjacencies (heap s ! r))"
    and "(k, r) \<in> set (nodes s) \<Longrightarrow> (k', n, w) \<in> set (adjacencies (heap s ! r)) \<Longrightarrow> (k', n) \<in> set (nodes s)"
  using assms by (force simp: spt_ok_def graph_nodes_def)+

lemma spt_okI:
  assumes "om_ok (nodes s)"
    and "\<And>k r. (k, r) \<in> set (nodes s) \<Longrightarrow> r < length (heap s)"
    and "\<And>k r. (k, r) \<in> set (nodes s) \<Longrightarrow> nodename (heap s ! r) = k"
    and "\<And>k r. (k, r) \<in> set (nodes s) \<Longrightarrow> om_ok (adjacencies (heap s ! r))"
    and "\<And>k r k' n w. (k, r) \<in> set (nodes s) \<Longrightarrow> (k', n, w) \<in> set (adjacencies (heap s ! r)) \<Longrightarrow> (k', n) \<in> set (nodes s)"
  shows "spt_ok s"
proof -
  have "(k, n) \<in> set (nodes s)" if "r \<in> graph_nodes s" "(k, n, w) \<in> set (adjacencies (heap s ! r))" for r k n w
    using that assms(5) by (auto simp: graph_nodes_def)
  with assms(1-4) show ?thesis by (auto simp: spt_ok_def)
qed

lemma find_node_Some:
  assumes "spt_ok s"
  shows "find_node s n = Some r \<longleftrightarrow> (n, r) \<in> set (nodes s)"
  using spt_okD(1) [OF assms] by (simp add: find_node_def om_lookup_iff)

lemma deref_node:
  assumes "spt_ok s" "(n, r) \<in> set (nodes s)"
  shows "deref (heap s) r = Inr (heap s ! r)"
  using spt_okD(2) [OF assms] by (simp add: deref_def)

lemma spt_ok_upd:
  assumes "spt_ok s" "nodename (f (heap s ! r)) = nodename (heap s ! r)" "om_ok (adjacencies (heap s ! r)) \<Longrightarrow> om_ok (adjacencies (f (heap s ! r)))"
    and "\<And>k n w. (k, n, w) \<in> set (adjacencies (f (heap s ! r))) \<Longrightarrow> (k, n, w) \<in> set (adjacencies (heap s ! r)) \<or> (k, n) \<in> set (nodes s)"
  shows "spt_ok (s\<lparr> heap := upd r f (heap s) \<rparr>)"
proof -
  note ok = spt_okD [OF assms(1)]
  have at: "nodename (upd r f (heap s) ! v) = nodename (heap s ! v)"
      "om_ok (adjacencies (heap s ! v)) \<Longrightarrow> om_ok (adjacencies (upd r f (heap s) ! v))"
      "(k, n, w) \<in> set (adjacencies (upd r f (heap s) ! v)) \<Longrightarrow> (k, n, w) \<in> set (adjacencies (heap s ! v)) \<or> (k, n) \<in> set (nodes s)"
    if "v < length (heap s)" for v k n w
    using assms(2-4) that by (cases "v = r"; auto simp: upd_def)+
  show ?thesis
  proof (rule spt_okI)
    fix k v k' n w assume "(k, v) \<in> set (nodes (s\<lparr> heap := upd r f (heap s) \<rparr>))"
      and "(k', n, w) \<in> set (adjacencies (heap (s\<lparr> heap := upd r f (heap s) \<rparr>) ! v))"
    then show "(k', n) \<in> set (nodes (s\<lparr> heap := upd r f (heap s) \<rparr>))"
      using at(3) [of v k' n w] ok(2,5) by auto
  qed (use ok at in \<open>auto simp: upd_def\<close>)
qed

lemma set_om_erase: "x \<in> set (om_erase k xs) \<Longrightarrow> x \<in> set xs"
  by (simp add: om_erase_def)

lemma set_om_insertD: "x \<in> set (om_insert k v xs) \<Longrightarrow> x = (k, v) \<or> x \<in> set xs"
  using set_om_insert [of k v xs] by blast

lemma spt_ok_Spt: "spt_ok Spt"
  by (simp add: Spt_def spt_ok_def graph_nodes_def)

lemma spt_ok_set_origin: "spt_ok s \<Longrightarrow> spt_ok (fst (set_origin n s))"
  by (auto simp: set_origin_def spt_ok_def graph_nodes_def split: option.splits)

lemma spt_ok_new_node:
  assumes "spt_ok s" "find_node s n = None"
  shows "spt_ok (s\<lparr> heap := heap s @ [Node n], nodes := om_insert n (length (heap s)) (nodes s) \<rparr>)"
proof -
  note ok = spt_okD [OF assms(1)]
  have mem: "(k, r) \<in> set (om_insert n (length (heap s)) (nodes s)) \<longleftrightarrow> (k, r) = (n, length (heap s)) \<or> (k, r) \<in> set (nodes s)" for k r
    using assms(2) ok(1) by (auto simp: find_node_def set_om_insert_new)
  show ?thesis
  proof (rule spt_okI, goal_cases)
    case (5 k r k' n' w)
    then show ?case using ok(2,5) by (auto simp: mem nth_append Node_def)
  qed (use ok in \<open>auto simp: mem nth_append Node_def dest: ok(2)\<close>)
qed

lemma add_node_ok:
  assumes "spt_ok s"
  shows "\<exists>s' b. add_node n s = Inr (s', b) \<and> spt_ok s'"
proof (cases "find_node s n")
  case None
  with spt_ok_new_node [OF assms] show ?thesis by (auto simp: add_node_def)
next
  case (Some r)
  then have r: "(n, r) \<in> set (nodes s)" using assms by (simp add: find_node_Some)
  have "spt_ok (s\<lparr> heap := upd r (\<lambda>x. x\<lparr> adjacencies := [], valid := True \<rparr>) (heap s) \<rparr>)"
    by (rule spt_ok_upd [OF assms]) simp_all
  with Some assms show ?thesis by (auto simp: add_node_def deref_node [OF assms r])
qed

lemma update_node_ok:
  assumes "spt_ok s"
  shows "\<exists>b. update_node n s = Inr (s, b)"
proof (cases "find_node s n")
  case (Some r)
  then have r: "(n, r) \<in> set (nodes s)" using assms by (simp add: find_node_Some)
  have "upd r (\<lambda>x. x\<lparr> nodename := n \<rparr>) (heap s) = heap s"
    using spt_okD(3) [OF assms r] by (auto simp: upd_def intro: list_update_id [THEN subst])
  with Some show ?thesis by (auto simp: update_node_def deref_node [OF assms r])
qed (auto simp: update_node_def)

lemma remove_node_ok:
  assumes "spt_ok s"
  shows "\<exists>s' b. remove_node n s = Inr (s', b) \<and> spt_ok s'"
proof (cases "find_node s n")
  case (Some r)
  then have r: "(n, r) \<in> set (nodes s)" using assms by (simp add: find_node_Some)
  have "spt_ok (s\<lparr> heap := upd r (\<lambda>x. x\<lparr> valid := False \<rparr>) (heap s) \<rparr>)"
    by (rule spt_ok_upd [OF assms]) simp_all
  with Some assms show ?thesis by (auto simp: remove_node_def deref_node [OF assms r])
qed (auto simp: remove_node_def assms)

text \<open>The three operations on an edge change the adjacencies of its source.\<close>

lemma adjacency_update_ok:
  assumes "spt_ok s" "(k, r) \<in> set (nodes s)" "om_ok (adjacencies (heap s ! r)) \<Longrightarrow> om_ok (f (adjacencies (heap s ! r)))"
    and "\<And>k n w. (k, n, w) \<in> set (f (adjacencies (heap s ! r))) \<Longrightarrow> (k, n, w) \<in> set (adjacencies (heap s ! r)) \<or> (k, n) \<in> set (nodes s)"
  shows "spt_ok (s\<lparr> heap := upd r (\<lambda>x. x\<lparr> adjacencies := f (adjacencies x) \<rparr>) (heap s) \<rparr>)"
  using assms(3,4) by (intro spt_ok_upd [OF assms(1)]) auto

lemma node_add_edge_ok:
  assumes "spt_ok s" "(k, r) \<in> set (nodes s)" "(k', n) \<in> set (nodes s)"
  shows "\<exists>h b. node_add_edge r n w (heap s) = Inr (h, b) \<and> spt_ok (s\<lparr> heap := h \<rparr>)"
proof -
  have "spt_ok (s\<lparr> heap := upd r (\<lambda>x. x\<lparr> adjacencies := om_insert k' (n, w) (adjacencies x) \<rparr>) (heap s) \<rparr>)"
    using assms(3) by (intro adjacency_update_ok [OF assms(1,2)]) (auto dest: set_om_insertD)
  with assms show ?thesis by (auto simp: node_add_edge_def deref_node spt_okD(3))
qed

lemma add_edge_ok:
  assumes "spt_ok s"
  shows "\<exists>s' b. add_edge a w c s = Inr (s', b) \<and> spt_ok s'"
proof (cases "find_node s a")
  case (Some r)
  obtain s1 b where 1: "(if find_node s c = None then add_node c s else Inr (s, True)) = Inr (s1, b)" "spt_ok s1" "find_node s1 a = Some r"
  proof (cases "find_node s c = None")
    case True
    let ?s = "s\<lparr> heap := heap s @ [Node c], nodes := om_insert c (length (heap s)) (nodes s) \<rparr>"
    have "find_node ?s a = Some r" using Some True spt_okD(1) [OF assms] by (auto simp: find_node_def)
    with True that [of ?s True] spt_ok_new_node [OF assms True] show ?thesis by (simp add: add_node_def)
  qed (use that Some assms in auto)
  then have r: "(a, r) \<in> set (nodes s1)" by (simp add: find_node_Some)
  show ?thesis
  proof (cases "find_node s1 c")
    case None
    with Some 1 show ?thesis by (auto simp: add_edge_def)
  next
    case (Some n)
    then have "(c, n) \<in> set (nodes s1)" using 1 by (simp add: find_node_Some)
    from node_add_edge_ok [OF 1(2) r this, of w] obtain h b' where
      "node_add_edge r n w (heap s1) = Inr (h, b')" "spt_ok (s1\<lparr> heap := h \<rparr>)" by blast
    with \<open>find_node s a = Some r\<close> Some 1 show ?thesis by (cases b) (auto simp: add_edge_def)
  qed
qed (auto simp: add_edge_def assms)

lemma update_edge_weight_ok:
  assumes "spt_ok s"
  shows "\<exists>s' b. update_edge_weight a w c s = Inr (s', b) \<and> spt_ok s'"
proof (cases "find_node s a = None \<or> find_node s c = None")
  case False
  then obtain r n where f: "find_node s a = Some r" "find_node s c = Some n" by auto
  then have m: "(a, r) \<in> set (nodes s)" "(c, n) \<in> set (nodes s)" using assms by (simp_all add: find_node_Some)
  have "spt_ok (s\<lparr> heap := upd r (\<lambda>x. x\<lparr> adjacencies := om_insert c (n', w) (adjacencies x) \<rparr>) (heap s) \<rparr>)"
    if "map_of (adjacencies (heap s ! r)) c = Some (n', w')" for n' w'
    using spt_okD(5) [OF assms m(1) map_of_SomeD [OF that]]
    by (intro adjacency_update_ok [OF assms m(1)]) (auto dest: set_om_insertD)
  with assms show ?thesis
    by (auto simp: update_edge_weight_def f node_update_edge_weight_def deref_node [OF assms m(1)] deref_node [OF assms m(2)]
        spt_okD(3) [OF assms m(2)] split: option.splits)
qed (auto simp: update_edge_weight_def assms split: option.splits)

lemma remove_edge_ok:
  assumes "spt_ok s"
  shows "\<exists>s' b. remove_edge a c s = Inr (s', b) \<and> spt_ok s'"
proof (cases "find_node s a = None \<or> find_node s c = None")
  case False
  then obtain r n where f: "find_node s a = Some r" "find_node s c = Some n" by auto
  then have m: "(a, r) \<in> set (nodes s)" "(c, n) \<in> set (nodes s)" using assms by (simp_all add: find_node_Some)
  have "spt_ok (s\<lparr> heap := upd r (\<lambda>x. x\<lparr> adjacencies := om_erase c (adjacencies x) \<rparr>) (heap s) \<rparr>)"
    by (intro adjacency_update_ok [OF assms m(1)]) (auto dest: set_om_erase)
  with assms show ?thesis
    by (auto simp: remove_edge_def f node_remove_edge_def deref_node [OF assms m(1)] deref_node [OF assms m(2)]
        spt_okD(3) [OF assms m(2)])
qed (auto simp: remove_edge_def assms split: option.splits)

subsection \<open>The client's table\<close>

text \<open>The table of a client maps the name of a node to its next hop and its distance; a client applies the route commands to it.\<close>

type_synonym 'a table = "'a \<Rightarrow> ('a \<times> int) option"

definition apply_cmd :: "'a route_cmd \<Rightarrow> 'a table \<Rightarrow> 'a table" where
  "apply_cmd c T = T(rc_node c := (case rc_cmd c of DELETE \<Rightarrow> None | _ \<Rightarrow> Some (nexthop c, rc_weight c)))"

text \<open>The route that a path stands for, and the table of the paths a node was last announced with.\<close>

definition route :: "'a spt_node list \<Rightarrow> spt_path \<Rightarrow> ('a \<times> int) option" where
  "route h p = (if path_valid p then Some (nodename (h ! the (first_hop p)), path_length p) else None)"

definition announced :: "'a spt \<Rightarrow> 'a table" where
  "announced s k = (case find_node s k of None \<Rightarrow> None | Some r \<Rightarrow> route (heap s) (previous (heap s ! r)))"

definition same_names :: "'a spt_node list \<Rightarrow> 'a spt_node list \<Rightarrow> bool" where
  "same_names g h \<longleftrightarrow> map nodename h = map nodename g"

lemma same_namesD:
  assumes "same_names g h"
  shows "length h = length g" "v < length g \<Longrightarrow> nodename (h ! v) = nodename (g ! v)"
proof -
  show len: "length h = length g" using assms unfolding same_names_def by (metis length_map)
  assume "v < length g"
  then show "nodename (h ! v) = nodename (g ! v)" using assms len unfolding same_names_def by (metis nth_map)
qed

lemma same_names_refl [simp]: "same_names g g"
  by (simp add: same_names_def)

lemma same_names_upd: "(\<And>x. nodename (f x) = nodename x) \<Longrightarrow> same_names g (upd r f h) = same_names g h"
  by (simp add: same_names_def map_upd [where g = nodename])

text \<open>The hops of a path that is to be announced are nodes.\<close>

definition hops_ok :: "'a spt_node list \<Rightarrow> spt_path \<Rightarrow> bool" where
  "hops_ok h p \<longleftrightarrow> (path_valid p \<longrightarrow>
     (\<exists>f l. first_hop p = Some f \<and> f < length h \<and> last_hop p = Some l \<and> l < length h))"

definition announce :: "node_ref \<Rightarrow> 'a spt_node list \<Rightarrow> 'a spt_node list" where
  "announce r h = (if valid (h ! r) then upd r (\<lambda>x. x\<lparr> previous := current x \<rparr>) h else h)"

definition update_table :: "'a route_cmd option \<Rightarrow> 'a table \<Rightarrow> 'a table" where
  "update_table c T = (case c of None \<Rightarrow> T | Some c \<Rightarrow> apply_cmd c T)"

lemma delta_table:
  assumes "r < length h" "valid (h ! r) \<Longrightarrow> hops_ok h (current (h ! r))"
    and T: "T (nodename (h ! r)) = route h (previous (h ! r))"
  shows "\<exists>c. delta r h = Inr (announce r h, c)
    \<and> update_table c T = T(nodename (h ! r) := if valid (h ! r) then route h (current (h ! r)) else None)"
proof (cases "valid (h ! r) \<and> path_valid (current (h ! r))")
  case True
  then obtain f l where hops: "first_hop (current (h ! r)) = Some f" "f < length h"
      "last_hop (current (h ! r)) = Some l" "l < length h"
    using assms(2) by (auto simp: hops_ok_def)
  have names: "hop_name (announce r h) (Some v) = Inr (nodename (h ! v))" if "v < length h" for v
    using that assms(1) by (auto simp: hop_name_def deref_def announce_def nth_upd)
  have sel: "the x = f" if "Some f = x" for x using that by auto
  show ?thesis
    using True hops assms(1) T names [OF hops(2)] names [OF hops(4)]
    by (auto simp: Let_def delta_def deref_def announce_def update_table_def apply_cmd_def route_def fun_eq_iff dest: sel)
next
  case False
  then show ?thesis
    using assms(1) T by (auto simp: Let_def delta_def deref_def announce_def update_table_def apply_cmd_def route_def delete_cmd_def fun_eq_iff)
qed

lemma announce_nth:
  assumes "r < length h"
  shows "announce r h ! v = (if v = r \<and> valid (h ! r) then (h ! r)\<lparr> previous := current (h ! r) \<rparr> else h ! v)"
  using assms by (simp add: announce_def nth_upd)

lemma length_announce [simp]: "length (announce r h) = length h"
  by (simp add: announce_def)

lemma nodename_announce: "r < length h \<Longrightarrow> nodename (announce r h ! v) = nodename (h ! v)"
  by (simp add: announce_nth)

lemma route_announce: "r < length h \<Longrightarrow> route (announce r h) = route h"
  by (simp add: fun_eq_iff route_def nodename_announce)

lemma fold_apply_cmd: "fold apply_cmd (case c of None \<Rightarrow> cs | Some c \<Rightarrow> c # cs) T = fold apply_cmd cs (update_table c T)"
  by (simp add: update_table_def split: option.splits)

definition delta_ok :: "node_ref option \<Rightarrow> 'a spt_node list \<Rightarrow> 'a table \<Rightarrow> 'a \<times> node_ref \<Rightarrow> bool" where
  "delta_ok org h T = (\<lambda>(k, r). r < length h \<and> nodename (h ! r) = k \<and> T k = route h (previous (h ! r))
     \<and> (Some r \<noteq> org \<and> valid (h ! r) \<longrightarrow> hops_ok h (current (h ! r))))"

lemma delta_ok_other:
  assumes "delta_ok org h T (k', r')" "r < length h" "r' \<noteq> r" "k' \<noteq> k"
  shows "delta_ok org (announce r h) (T(k := x)) (k', r')"
  using assms by (simp add: delta_ok_def announce_nth nodename_announce route_announce hops_ok_def)

lemma delta_loop_table:
  assumes "distinct (map fst ns)" "\<forall>x \<in> set ns. delta_ok org h T x"
  shows "\<exists>h' cs. delta_loop org ns h = Inr (h', cs) \<and> length h' = length h
    \<and> (\<forall>v. h' ! v = (if v \<in> snd ` set ns \<and> Some v \<noteq> org \<and> valid (h ! v) then (h ! v)\<lparr> previous := current (h ! v) \<rparr> else h ! v))
    \<and> fold apply_cmd cs T = (\<lambda>k. case map_of ns k of None \<Rightarrow> T k
        | Some r \<Rightarrow> if Some r = org then T k else if valid (h ! r) then route h (current (h ! r)) else None)"
  using assms
proof (induction ns arbitrary: h T)
  case (Cons x ns)
  obtain k r where x: "x = (k, r)" by (cases x)
  have r: "r < length h" "nodename (h ! r) = k" "T k = route h (previous (h ! r))"
    and hops: "Some r \<noteq> org \<Longrightarrow> valid (h ! r) \<Longrightarrow> hops_ok h (current (h ! r))"
    using Cons.prems(2) by (auto simp: x delta_ok_def)
  have other: "k' \<noteq> k" "r' \<noteq> r" if "(k', r') \<in> set ns" for k' r'
    using that Cons.prems r(2) by (force simp: x delta_ok_def)+
  have notin: "r \<notin> snd ` set ns" "map_of ns k = None" by (auto simp: map_of_eq_None_iff dest: other)
  show ?case
  proof (cases "Some r = org")
    case True
    obtain h' cs where IH: "delta_loop org ns h = Inr (h', cs)" "length h' = length h"
        "\<forall>v. h' ! v = (if v \<in> snd ` set ns \<and> Some v \<noteq> org \<and> valid (h ! v) then (h ! v)\<lparr> previous := current (h ! v) \<rparr> else h ! v)"
        "fold apply_cmd cs T = (\<lambda>k. case map_of ns k of None \<Rightarrow> T k
          | Some r \<Rightarrow> if Some r = org then T k else if valid (h ! r) then route h (current (h ! r)) else None)"
      using Cons.IH [of h T] Cons.prems by auto
    with True notin(2) show ?thesis by (auto simp: x fun_eq_iff)
  next
    case False
    let ?h = "announce r h" and ?T = "T(k := if valid (h ! r) then route h (current (h ! r)) else None)"
    obtain c where c: "delta r h = Inr (?h, c)" "update_table c T = ?T"
      using delta_table [OF r(1) hops [OF False], of T] r(2,3) by auto
    have ok: "\<forall>x \<in> set ns. delta_ok org ?h ?T x"
      using Cons.prems(2) other r(1) by (auto intro!: delta_ok_other simp: x)
    have d: "distinct (map fst ns)" using Cons.prems(1) by simp
    have same: "valid (?h ! v) = valid (h ! v)" "current (?h ! v) = current (h ! v)" for v
      using r(1) by (simp_all add: announce_nth)
    obtain h' cs where IH: "delta_loop org ns ?h = Inr (h', cs)" "length h' = length ?h"
        "\<forall>v. h' ! v = (if v \<in> snd ` set ns \<and> Some v \<noteq> org \<and> valid (?h ! v) then (?h ! v)\<lparr> previous := current (?h ! v) \<rparr> else ?h ! v)"
        "fold apply_cmd cs ?T = (\<lambda>k. case map_of ns k of None \<Rightarrow> ?T k
          | Some r \<Rightarrow> if Some r = org then ?T k else if valid (?h ! r) then route ?h (current (?h ! r)) else None)"
      using Cons.IH [OF d ok] by blast
    have "fold apply_cmd (case c of None \<Rightarrow> cs | Some c \<Rightarrow> c # cs) T = fold apply_cmd cs ?T"
      by (simp add: fold_apply_cmd c(2))
    also have "\<dots> = (\<lambda>k'. case map_of (x # ns) k' of None \<Rightarrow> T k'
        | Some r \<Rightarrow> if Some r = org then T k' else if valid (h ! r) then route h (current (h ! r)) else None)"
      using IH(4) False notin(2) r(1) by (simp add: x fun_eq_iff route_announce same split: option.splits)
    finally have T: "fold apply_cmd (case c of None \<Rightarrow> cs | Some c \<Rightarrow> c # cs) T = \<dots>" .
    have "h' ! v = (if v \<in> snd ` set (x # ns) \<and> Some v \<noteq> org \<and> valid (h ! v) then (h ! v)\<lparr> previous := current (h ! v) \<rparr> else h ! v)" for v
      using spec [OF IH(3), of v] False notin(1) r(1) by (cases "v = r") (simp_all add: x announce_nth)
    with T IH(1,2) False c(1) show ?thesis by (simp add: x)
  qed
qed simp

subsection \<open>Garbage collection\<close>

definition kept :: "'a spt_node list \<Rightarrow> 'a spt_node list \<Rightarrow> bool" where
  "kept h h' \<longleftrightarrow> length h' = length h \<and> (\<forall>v < length h. valid (h' ! v) = valid (h ! v) \<and> nodename (h' ! v) = nodename (h ! v))"

lemma kept_refl [simp]: "kept h h"
  by (simp add: kept_def)

lemma kept_trans: "kept h h1 \<Longrightarrow> kept h1 h2 \<Longrightarrow> kept h h2"
  by (simp add: kept_def)

definition prune :: "'a spt_node list \<Rightarrow> 'a spt_node \<Rightarrow> 'a spt_node" where
  "prune h x = x\<lparr> adjacencies := filter (\<lambda>(k, n, w). valid (h ! n)) (adjacencies x) \<rparr>"

lemma gc_edges_result:
  assumes "r < length h" "valid (h ! r)" "\<forall>(k, n, w) \<in> set es. n < length h"
  shows "\<exists>h'. gc_edges r es h = Inr h' \<and> kept h h' \<and> (\<forall>v < length h. valid (h ! v) \<longrightarrow> h' ! v = (if v = r
    then (h ! r)\<lparr> adjacencies := filter (\<lambda>e. \<forall>(k, n, w) \<in> set es. fst e = k \<longrightarrow> valid (h ! n)) (adjacencies (h ! r)) \<rparr> else h ! v))"
  using assms
proof (induction es arbitrary: h)
  case (Cons e es)
  obtain k n w where e: "e = (k, n, w)" by (cases e)
  have n: "n < length h" using Cons.prems(3) by (simp add: e)
  show ?case
  proof (cases "valid (h ! n)")
    case True
    with Cons.IH [of h] Cons.prems n show ?thesis by (auto simp: e deref_def)
  next
    case False
    define h1 where "h1 = upd r (\<lambda>x. x\<lparr> adjacencies := om_erase k (adjacencies x) \<rparr>) (clear_node n h)"
    from False Cons.prems(2) have "n \<noteq> r" by auto
    then have h1: "h1 ! v = (if v = r then (h ! r)\<lparr> adjacencies := om_erase k (adjacencies (h ! r)) \<rparr> else clear_node n h ! v)" for v
      using Cons.prems(1) n by (simp add: h1_def nth_upd clear_node_def)
    have clear: "valid (clear_node n h ! v) = valid (h ! v)" "nodename (clear_node n h ! v) = nodename (h ! v)"
      "valid (h ! v) \<Longrightarrow> clear_node n h ! v = h ! v" for v
      using n False by (auto simp: clear_node_def nth_upd)
    have len: "length h1 = length h" by (simp add: h1_def clear_node_def)
    have k1: "kept h h1" by (simp add: kept_def h1 clear len)
    have v1: "valid (h1 ! v) = valid (h ! v)" for v by (simp add: h1 clear)
    obtain h' where IH: "gc_edges r es h1 = Inr h'" "kept h1 h'" "\<forall>v < length h1. valid (h1 ! v) \<longrightarrow> h' ! v = (if v = r
        then (h1 ! r)\<lparr> adjacencies := filter (\<lambda>e. \<forall>(k, n, w) \<in> set es. fst e = k \<longrightarrow> valid (h1 ! n)) (adjacencies (h1 ! r)) \<rparr> else h1 ! v)"
      using Cons.IH [of h1] Cons.prems by (auto simp: len v1)
    have "gc_edges r (e # es) h = Inr h'" using IH(1) n False by (simp add: e deref_def h1_def)
    moreover have "h' ! v = (if v = r then (h ! r)\<lparr> adjacencies :=
        filter (\<lambda>e'. \<forall>(k, n, w) \<in> set (e # es). fst e' = k \<longrightarrow> valid (h ! n)) (adjacencies (h ! r)) \<rparr> else h ! v)"
      if "v < length h" "valid (h ! v)" for v
    proof (cases "v = r")
      case True
      have "h' ! r = (h1 ! r)\<lparr> adjacencies := filter (\<lambda>e. \<forall>(k, n, w) \<in> set es. fst e = k \<longrightarrow> valid (h ! n)) (adjacencies (h1 ! r)) \<rparr>"
        using IH(3) Cons.prems(1,2) by (simp add: len v1)
      with h1 [of r] False show ?thesis by (simp add: True e om_erase_def)
    next
      case False
      with IH(3) that clear(3) [of v] h1 [of v] show ?thesis by (simp add: len v1)
    qed
    ultimately show ?thesis using kept_trans [OF k1 IH(2)] by blast
  qed
qed simp

lemma gc_edges_prune:
  assumes "r < length h" "valid (h ! r)" "\<forall>(k, n, w) \<in> set (adjacencies (h ! r)). n < length h" "om_ok (adjacencies (h ! r))"
  shows "\<exists>h'. gc_edges r (adjacencies (h ! r)) h = Inr h' \<and> kept h h'
    \<and> (\<forall>v < length h. valid (h ! v) \<longrightarrow> h' ! v = (if v = r then prune h (h ! r) else h ! v))"
proof -
  have "(\<forall>(k, n, w) \<in> set (adjacencies (h ! r)). fst e = k \<longrightarrow> valid (h ! n)) \<longleftrightarrow> (\<lambda>(k, n, w). valid (h ! n)) e"
    if e: "e \<in> set (adjacencies (h ! r))" for e
  proof -
    obtain k n w where [simp]: "e = (k, n, w)" by (cases e)
    have eq: "n' = n" if "(k, n', w') \<in> set (adjacencies (h ! r))" for n' w'
      using eq_key_imp_eq_value [OF om_ok_distinct [OF assms(4)] that, of "(n, w)"] e by simp
    have "(\<forall>n' w'. (k, n', w') \<in> set (adjacencies (h ! r)) \<longrightarrow> valid (h ! n')) \<longleftrightarrow> valid (h ! n)"
      using e by (auto dest: eq)
    then show ?thesis by auto
  qed
  then have "filter (\<lambda>e. \<forall>(k, n, w) \<in> set (adjacencies (h ! r)). fst e = k \<longrightarrow> valid (h ! n)) (adjacencies (h ! r))
      = filter (\<lambda>(k, n, w). valid (h ! n)) (adjacencies (h ! r))" by (rule filter_cong [OF refl])
  then show ?thesis using gc_edges_result [OF assms(1-3)] unfolding prune_def by (simp only:)
qed

lemma prune_cong: "kept h h' \<Longrightarrow> \<forall>(k, n, w) \<in> set (adjacencies x). n < length h \<Longrightarrow> prune h' x = prune h x"
  by (auto simp: prune_def kept_def intro!: filter_cong spt_node.fold_congs)

lemma prune_idem [simp]: "prune h (prune h x) = prune h x"
  by (simp add: prune_def)

lemma gc_nodes_prune:
  assumes "distinct (map snd ns)" "\<forall>(k, r) \<in> set ns. r < length h \<and> valid (h ! r) \<and> om_ok (adjacencies (h ! r))"
    and "\<forall>(k, r) \<in> set ns. \<forall>(k', n, w) \<in> set (adjacencies (h ! r)). n < length h"
  shows "\<exists>h'. gc_nodes ns h = Inr h' \<and> kept h h'
    \<and> (\<forall>v < length h. valid (h ! v) \<longrightarrow> h' ! v = (if v \<in> snd ` set ns then prune h (h ! v) else h ! v))"
  using assms
proof (induction ns arbitrary: h)
  case (Cons x ns)
  obtain k r where x: "x = (k, r)" by (cases x)
  have r: "r < length h" "valid (h ! r)" "\<forall>(k, n, w) \<in> set (adjacencies (h ! r)). n < length h" "om_ok (adjacencies (h ! r))"
    using Cons.prems(2,3) by (auto simp: x)
  obtain h1 where h1: "gc_edges r (adjacencies (h ! r)) h = Inr h1" "kept h h1"
      "\<forall>v < length h. valid (h ! v) \<longrightarrow> h1 ! v = (if v = r then prune h (h ! r) else h ! v)"
    using gc_edges_prune [OF r] by blast
  have notin: "r \<notin> snd ` set ns" using Cons.prems(1) by (simp add: x)
  have at: "r' < length h" "valid (h ! r')" "om_ok (adjacencies (h ! r'))" "\<forall>(k', n, w) \<in> set (adjacencies (h ! r')). n < length h" "h1 ! r' = h ! r'"
    if "(k', r') \<in> set ns" for k' r'
  proof -
    show "r' < length h" "valid (h ! r')" "om_ok (adjacencies (h ! r'))" "\<forall>(k', n, w) \<in> set (adjacencies (h ! r')). n < length h"
      using Cons.prems(2,3) that by fastforce+
    moreover have "r' \<noteq> r" using notin that by force
    ultimately show "h1 ! r' = h ! r'" using h1(3) by simp
  qed
  have kept1: "length h1 = length h" "v < length h \<Longrightarrow> valid (h1 ! v) = valid (h ! v)" for v using h1(2) by (simp_all add: kept_def)
  have "distinct (map snd ns)" using Cons.prems(1) by simp
  moreover have "\<forall>(k, r) \<in> set ns. r < length h1 \<and> valid (h1 ! r) \<and> om_ok (adjacencies (h1 ! r))"
    using at by (auto simp: kept1(1))
  moreover have "\<forall>(k, r) \<in> set ns. \<forall>(k', n, w) \<in> set (adjacencies (h1 ! r)). n < length h1"
    using at(4,5) by (fastforce simp: kept1(1))
  ultimately obtain h2 where h2: "gc_nodes ns h1 = Inr h2" "kept h1 h2"
      "\<forall>v < length h1. valid (h1 ! v) \<longrightarrow> h2 ! v = (if v \<in> snd ` set ns then prune h1 (h1 ! v) else h1 ! v)"
    using Cons.IH by blast
  have "h2 ! v = (if v \<in> snd ` set (x # ns) then prune h (h ! v) else h ! v)" if v: "v < length h" "valid (h ! v)" for v
  proof (cases "v \<in> snd ` set ns")
    case True
    then obtain k' where k': "(k', v) \<in> set ns" by auto
    have "h2 ! v = prune h1 (h ! v)" using h2(3) v True at(5) [OF k'] by (simp add: kept1)
    also have "\<dots> = prune h (h ! v)" by (rule prune_cong [OF h1(2) at(4) [OF k']])
    finally show ?thesis using True by simp
  qed (use h2(3) h1(3) v in \<open>simp add: x kept1\<close>)
  moreover have "gc_nodes (x # ns) h = Inr h2" using h1(1) h2(1) r(1) by (simp add: x deref_def)
  ultimately show ?case using kept_trans [OF h1(2) h2(2)] by blast
qed simp

lemma live_nodes_filter:
  "\<forall>(k, r) \<in> set ns. r < length h \<Longrightarrow> live_nodes ns h = Inr (filter (\<lambda>(k, r). valid (h ! r)) ns)"
  by (induction ns) (auto simp: deref_def)

lemma distinct_refs:
  assumes "spt_ok s"
  shows "distinct (map snd (nodes s))"
proof -
  have names: "map fst (nodes s) = map (\<lambda>r. nodename (heap s ! r)) (map snd (nodes s))"
    using spt_okD(3) [OF assms] by auto
  have "distinct (map fst (nodes s))" by (rule om_ok_distinct [OF spt_okD(1) [OF assms]])
  then show ?thesis unfolding names by (metis distinct_map)
qed

lemma garbage_collect_result:
  assumes "spt_ok s"
  shows "\<exists>s'. spt_garbage_collect s = Inr s' \<and> nodes s' = filter (\<lambda>(k, r). valid (heap s ! r)) (nodes s)
    \<and> spt_origin s' = spt_origin s \<and> kept (heap s) (heap s')
    \<and> (\<forall>(k, r) \<in> set (nodes s'). heap s' ! r = prune (heap s) (heap s ! r))"
proof -
  let ?ns = "filter (\<lambda>(k, r). valid (heap s ! r)) (nodes s)"
  note ok = spt_okD [OF assms]
  have "distinct (map snd ?ns)" by (rule distinct_map_filter [OF distinct_refs [OF assms]])
  moreover have "\<forall>(k, r) \<in> set ?ns. r < length (heap s) \<and> valid (heap s ! r) \<and> om_ok (adjacencies (heap s ! r))"
    using ok by auto
  moreover have "\<forall>(k, r) \<in> set ?ns. \<forall>(k', n, w) \<in> set (adjacencies (heap s ! r)). n < length (heap s)"
    using ok(2) ok(5) by fastforce
  ultimately obtain h where h: "gc_nodes ?ns (heap s) = Inr h" "kept (heap s) h"
      "\<forall>v < length (heap s). valid (heap s ! v) \<longrightarrow> h ! v = (if v \<in> snd ` set ?ns then prune (heap s) (heap s ! v) else heap s ! v)"
    using gc_nodes_prune by blast
  have "live_nodes (nodes s) (heap s) = Inr ?ns" using ok(2) by (intro live_nodes_filter) auto
  with h(1) have "spt_garbage_collect s = Inr (s\<lparr> nodes := ?ns, heap := h \<rparr>)" by (simp add: spt_garbage_collect_def)
  moreover have "h ! r = prune (heap s) (heap s ! r)" if "(k, r) \<in> set ?ns" for k r
  proof -
    have "r \<in> snd ` set ?ns" using that by force
    moreover have "r < length (heap s)" "valid (heap s ! r)" using ok(2) that by auto
    ultimately show ?thesis using h(3) by (simp only: if_True)
  qed
  ultimately show ?thesis using h(2) by auto
qed

end
