(* ===== verification/Spt_Client.thy ===== *)
theory Spt_Client
  imports Spt_Routes
begin

text \<open>
  \<open>Spt::compute\<close> as a whole, and an \<open>Spt\<close> with the client that holds its routes: after any sequence
  of operations the client's table is the one announced, and a computation brings it up to the
  shortest paths of the graph.
\<close>

subsection \<open>What a computation does to the table\<close>

definition route_ok :: "'a spt \<Rightarrow> node_ref \<Rightarrow> node_ref \<Rightarrow> ('a \<times> int) option \<Rightarrow> bool" where
  "route_ok s org r x \<longleftrightarrow> (case x of
     None \<Rightarrow> \<not> (\<exists>d. walk (heap s) org d r)
   | Some (n, d) \<Rightarrow> shortest (heap s) org d r
       \<and> (\<exists>f w d'. nodename (heap s ! f) = n \<and> edge (heap s) org f w \<and> walk (heap s) f d' r \<and> d = w + d'))"

text \<open>
  The table after a computation: no route to a node that is not there or marked for deletion, the
  shortest path to every other node. The entry of the origin, if there is one, is not touched.
\<close>

definition shortest_table :: "'a spt \<Rightarrow> node_ref \<Rightarrow> 'a table \<Rightarrow> 'a table \<Rightarrow> bool" where
  "shortest_table s org T T' \<longleftrightarrow> (\<forall>k. case find_node s k of
     None \<Rightarrow> T' k = None
   | Some r \<Rightarrow> if r = org then T' k = T k
       else if valid (heap s ! r) then route_ok s org r (T' k) else T' k = None)"

definition first_in_range :: "'a spt_node list \<Rightarrow> spt_path \<Rightarrow> bool" where
  "first_in_range h p \<longleftrightarrow> (path_valid p \<longrightarrow> (\<exists>f. first_hop p = Some f \<and> f < length h))"

definition history_ok :: "'a spt \<Rightarrow> bool" where
  "history_ok s \<longleftrightarrow> (\<forall>r \<in> graph_nodes s. first_in_range (heap s) (previous (heap s ! r)))"

lemma route_same_names:
  assumes "length h = length g" "\<And>v. v < length g \<Longrightarrow> nodename (h ! v) = nodename (g ! v)" "first_in_range g p"
  shows "route h p = route g p"
  using assms by (auto simp: route_def first_in_range_def)

lemma first_in_range_len: "length h = length g \<Longrightarrow> first_in_range h = first_in_range g"
  by (simp add: first_in_range_def fun_eq_iff)

lemma hops_first_in_range: "hops_ok h p \<Longrightarrow> first_in_range h p"
  by (auto simp: hops_ok_def first_in_range_def)

lemma path_ok_hops:
  assumes "path_ok (heap s) org h r" "length h = length (heap s)"
  shows "hops_ok h (current (h ! r))"
  using assms by (fastforce simp: path_ok_def hops_ok_def edge_def)

lemma path_ok_route:
  assumes "path_ok (heap s) org h r" "same_graph (heap s) h"
  shows "route_ok s org r (route h (current (h ! r)))"
proof (cases "known h r")
  case True
  then obtain f w d where f: "first_hop (current (h ! r)) = Some f" "edge (heap s) org f w" "walk (heap s) f d r" "plen h r = w + d"
    and sh: "shortest (heap s) org (plen h r) r" using assms(1) by (auto simp: path_ok_def)
  have "nodename (h ! f) = nodename (heap s ! f)" using f(2) same_graph_fields(3) [OF assms(2)] by (simp add: edge_def)
  with f sh True show ?thesis by (auto simp: route_ok_def route_def)
next
  case False
  with assms(1) show ?thesis by (simp add: route_ok_def route_def path_ok_def)
qed

lemma spt_ok_fields:
  assumes "spt_ok s" "length h = length (heap s)"
    and "\<And>v. v < length h \<Longrightarrow> nodename (h ! v) = nodename (heap s ! v) \<and> adjacencies (h ! v) = adjacencies (heap s ! v)"
  shows "spt_ok (s\<lparr> heap := h \<rparr>)"
proof -
  note ok = spt_okD [OF assms(1)]
  have "nodename (h ! r) = k \<and> adjacencies (h ! r) = adjacencies (heap s ! r) \<and> r < length h" if "(k, r) \<in> set (nodes s)" for k r
    using ok(2,3) [OF that] assms(2,3) by auto
  then show ?thesis using ok by (intro spt_okI) auto
qed

lemma graph_node: "r \<in> graph_nodes s \<longleftrightarrow> (\<exists>k. (k, r) \<in> set (nodes s))"
  by (force simp: graph_nodes_def)

lemma spt_ok_collected:
  assumes "spt_ok s" "spt_garbage_collect s = Inr s'" 
  shows "spt_ok s'"
proof -
  note ok = spt_okD [OF assms(1)]
  have gc: "nodes s' = filter (\<lambda>(k, r). valid (heap s ! r)) (nodes s)" "kept (heap s) (heap s')"
    "\<And>k r. (k, r) \<in> set (nodes s') \<Longrightarrow> heap s' ! r = prune (heap s) (heap s ! r)"
    using garbage_collect_result [OF assms(1)] assms(2) by auto
  show ?thesis
  proof (rule spt_okI)
    fix k r k' n w assume "(k, r) \<in> set (nodes s')" "(k', n, w) \<in> set (adjacencies (heap s' ! r))"
    then have "(k, r) \<in> set (nodes s)" "(k', n, w) \<in> set (adjacencies (heap s ! r))" "valid (heap s ! n)"
      using gc(1) gc(3) [of k r] by (auto simp: prune_def)
    then show "(k', n) \<in> set (nodes s')" using ok(5) gc(1) by auto
  next
    fix k r assume r: "(k, r) \<in> set (nodes s')"
    then have s: "(k, r) \<in> set (nodes s)" using gc(1) by simp
    show "r < length (heap s')" using ok(2) [OF s] gc(2) by (simp add: kept_def)
    show "nodename (heap s' ! r) = k" "om_ok (adjacencies (heap s' ! r))"
      using ok(3,4) [OF s] gc(3) [OF r] by (simp_all add: prune_def)
  qed (use ok(1) gc(1) in simp)
qed

lemma find_node_collected:
  assumes "spt_ok s" "nodes s' = filter (\<lambda>(k, r). valid (heap s ! r)) (nodes s)"
  shows "find_node s' k = (case find_node s k of None \<Rightarrow> None | Some r \<Rightarrow> if valid (heap s ! r) then Some r else None)"
  using map_of_om_filter [OF spt_okD(1) [OF assms(1)]] by (simp add: find_node_def assms(2))

text \<open>The heap \<open>h\<close> that Dijkstra leaves for the graph \<open>s\<close>, the table it stands for and the heap after its routes are announced.\<close>

definition computed :: "'a :: linorder spt \<Rightarrow> node_ref \<Rightarrow> 'a spt_node list \<Rightarrow> bool" where
  "computed s org h \<longleftrightarrow> same_graph (heap s) h \<and> spt_ok s \<and> history_ok s \<and> org \<in> graph_nodes s \<and> valid (heap s ! org)
     \<and> (\<forall>v \<in> graph_nodes s. v \<noteq> org \<and> valid (heap s ! v) \<longrightarrow> path_ok (heap s) org h v)"

definition new_table :: "'a spt \<Rightarrow> node_ref \<Rightarrow> 'a spt_node list \<Rightarrow> 'a table" where
  "new_table s org h k = (case find_node s k of None \<Rightarrow> None
     | Some r \<Rightarrow> if r = org then announced s k else if valid (heap s ! r) then route h (current (h ! r)) else None)"

definition all_announced :: "'a spt \<Rightarrow> node_ref \<Rightarrow> 'a spt_node list \<Rightarrow> 'a spt_node list \<Rightarrow> bool" where
  "all_announced s org h h' \<longleftrightarrow> length h' = length h \<and> (\<forall>v < length h. h' ! v =
     (if v \<in> graph_nodes s \<and> v \<noteq> org \<and> valid (h ! v) then (h ! v)\<lparr> previous := current (h ! v) \<rparr> else h ! v))"

lemma computedD:
  assumes "computed s org h"
  shows "spt_ok s" "same_graph (heap s) h" "length h = length (heap s)" "valid (heap s ! org)"
    and "r \<in> graph_nodes s \<Longrightarrow> first_in_range (heap s) (previous (heap s ! r))"
    and "r \<in> graph_nodes s \<Longrightarrow> r \<noteq> org \<Longrightarrow> valid (heap s ! r) \<Longrightarrow> path_ok (heap s) org h r"
  using assms same_graph_fields(1) [of "heap s" h] by (auto simp: computed_def history_ok_def)

lemma node_fields:
  assumes "spt_ok s" "(k, r) \<in> set (nodes s)"
  shows "r < length (heap s)" "nodename (heap s ! r) = k" "find_node s k = Some r" "r \<in> graph_nodes s"
  using spt_okD(2,3) [OF assms] assms(2) by (auto simp: find_node_Some [OF assms(1)] graph_node)

lemma route_previous:
  assumes "computed s org h" "r \<in> graph_nodes s"
  shows "route h (previous (heap s ! r)) = route (heap s) (previous (heap s ! r))"
  by (intro route_same_names same_graph_fields(1,3) computedD(2,5) [OF assms(1)] assms(2))

lemma announce_all:
  assumes "computed s org h"
  shows "\<exists>h' cs. delta_loop (Some org) (nodes s) h = Inr (h', cs) \<and> all_announced s org h h'
    \<and> fold apply_cmd cs (announced s) = new_table s org h"
proof -
  note ok = computedD(1) [OF assms] and sg = same_graph_fields [OF computedD(2) [OF assms]]
  have "delta_ok (Some org) h (announced s) (k, r)" if "(k, r) \<in> set (nodes s)" for k r
    using node_fields [OF ok that] sg route_previous [OF assms, of r] path_ok_hops [OF computedD(6) [OF assms] sg(1), of r]
    by (simp add: delta_ok_def announced_def)
  then have "\<forall>x \<in> set (nodes s). delta_ok (Some org) h (announced s) x" by auto
  from delta_loop_table [OF om_ok_distinct [OF spt_okD(1) [OF ok]] this]
  obtain h' cs where d: "delta_loop (Some org) (nodes s) h = Inr (h', cs)" "length h' = length h"
      "\<forall>v. h' ! v = (if v \<in> snd ` set (nodes s) \<and> Some v \<noteq> Some org \<and> valid (h ! v) then (h ! v)\<lparr> previous := current (h ! v) \<rparr> else h ! v)"
      "fold apply_cmd cs (announced s) = (\<lambda>k. case map_of (nodes s) k of None \<Rightarrow> announced s k
        | Some r \<Rightarrow> if Some r = Some org then announced s k else if valid (h ! r) then route h (current (h ! r)) else None)"
    by blast
  have "fold apply_cmd cs (announced s) k = new_table s org h k" for k
  proof (cases "find_node s k")
    case (Some r)
    then have "valid (h ! r) = valid (heap s ! r)" using node_fields(1) [OF ok] sg(2) by (simp add: find_node_Some [OF ok])
    with Some show ?thesis by (simp add: d(4) new_table_def find_node_def)
  qed (simp add: d(4) new_table_def find_node_def announced_def)
  with d show ?thesis by (auto simp: all_announced_def graph_nodes_def)
qed

lemma spt_ok_announced:
  assumes "computed s org h" "all_announced s org h h'"
  shows "spt_ok (s\<lparr> heap := h' \<rparr>)"
  using assms(2) same_graph_fields [OF computedD(2) [OF assms(1)]]
  by (intro spt_ok_fields computedD(1) [OF assms(1)]) (auto simp: all_announced_def)

lemma collected_node:
  assumes comp: "computed s org h" and ann: "all_announced s org h h'"
    and gc: "spt_garbage_collect (s\<lparr> heap := h' \<rparr>) = Inr s'" and mem: "(k, r) \<in> set (nodes s')"
  shows "(k, r) \<in> set (nodes s)" "valid (heap s ! r)"
    "previous (heap s' ! r) = (if r = org then previous (heap s ! r) else current (h ! r))"
    "first_in_range h (previous (heap s' ! r))"
proof -
  note sg = same_graph_fields [OF computedD(2) [OF comp]]
  have s': "nodes s' = filter (\<lambda>(k, r). valid (h' ! r)) (nodes s)" "heap s' ! r = prune h' (h' ! r)"
    using garbage_collect_result [OF spt_ok_announced [OF comp ann]] gc mem by auto
  show m: "(k, r) \<in> set (nodes s)" using mem s'(1) by simp
  note n = node_fields [OF computedD(1) [OF comp] m]
  have at: "valid (h' ! r) = valid (heap s ! r)" using ann n(1) sg by (simp add: all_announced_def)
  show v: "valid (heap s ! r)" using mem s'(1) at by simp
  show p: "previous (heap s' ! r) = (if r = org then previous (heap s ! r) else current (h ! r))"
    using ann s'(2) n v sg by (simp add: all_announced_def prune_def)
  show "first_in_range h (previous (heap s' ! r))"
  proof (cases "r = org")
    case True
    with computedD(5) [OF comp n(4)] p show ?thesis by (simp add: first_in_range_len [OF sg(1)])
  next
    case False
    with path_ok_hops [OF computedD(6) [OF comp n(4) False v] sg(1)] p show ?thesis by (simp add: hops_first_in_range)
  qed
qed

lemma collect_announced:
  assumes comp: "computed s org h" and ann: "all_announced s org h h'"
  shows "\<exists>s'. spt_garbage_collect (s\<lparr> heap := h' \<rparr>) = Inr s' \<and> spt_ok s' \<and> history_ok s' \<and> spt_origin s' = spt_origin s
    \<and> announced s' = new_table s org h"
proof -
  note ok = computedD(1) [OF comp] and ok' = spt_ok_announced [OF comp ann]
    and sg = same_graph_fields [OF computedD(2) [OF comp]]
  obtain s' where gc: "spt_garbage_collect (s\<lparr> heap := h' \<rparr>) = Inr s'" and
      s': "nodes s' = filter (\<lambda>(k, r). valid (h' ! r)) (nodes s)" "spt_origin s' = spt_origin s" "kept h' (heap s')"
    using garbage_collect_result [OF ok'] by auto
  note live = collected_node [OF comp ann gc]
  have names: "length (heap s') = length h" "v < length h \<Longrightarrow> nodename (heap s' ! v) = nodename (h ! v)" for v
    using s'(3) ann by (simp_all add: kept_def all_announced_def)
  have valid: "valid (h' ! r) = valid (heap s ! r)" if "(k, r) \<in> set (nodes s)" for k r
    using ann node_fields(1) [OF ok that] sg by (simp add: all_announced_def)
  have "announced s' k = new_table s org h k" for k
  proof (cases "find_node s' k")
    case None
    have "r \<noteq> org \<and> \<not> valid (heap s ! r)" if f: "find_node s k = Some r" for r
    proof -
      have "valid (h' ! r) = valid (heap s ! r)" using f valid by (simp add: find_node_Some [OF ok])
      moreover have "find_node (s\<lparr> heap := h' \<rparr>) k = Some r" using f by (simp add: find_node_def)
      ultimately show ?thesis
        using None find_node_collected [OF ok', of s' k] s'(1) computedD(4) [OF comp] by (auto split: if_splits)
    qed
    with None show ?thesis by (simp add: announced_def new_table_def split: option.split)
  next
    case (Some r)
    then have m: "(k, r) \<in> set (nodes s')" using spt_ok_collected [OF ok' gc] by (simp add: find_node_Some)
    note n = node_fields [OF ok live(1) [OF m]]
    have "announced s' k = route h (previous (heap s' ! r))"
      using Some route_same_names [OF names live(4) [OF m]] by (simp add: announced_def)
    with live(2,3) [OF m] n route_previous [OF comp n(4)] show ?thesis by (auto simp: new_table_def announced_def)
  qed
  moreover have "history_ok s'" using live(4) first_in_range_len [OF names(1)] by (auto simp: history_ok_def graph_node)
  ultimately show ?thesis using gc s'(2) spt_ok_collected [OF ok' gc] by blast
qed

lemma new_table_shortest:
  assumes "computed s org h"
  shows "shortest_table s org (announced s) (new_table s org h)"
proof -
  note ok = computedD(1) [OF assms]
  have "route_ok s org r (route h (current (h ! r)))" if "find_node s k = Some r" "r \<noteq> org" "valid (heap s ! r)" for k r
    using that node_fields(4) [OF ok] by (intro path_ok_route computedD(2,6) [OF assms]) (auto simp: find_node_Some [OF ok])
  then show ?thesis by (auto simp: shortest_table_def new_table_def split: option.split)
qed

lemma compute_result:
  assumes "spt_ok s" "metrics_ok s M" "inj addr" "spt_origin s = Some org" "org \<in> graph_nodes s" "valid (heap s ! org)" "history_ok s"
  shows "\<exists>s' cs. compute addr s = Inr (s', cs, True) \<and> spt_ok s' \<and> history_ok s'
    \<and> announced s' = fold apply_cmd cs (announced s) \<and> shortest_table s org (announced s) (announced s')"
proof -
  obtain h where h: "dijkstra addr s = Inr (s\<lparr> heap := h \<rparr>, True)" and comp: "computed s org h"
    using dijkstra_result [OF assms(1-5)] assms by (auto simp: computed_def)
  obtain h' cs where d: "delta_loop (Some org) (nodes s) h = Inr (h', cs)" "all_announced s org h h'"
      "fold apply_cmd cs (announced s) = new_table s org h"
    using announce_all [OF comp] by blast
  obtain s' where s': "spt_garbage_collect (s\<lparr> heap := h' \<rparr>) = Inr s'" "spt_ok s'" "history_ok s'" "announced s' = new_table s org h"
    using collect_announced [OF comp d(2)] by blast
  have "compute addr s = Inr (s', cs, True)" using h d(1) s'(1) assms(4) by (simp add: compute_def)
  with s' d(3) new_table_shortest [OF comp] show ?thesis by auto
qed

subsection \<open>Operations between computations\<close>

text \<open>An operation keeps the names and the announced paths of the nodes; the nodes it adds have none.\<close>

definition grows :: "'a spt \<Rightarrow> 'a spt \<Rightarrow> bool" where
  "grows s s' \<longleftrightarrow> length (heap s) \<le> length (heap s')
     \<and> (\<forall>v < length (heap s). nodename (heap s' ! v) = nodename (heap s ! v) \<and> previous (heap s' ! v) = previous (heap s ! v))
     \<and> set (nodes s) \<subseteq> set (nodes s')
     \<and> (\<forall>(k, r) \<in> set (nodes s') - set (nodes s). \<not> path_valid (previous (heap s' ! r)))"

lemma grows_refl [simp]: "grows s s"
  by (simp add: grows_def)

lemma grows_upd:
  assumes "nodename (f (heap s ! r)) = nodename (heap s ! r)" "previous (f (heap s ! r)) = previous (heap s ! r)"
  shows "grows s (s\<lparr> heap := upd r f (heap s) \<rparr>)"
proof -
  have "nodename (upd r f (heap s) ! v) = nodename (heap s ! v) \<and> previous (upd r f (heap s) ! v) = previous (heap s ! v)"
    if "v < length (heap s)" for v
    using assms that by (cases "v = r") (simp_all add: upd_def)
  then show ?thesis by (simp add: grows_def)
qed

lemma grows_new_node:
  assumes "spt_ok s" "find_node s n = None"
  shows "grows s (s\<lparr> heap := heap s @ [Node n], nodes := om_insert n (length (heap s)) (nodes s) \<rparr>)"
  using assms set_om_insert_new [OF spt_okD(1) [OF assms(1)], of n "length (heap s)"]
  by (auto simp: grows_def find_node_def nth_append Node_def no_path_def)

lemma grows_trans:
  assumes "grows s s1" "spt_ok s1" "grows s1 s2"
  shows "grows s s2"
proof -
  have "\<not> path_valid (previous (heap s2 ! r))" if "(k, r) \<in> set (nodes s2)" "(k, r) \<notin> set (nodes s)" for k r
  proof (cases "(k, r) \<in> set (nodes s1)")
    case True
    with assms that(2) spt_okD(2) [OF assms(2) True] show ?thesis unfolding grows_def by fastforce
  next
    case False
    with assms(3) that(1) show ?thesis unfolding grows_def by fastforce
  qed
  with assms(1,3) show ?thesis unfolding grows_def by auto
qed

lemma grows_announced:
  assumes "grows s s'" "spt_ok s" "spt_ok s'" "history_ok s"
  shows "announced s' = announced s" "history_ok s'"
proof -
  have old: "route (heap s') (previous (heap s' ! r)) = route (heap s) (previous (heap s ! r))"
    "first_in_range (heap s') (previous (heap s' ! r))" if "(k, r) \<in> set (nodes s)" for k r
  proof -
    have "r < length (heap s)" "first_in_range (heap s) (previous (heap s ! r))"
      using spt_okD(2) [OF assms(2) that] assms(4) that by (auto simp: history_ok_def graph_node)
    with assms(1) show "route (heap s') (previous (heap s' ! r)) = route (heap s) (previous (heap s ! r))"
      "first_in_range (heap s') (previous (heap s' ! r))"
      by (auto simp: grows_def route_def first_in_range_def)
  qed
  have new: "\<not> path_valid (previous (heap s' ! r))" if "(k, r) \<in> set (nodes s')" "(k, r) \<notin> set (nodes s)" for k r
    using assms(1) that by (auto simp: grows_def)
  have sub: "find_node s k = Some r \<Longrightarrow> find_node s' k = Some r" for k r
    using assms(1) by (auto simp: find_node_Some assms(2,3) grows_def)
  have "announced s' k = announced s k" for k
  proof (cases "find_node s k")
    case None
    then have "(k, r) \<notin> set (nodes s)" for r using assms(2) by (metis find_node_Some option.distinct(1))
    with None new show ?thesis using assms(3) by (auto simp: announced_def find_node_Some route_def split: option.split)
  next
    case (Some r)
    then have "(k, r) \<in> set (nodes s)" by (simp add: find_node_Some [OF assms(2)])
    from Some sub [OF Some] old(1) [OF this] show ?thesis by (simp add: announced_def)
  qed
  then show "announced s' = announced s" by blast
  show "history_ok s'" using old(2) new by (fastforce simp: history_ok_def graph_node first_in_range_def)
qed

text \<open>What an operation on the graph promises, and what its client concludes.\<close>

locale spt_operation =
  fixes op :: "'a :: linorder spt \<Rightarrow> ('a spt \<times> bool) res"
  assumes op_ok: "spt_ok s \<Longrightarrow> \<exists>s' b. op s = Inr (s', b) \<and> spt_ok s' \<and> grows s s'"
begin

lemma keeps_table:
  assumes "op s = Inr (s', b)" "spt_ok s" "history_ok s"
  shows "spt_ok s' \<and> history_ok s' \<and> announced s' = announced s"
proof -
  have "spt_ok s'" "grows s s'" using op_ok [OF assms(2)] assms(1) by auto
  with grows_announced [OF _ assms(2) _ assms(3)] show ?thesis by blast
qed

end

lemma add_node_grows: "spt_ok s \<Longrightarrow> add_node n s = Inr (s', b) \<Longrightarrow> grows s s'"
  by (auto simp: add_node_def grows_new_node split: option.splits if_splits intro!: grows_upd)

lemma remove_node_grows: "remove_node n s = Inr (s', b) \<Longrightarrow> grows s s'"
  by (auto simp: remove_node_def split: option.splits if_splits intro!: grows_upd)

lemma node_add_edge_grows: "node_add_edge r n w (heap s) = Inr (h, b) \<Longrightarrow> grows s (s\<lparr> heap := h \<rparr>)"
  by (auto simp: node_add_edge_def split: if_splits intro!: grows_upd)

lemma add_edge_grows:
  assumes "spt_ok s" "add_edge a w c s = Inr (s', b)"
  shows "grows s s'"
proof -
  have add: "grows s s1" "spt_ok s1" if "add_node c s = Inr (s1, ok)" for s1 ok
    using that add_node_ok [OF assms(1), of c] add_node_grows [OF assms(1), of c s1 ok] by auto
  show ?thesis
    using assms by (auto simp: add_edge_def split: option.splits if_splits
      intro: add(1) grows_trans [OF add(1) add(2) node_add_edge_grows] node_add_edge_grows)
qed

lemma update_edge_weight_grows: "update_edge_weight a w c s = Inr (s', b) \<Longrightarrow> grows s s'"
  by (auto simp: update_edge_weight_def node_update_edge_weight_def split: option.splits if_splits intro!: grows_upd)

lemma remove_edge_grows: "remove_edge a c s = Inr (s', b) \<Longrightarrow> grows s s'"
  by (auto simp: remove_edge_def node_remove_edge_def split: option.splits if_splits intro!: grows_upd)

interpretation add_node_op: spt_operation "add_node n" for n
  by unfold_locales (metis add_node_ok add_node_grows)

interpretation update_node_op: spt_operation "update_node n" for n
  by unfold_locales (metis update_node_ok grows_refl)

interpretation remove_node_op: spt_operation "remove_node n" for n
  by unfold_locales (metis remove_node_ok remove_node_grows)

interpretation add_edge_op: spt_operation "add_edge a w c" for a w c
  by unfold_locales (metis add_edge_ok add_edge_grows)

interpretation update_edge_weight_op: spt_operation "update_edge_weight a w c" for a w c
  by unfold_locales (metis update_edge_weight_ok update_edge_weight_grows)

interpretation remove_edge_op: spt_operation "remove_edge a c" for a c
  by unfold_locales (metis remove_edge_ok remove_edge_grows)

subsection \<open>An \<open>Spt\<close> and its client\<close>

datatype 'a spt_op = Add_node 'a | Update_node 'a | Remove_node 'a | Add_edge 'a int 'a
  | Update_edge_weight 'a int 'a | Remove_edge 'a 'a | Set_origin 'a

fun run_op :: "'a :: linorder spt_op \<Rightarrow> 'a spt \<Rightarrow> ('a spt \<times> bool) res" where
  "run_op (Add_node n) s = add_node n s"
| "run_op (Update_node n) s = update_node n s"
| "run_op (Remove_node n) s = remove_node n s"
| "run_op (Add_edge a w c) s = add_edge a w c s"
| "run_op (Update_edge_weight a w c) s = update_edge_weight a w c s"
| "run_op (Remove_edge a c) s = remove_edge a c s"
| "run_op (Set_origin n) s = Inr (set_origin n s)"

interpretation any_op: spt_operation "run_op x" for x :: "'a :: linorder spt_op"
proof
  fix s :: "'a spt" assume ok: "spt_ok s"
  have "grows s (fst (set_origin n s))" for n by (simp add: set_origin_def grows_def split: option.split)
  with spt_ok_set_origin [OF ok] have origin: "\<exists>s' b. set_origin n s = (s', b) \<and> spt_ok s' \<and> grows s s'" for n
    by (metis prod.collapse)
  show "\<exists>s' b. run_op x s = Inr (s', b) \<and> spt_ok s' \<and> grows s s'"
    using origin add_node_op.op_ok [OF ok] update_node_op.op_ok [OF ok] remove_node_op.op_ok [OF ok]
      add_edge_op.op_ok [OF ok] update_edge_weight_op.op_ok [OF ok] remove_edge_op.op_ok [OF ok]
    by (cases x) simp_all
qed

text \<open>
  The states of an \<open>Spt\<close> with the client's table: any operation in any order, and computations while the
  origin is a node of the graph and the metrics are bounded.
\<close>

inductive spt_client :: "(node_ref \<Rightarrow> nat) \<Rightarrow> 'a :: linorder spt \<Rightarrow> 'a table \<Rightarrow> bool" for addr where
  client_start: "spt_client addr Spt (\<lambda>k. None)"
| client_op: "spt_client addr s T \<Longrightarrow> run_op x s = Inr (s', b) \<Longrightarrow> spt_client addr s' T"
| client_compute: "spt_client addr s T \<Longrightarrow> metrics_ok s M \<Longrightarrow> spt_origin s = Some org \<Longrightarrow> org \<in> graph_nodes s
    \<Longrightarrow> valid (heap s ! org) \<Longrightarrow> compute addr s = Inr (s', cs, b) \<Longrightarrow> spt_client addr s' (fold apply_cmd cs T)"

lemma spt_client_inv:
  assumes "spt_client addr s T" "inj addr"
  shows "spt_ok s \<and> history_ok s \<and> T = announced s"
  using assms(1)
proof induction
  case client_start
  show ?case using spt_ok_Spt by (simp add: history_ok_def announced_def graph_nodes_def find_node_def fun_eq_iff Spt_def)
next
  case (client_op s T x s' b)
  then show ?case using any_op.keeps_table [of x s s' b] by simp
next
  case (client_compute s T M org s' cs b)
  then show ?case using compute_result [of s M addr org] assms(2) by auto
qed

text \<open>
  C3: After any sequence of operations and computations, a computation of an \<open>Spt\<close> whose origin is a node of
  the graph succeeds (no assertion fails, no weight overflows) and its route commands turn the client's
  table into the table of shortest paths: no entry for the nodes that are gone or that no path
  leads to, and for every other node but the origin the length of a shortest path and a neighbour
  of the origin that starts one.
\<close>

theorem compute_gives_shortest_paths:
  assumes "spt_client addr s T" "inj addr" "metrics_ok s M"
    and "spt_origin s = Some org" "org \<in> graph_nodes s" "valid (heap s ! org)"
  shows "\<exists>s' cs. compute addr s = Inr (s', cs, True) \<and> shortest_table s org T (fold apply_cmd cs T)
    \<and> spt_client addr s' (fold apply_cmd cs T)"
proof -
  have inv: "spt_ok s" "history_ok s" "T = announced s" using spt_client_inv [OF assms(1,2)] by blast+
  obtain s' cs where "compute addr s = Inr (s', cs, True)" "shortest_table s org T (fold apply_cmd cs T)"
    using compute_result [OF inv(1) assms(3,2,4-6) inv(2)] inv(3) by auto
  with client_compute [OF assms(1,3-6)] show ?thesis by blast
qed

text \<open>A triangle: the direct edge to the node 3 is longer than the way through the node 2.\<close>

fun run_ops :: "'a :: linorder spt_op list \<Rightarrow> 'a spt \<Rightarrow> 'a spt res" where
  "run_ops [] s = Inr s"
| "run_ops (x # xs) s = res_bind (run_op x s) (\<lambda>(s, b). run_ops xs s)"

lemma spt_client_ops: "spt_client addr s T \<Longrightarrow> run_ops xs s = Inr s' \<Longrightarrow> spt_client addr s' T"
  by (induction xs arbitrary: s) (auto intro: client_op)

definition triangle :: "nat spt" where
  "triangle = \<lparr> heap = [(Node 1)\<lparr> adjacencies := [(2, 1, 10), (3, 2, 50)] \<rparr>, (Node 2)\<lparr> adjacencies := [(3, 2, 20)] \<rparr>, Node 3],
     nodes = [(1, 0), (2, 1), (3, 2)], spt_origin = Some 0 \<rparr>"

lemma triangle_built:
  "run_ops [Add_node 1, Set_origin 1, Add_edge 1 10 2, Add_edge 1 50 3, Add_edge 2 20 3] Spt = Inr triangle"
  by (simp add: Spt_def set_origin_def add_node_def add_edge_def node_add_edge_def find_node_def deref_def upd_def triangle_def Node_def)

theorem compute_gives_shortest_paths_witness:
  "\<exists>s' cs. compute id triangle = Inr (s', cs, True) \<and> shortest_table triangle 0 (\<lambda>k. None) (fold apply_cmd cs (\<lambda>k. None))"
proof -
  have "spt_client id triangle (\<lambda>k. None)" by (rule spt_client_ops [OF client_start triangle_built])
  moreover have "metrics_ok triangle 50" by (simp add: metrics_ok_def graph_nodes_def triangle_def Node_def)
  ultimately show ?thesis
    using compute_gives_shortest_paths [of id triangle "\<lambda>k. None" 50 0] by (auto simp: triangle_def graph_nodes_def Node_def)
qed

end
