(* ===== verification/Spt_Clear.thy ===== *)
theory Spt_Clear
  imports Spt_Client
begin

text \<open>
  \<open>Spt::clear\<close>, which the destructor runs: it clears the nodes and takes out of the graph those that
  nothing else refers to, until the graph is empty. \<open>ref_ptr\<close> counts the references to an object
  and destroys it when there are none; the destruction of objects that nothing refers to is put
  off here to the places where the count is looked at.
\<close>

subsection \<open>Reference counts\<close>

definition opt_list :: "'b option \<Rightarrow> 'b list" where
  "opt_list x = (case x of None \<Rightarrow> [] | Some y \<Rightarrow> [y])"

definition node_refs :: "'a spt_node \<Rightarrow> node_ref list" where
  "node_refs x = map (fst \<circ> snd) (adjacencies x) @ opt_list (first_hop (current x)) @ opt_list (last_hop (current x))
     @ opt_list (first_hop (previous x)) @ opt_list (last_hop (previous x))"

definition ref_count :: "'a spt \<Rightarrow> node_ref \<Rightarrow> nat" where
  "ref_count s r = count_list (map snd (nodes s)) r + (if spt_origin s = Some r then 1 else 0)
     + sum_list (map (\<lambda>x. count_list (node_refs x) r) (heap s))"

definition unref :: "node_ref \<Rightarrow> 'a spt \<Rightarrow> 'a spt" where
  "unref r s = (if ref_count s r = 0 then s\<lparr> heap := clear_node r (heap s) \<rparr> else s)"

definition sweep :: "'a spt \<Rightarrow> 'a spt" where
  "sweep s = (fold unref [0..<length (heap s)] ^^ length (heap s)) s"

subsection \<open>The loop\<close>

fun clear_pass :: "('a \<times> node_ref) list \<Rightarrow> 'a spt \<Rightarrow> 'a spt" where
  "clear_pass [] s = s"
| "clear_pass ((k, r) # ns) s = (let s = sweep (s\<lparr> heap := clear_node r (heap s) \<rparr>) in
     clear_pass ns (if ref_count s r = 1 then s\<lparr> nodes := om_erase k (nodes s) \<rparr> else s))"

partial_function (option) clear_loop :: "'a spt \<Rightarrow> 'a spt option" where
  "clear_loop s = (if nodes s = [] then Some s else clear_loop (clear_pass (nodes s) s))"

definition Spt_clear :: "'a spt \<Rightarrow> 'a spt option" where
  "Spt_clear s = clear_loop (sweep (s\<lparr> spt_origin := None \<rparr>))"

subsection \<open>What the passes keep\<close>

lemma node_refs_clear: "r < length h \<Longrightarrow> node_refs (clear_node r h ! v) = (if v = r then [] else node_refs (h ! v))"
  by (simp add: clear_node_def nth_upd node_refs_def opt_list_def)

lemma length_clear [simp]: "length (clear_node r h) = length h"
  by (simp add: clear_node_def)

lemma count_list_ge1: "x \<in> set xs \<Longrightarrow> 1 \<le> count_list xs x"
  by (metis count_list_0_iff less_one not_le)

lemma count_list_distinct: "distinct xs \<Longrightarrow> x \<in> set xs \<Longrightarrow> count_list xs x = 1"
  by (induction xs) (auto simp: count_list_0_iff)

lemma heap_refs_ge:
  "v < length h \<Longrightarrow> r \<in> set (node_refs (h ! v)) \<Longrightarrow> 1 \<le> sum_list (map (\<lambda>x. count_list (node_refs x) r) h)"
proof -
  assume v: "v < length h" and r: "r \<in> set (node_refs (h ! v))"
  have "count_list (node_refs (h ! v)) r \<le> sum_list (map (\<lambda>x. count_list (node_refs x) r) h)"
    using v by (intro member_le_sum_list) auto
  with count_list_ge1 [OF r] show ?thesis by linarith
qed

text \<open>
  A leak: an object that is not in the graph refers to itself and to a node of the graph. It is
  never destroyed, so its reference stays.
\<close>

definition leak :: "node_ref \<Rightarrow> 'a \<Rightarrow> node_ref \<Rightarrow> 'a spt \<Rightarrow> bool" where
  "leak v k r s \<longleftrightarrow> v < length (heap s) \<and> v \<notin> graph_nodes s \<and> (\<forall>r'. (k, r') \<in> set (nodes s) \<longleftrightarrow> r' = r)
     \<and> v \<in> set (node_refs (heap s ! v)) \<and> r \<in> set (node_refs (heap s ! v))"

lemma leak_clear_node:
  assumes "leak v k r s" "n \<noteq> v"
  shows "leak v k r (s\<lparr> heap := clear_node n (heap s) \<rparr>)"
  using assms by (auto simp: leak_def graph_nodes_def clear_node_def upd_def)

lemma leak_ref_count:
  assumes "leak v k r s"
  shows "1 \<le> ref_count s v" "2 \<le> ref_count s r"
proof -
  show "1 \<le> ref_count s v" using assms heap_refs_ge [of v "heap s" v] by (simp add: leak_def ref_count_def)
  have "1 \<le> count_list (map snd (nodes s)) r" using assms by (intro count_list_ge1) (force simp: leak_def)
  with assms heap_refs_ge [of v "heap s" r] show "2 \<le> ref_count s r" by (simp add: leak_def ref_count_def)
qed

lemma leak_unref:
  assumes "leak v k r s"
  shows "leak v k r (unref n s)"
proof (cases "ref_count s n = 0")
  case True
  with leak_ref_count(1) [OF assms] have "n \<noteq> v" by auto
  with True leak_clear_node [OF assms] show ?thesis by (simp add: unref_def)
qed (use assms in \<open>simp add: unref_def\<close>)

lemma leak_sweep:
  assumes "leak v k r s"
  shows "leak v k r (sweep s)"
proof -
  have one: "leak v k r s \<Longrightarrow> leak v k r (fold unref ns s)" for ns s
    by (induction ns arbitrary: s) (simp_all add: leak_unref)
  have "leak v k r ((fold unref ns ^^ n) s)" for ns n
    using assms by (induction n) (simp_all add: one)
  then show ?thesis by (simp add: sweep_def)
qed

lemma leak_erase:
  assumes "leak v k r s" "k' \<noteq> k"
  shows "leak v k r (s\<lparr> nodes := om_erase k' (nodes s) \<rparr>)"
  using assms by (auto simp: leak_def graph_nodes_def om_erase_def)

lemma leak_pass:
  assumes "leak v k r s" "\<forall>(k', r') \<in> set ns. r' \<noteq> v \<and> (k' = k \<longrightarrow> r' = r)"
  shows "leak v k r (clear_pass ns s)"
  using assms
proof (induction ns arbitrary: s)
  case (Cons x ns)
  obtain k' r' where x: "x = (k', r')" by (cases x)
  let ?s = "sweep (s\<lparr> heap := clear_node r' (heap s) \<rparr>)"
  have leak: "leak v k r ?s" using Cons.prems by (intro leak_sweep leak_clear_node) (auto simp: x)
  define s1 where "s1 = (if ref_count ?s r' = 1 then ?s\<lparr> nodes := om_erase k' (nodes ?s) \<rparr> else ?s)"
  have "k' \<noteq> k" if "ref_count ?s r' = 1"
  proof
    assume "k' = k"
    with Cons.prems(2) have "r' = r" by (simp add: x)
    with that leak_ref_count(2) [OF leak] show False by simp
  qed
  then have "leak v k r s1" using leak leak_erase [OF leak] by (simp add: s1_def)
  moreover have "clear_pass (x # ns) s = clear_pass ns s1" by (simp add: x s1_def Let_def)
  ultimately show ?case using Cons.IH Cons.prems(2) by simp
qed simp

lemma leak_loop:
  assumes "clear_loop s = Some s'"
  shows "\<not> leak v k r s"
proof (rule clear_loop.raw_induct [OF _ assms, of "\<lambda>s s'. \<not> leak v k r s"], goal_cases)
  case (1 f s s')
  show ?case
  proof
    assume leak: "leak v k r s"
    then have "(k, r) \<in> set (nodes s)" by (auto simp: leak_def)
    then have "nodes s \<noteq> []" by auto
    then have "\<not> leak v k r (clear_pass (nodes s) s)" using 1 by auto
    moreover have "\<forall>(k', r') \<in> set (nodes s). r' \<noteq> v \<and> (k' = k \<longrightarrow> r' = r)"
      using leak by (auto simp: leak_def graph_nodes_def image_iff)
    ultimately show False using leak_pass [OF leak] by blast
  qed
qed

text \<open>
  C38: \<open>Spt::clear\<close>, and with it the destructor, does not return when an object that was taken out of
  the graph still refers to itself and to a node of the graph. A neighbour of the origin is its own
  first hop, so a removed neighbour whose incoming edges were removed before is such an object.
\<close>

theorem clear_never_returns:
  assumes "leak v k r s"
  shows "Spt_clear s = None"
proof -
  have "leak v k r (s\<lparr> spt_origin := None \<rparr>)" using assms by (simp add: leak_def graph_nodes_def)
  from leak_sweep [OF this] show ?thesis unfolding Spt_clear_def by (cases "clear_loop (sweep (s\<lparr> spt_origin := None \<rparr>))") (auto dest: leak_loop)
qed

text \<open>Two routers with edges in both directions; the edge to the neighbour of the origin is removed, then the neighbour.\<close>

definition leak_run :: "(nat spt \<times> nat route_cmd list \<times> bool) res" where
  "leak_run = res_bind (run_ops [Add_node 1, Set_origin 1, Add_edge 1 10 2, Add_edge 2 10 1] Spt) (\<lambda>s.
     res_bind (compute id s) (\<lambda>(s, _). res_bind (run_ops [Remove_edge 1 2, Remove_node 2] s) (compute id)))"

definition leak_state :: "nat spt" where
  "leak_state = \<lparr> heap = [(Node 1)\<lparr> previous := no_path \<rparr>, \<lparr> valid = False, nodename = 2, adjacencies = [(1, 0, 10)], tentative = True,
     current = \<lparr> path_valid = False, first_hop = Some 1, last_hop = Some 0, path_length = 10 \<rparr>,
     previous = \<lparr> path_valid = True, first_hop = Some 1, last_hop = Some 0, path_length = 10 \<rparr> \<rparr>],
     nodes = [(1, 0)], spt_origin = Some 0 \<rparr>"

lemmas spt_run_defs = Spt_def set_origin_def add_node_def add_edge_def node_add_edge_def remove_edge_def node_remove_edge_def
  remove_node_def find_node_def deref_def upd_def Node_def no_path_def om_erase_def compute_def dijkstra_def
  init_dijkstra_def set_tentative_def dijkstra_loop.simps set_adjacent_weights_def pq_add_def tent_insert_def tent_erase_def
  set_local_weight_def get_local_weight_def lweight_def add_int_def make_permanent_def get_last_hop_def get_first_hop_def
  set_first_hop_def delta_def hop_name_def delete_cmd_def spt_garbage_collect_def clear_node_def Let_def

lemma leak_run_state: "leak_run = Inr (leak_state, [delete_cmd 2], True)"
  by (simp add: leak_run_def leak_state_def spt_run_defs)

theorem clear_never_returns_witness:
  "leak_run = Inr (leak_state, [delete_cmd 2], True) \<and> Spt_clear leak_state = None"
proof -
  have "leak 1 1 0 leak_state"
    by (auto simp: leak_def leak_state_def graph_nodes_def node_refs_def opt_list_def)
  then show ?thesis using clear_never_returns [of 1 1 0 leak_state] leak_run_state by simp
qed

subsection \<open>Termination\<close>

definition shrinks :: "'a spt_node list \<Rightarrow> 'a spt_node list \<Rightarrow> bool" where
  "shrinks h h' \<longleftrightarrow> length h' = length h \<and> (\<forall>v < length h. set (node_refs (h' ! v)) \<subseteq> set (node_refs (h ! v)))"

lemma shrinks_trans: "shrinks h h1 \<Longrightarrow> shrinks h1 h2 \<Longrightarrow> shrinks h h2"
  by (force simp: shrinks_def)

lemma shrinks_clear_node: "shrinks h (clear_node r h)"
proof (cases "r < length h")
  case True
  then show ?thesis by (simp add: shrinks_def node_refs_clear)
qed (simp add: shrinks_def clear_node_def upd_def list_update_beyond)

lemma sweep_keeps: "shrinks (heap s) (heap (sweep s)) \<and> nodes (sweep s) = nodes s \<and> spt_origin (sweep s) = spt_origin s"
proof -
  have one: "shrinks (heap s) (heap (fold unref ns s)) \<and> nodes (fold unref ns s) = nodes s \<and> spt_origin (fold unref ns s) = spt_origin s" for ns and s :: "'a spt"
  proof (induction ns arbitrary: s)
    case (Cons n ns)
    have "shrinks (heap s) (heap (unref n s)) \<and> nodes (unref n s) = nodes s \<and> spt_origin (unref n s) = spt_origin s"
      using shrinks_clear_node [of "heap s" n] by (simp add: unref_def shrinks_def)
    with Cons.IH [of "unref n s"] show ?case by (auto intro: shrinks_trans)
  qed (simp add: shrinks_def)
  have "shrinks (heap s) (heap ((fold unref ns ^^ n) s)) \<and> nodes ((fold unref ns ^^ n) s) = nodes s
    \<and> spt_origin ((fold unref ns ^^ n) s) = spt_origin s" for ns n
  proof (induction n)
    case (Suc n)
    then show ?case using one [of "(fold unref ns ^^ n) s" ns] by (auto intro: shrinks_trans)
  qed (simp add: shrinks_def)
  then show ?thesis by (simp add: sweep_def)
qed

text \<open>The graph nodes of \<open>D\<close> are cleared, and nothing outside of the graph \<open>G\<close> refers into it.\<close>

definition clearing :: "node_ref set \<Rightarrow> node_ref set \<Rightarrow> 'a spt \<Rightarrow> bool" where
  "clearing G D s \<longleftrightarrow> spt_origin s = None \<and> distinct (map fst (nodes s)) \<and> distinct (map snd (nodes s)) \<and> graph_nodes s \<subseteq> G
     \<and> (\<forall>v < length (heap s). v \<in> D \<or> v \<notin> G \<longrightarrow> set (node_refs (heap s ! v)) \<inter> G = {}) \<and> (\<forall>v \<in> G. v < length (heap s))"

lemma clearing_shrinks:
  assumes "clearing G D s" "shrinks (heap s) h"
  shows "clearing G D (s\<lparr> heap := h \<rparr>)"
proof -
  have "set (node_refs (h ! v)) \<inter> G = {}" if "v < length (heap s)" "v \<in> D \<or> v \<notin> G" for v
    using assms that unfolding clearing_def shrinks_def by blast
  with assms show ?thesis by (simp add: clearing_def shrinks_def graph_nodes_def)
qed

lemma clearing_sweep:
  assumes "clearing G D s"
  shows "clearing G D (sweep s)"
proof -
  have "clearing G D (s\<lparr> heap := heap (sweep s) \<rparr>)" using clearing_shrinks [OF assms] sweep_keeps by blast
  moreover have "s\<lparr> heap := heap (sweep s) \<rparr> = sweep s" using sweep_keeps [of s] by (intro spt.equality) simp_all
  ultimately show ?thesis by simp
qed

lemma clearing_node:
  assumes "clearing G D s" "r \<in> G"
  shows "clearing G (insert r D) (s\<lparr> heap := clear_node r (heap s) \<rparr>)"
  using clearing_shrinks [OF assms(1) shrinks_clear_node, of r] assms
  by (auto simp: clearing_def node_refs_clear)

lemma clearing_erase:
  assumes "clearing G D s"
  shows "clearing G D (s\<lparr> nodes := om_erase k (nodes s) \<rparr>)"
  using assms by (auto simp: clearing_def om_erase_def graph_nodes_def distinct_map_filter)

lemma clearing_pass:
  assumes "clearing G D s" "snd ` set ns \<subseteq> G"
  shows "clearing G (D \<union> snd ` set ns) (clear_pass ns s) \<and> set (nodes (clear_pass ns s)) \<subseteq> set (nodes s)"
  using assms
proof (induction ns arbitrary: s D)
  case (Cons x ns)
  obtain k r where x: "x = (k, r)" by (cases x)
  let ?s = "sweep (s\<lparr> heap := clear_node r (heap s) \<rparr>)"
  define s1 where "s1 = (if ref_count ?s r = 1 then ?s\<lparr> nodes := om_erase k (nodes ?s) \<rparr> else ?s)"
  have s: "clearing G (insert r D) ?s" using Cons.prems by (intro clearing_sweep clearing_node) (auto simp: x)
  then have s1: "clearing G (insert r D) s1" using clearing_erase [OF s, of k] by (simp add: s1_def)
  have "set (nodes s1) \<subseteq> set (nodes s)" using sweep_keeps [of "s\<lparr> heap := clear_node r (heap s) \<rparr>"] by (auto simp: s1_def om_erase_def)
  moreover have "clear_pass (x # ns) s = clear_pass ns s1" by (simp add: x s1_def Let_def)
  ultimately show ?case using Cons.IH [OF s1] Cons.prems(2) by (auto simp: x)
qed simp

lemma ref_count_cleared:
  assumes "clearing G G s" "(k, r) \<in> set (nodes s)"
  shows "ref_count s r = 1"
proof -
  have r: "r \<in> set (map snd (nodes s))" using assms(2) by force
  then have "count_list (map snd (nodes s)) r = 1"
    using assms(1) by (intro count_list_distinct) (simp_all add: clearing_def)
  moreover have "count_list (node_refs x) r = 0" if "x \<in> set (heap s)" for x
  proof -
    obtain v where "v < length (heap s)" "x = heap s ! v" using \<open>x \<in> set (heap s)\<close> by (auto simp: in_set_conv_nth)
    moreover have "r \<in> G" using assms r by (auto simp: clearing_def graph_nodes_def)
    ultimately show ?thesis using assms(1) by (auto simp: clearing_def count_list_0_iff)
  qed
  ultimately show ?thesis using assms(1) by (simp add: ref_count_def clearing_def)
qed

lemma second_pass:
  assumes "clearing G G s" "set ns \<subseteq> set (nodes s)" "distinct (map fst ns)"
  shows "clearing G G (clear_pass ns s) \<and> set (nodes (clear_pass ns s)) = set (nodes s) - set ns"
  using assms
proof (induction ns arbitrary: s)
  case (Cons x ns)
  obtain k r where x: "x = (k, r)" by (cases x)
  have mem: "(k, r) \<in> set (nodes s)" using Cons.prems(2) by (simp add: x)
  let ?s = "sweep (s\<lparr> heap := clear_node r (heap s) \<rparr>)"
  have nodes: "nodes ?s = nodes s" using sweep_keeps [of "s\<lparr> heap := clear_node r (heap s) \<rparr>"] by simp
  have "r \<in> G" using Cons.prems(1) mem by (force simp: clearing_def graph_nodes_def)
  then have s1: "clearing G G ?s" using clearing_sweep [OF clearing_node [OF Cons.prems(1), of r]] by (simp add: insert_absorb)
  have "ref_count ?s r = 1" using mem nodes by (intro ref_count_cleared [OF s1]) simp
  then have step: "clear_pass (x # ns) s = clear_pass ns (?s\<lparr> nodes := om_erase k (nodes ?s) \<rparr>)" by (simp add: x Let_def)
  have key: "x' \<in> set (nodes s) \<Longrightarrow> fst x' = k \<longleftrightarrow> x' = x" for x'
    using Cons.prems(1) mem by (cases x') (auto simp: clearing_def x dest: eq_key_imp_eq_value)
  have erase: "set (om_erase k (nodes ?s)) = set (nodes s) - {x}" using key by (auto simp: om_erase_def nodes)
  have "set ns \<subseteq> set (nodes (?s\<lparr> nodes := om_erase k (nodes ?s) \<rparr>))"
    using Cons.prems(2,3) by (force simp: erase x)
  from Cons.IH [OF clearing_erase [OF s1] this] Cons.prems(3) show ?case unfolding step by (auto simp: erase)
qed simp

text \<open>
  C39: \<open>Spt::clear\<close> returns with an empty graph when no object outside of the graph refers to a node of the
  graph, so in particular when no node was ever removed: it takes at most two passes, the first of
  which clears every node.
\<close>

theorem clear_returns:
  assumes "spt_ok s" "\<forall>v < length (heap s). v \<notin> graph_nodes s \<longrightarrow> set (node_refs (heap s ! v)) \<inter> graph_nodes s = {}"
  shows "\<exists>s'. Spt_clear s = Some s' \<and> nodes s' = [] \<and> spt_origin s' = None"
proof -
  let ?G = "graph_nodes s"
  have "clearing ?G {} (s\<lparr> spt_origin := None \<rparr>)"
    using assms distinct_refs [OF assms(1)] om_ok_distinct [OF spt_okD(1) [OF assms(1)]] spt_okD(2) [OF assms(1)]
    by (auto simp: clearing_def graph_nodes_def)
  then have s0: "clearing ?G {} (sweep (s\<lparr> spt_origin := None \<rparr>))" (is "clearing _ _ ?s0") by (rule clearing_sweep)
  have n0: "nodes ?s0 = nodes s" using sweep_keeps [of "s\<lparr> spt_origin := None \<rparr>"] by simp
  define s1 where "s1 = clear_pass (nodes s) ?s0"
  have s1: "clearing ?G ?G s1" using clearing_pass [OF s0, of "nodes s"] by (simp add: s1_def graph_nodes_def)
  have first: "Spt_clear s = (if nodes s = [] then Some ?s0 else clear_loop s1)"
    by (simp add: Spt_clear_def clear_loop.simps [of ?s0] n0 s1_def)
  define s2 where "s2 = clear_pass (nodes s1) s1"
  have s2: "clearing ?G ?G s2" "nodes s2 = []"
    using second_pass [OF s1 order.refl] s1 by (auto simp: s2_def clearing_def)
  have "clear_loop s1 = (if nodes s1 = [] then Some s1 else Some s2)"
    by (simp add: clear_loop.simps [of s1] clear_loop.simps [of s2] s2_def [symmetric] s2(2))
  with first s0 s1 s2 n0 show ?thesis by (auto simp: clearing_def)
qed

theorem clear_returns_witness: "\<exists>s'. Spt_clear triangle = Some s' \<and> nodes s' = [] \<and> spt_origin s' = None"
proof (rule clear_returns)
  show "spt_ok triangle"
    using spt_client_inv [OF spt_client_ops [OF client_start [of id] triangle_built]] by simp
  show "\<forall>v < length (heap triangle). v \<notin> graph_nodes triangle \<longrightarrow> set (node_refs (heap triangle ! v)) \<inter> graph_nodes triangle = {}"
    by (auto simp: triangle_def graph_nodes_def less_Suc_eq numeral_3_eq_3)
qed

end
