(* ===== verification/Checksum.thy ===== *)
theory Checksum
  imports Xorp_Prelude
begin

text \<open>
  The Internet checksum of \<open>libproto/checksum.c\<close> and what it promises: it is the complement of the
  one's complement sum of the 16-bit words of the buffer, a buffer that contains its checksum
  sums up to zero, and checksums of parts can be added.
\<close>

subsection \<open>The code\<close>

definition bswap16 :: "u16 \<Rightarrow> u16" where
  "bswap16 w = push_bit 8 w OR drop_bit 8 w"

abbreviation htons :: "u16 \<Rightarrow> u16" where "htons \<equiv> bswap16"
abbreviation ntohs :: "u16 \<Rightarrow> u16" where "ntohs \<equiv> bswap16"

fun checksum_loop :: "u32 \<Rightarrow> u8 list \<Rightarrow> u32" where
  "checksum_loop acc (a # b # w) = checksum_loop (acc + (push_bit 8 (ucast a) OR ucast b)) w"
| "checksum_loop acc [a] = acc + push_bit 8 (ucast a)"
| "checksum_loop acc [] = acc"

definition add_carries :: "u32 \<Rightarrow> u32" where
  "add_carries acc = (let acc = drop_bit 16 acc + (acc AND 0xffff) in acc + drop_bit 16 acc)"

definition inet_checksum :: "u8 list \<Rightarrow> u16" where
  "inet_checksum bs = htons (ucast (NOT (add_carries (checksum_loop 0 bs))))"

definition inet_checksum_add :: "u16 \<Rightarrow> u16 \<Rightarrow> u16" where
  "inet_checksum_add sum1 sum2 = ucast (NOT (add_carries (ucast (NOT sum1) + ucast (NOT sum2))))"

subsection \<open>One's complement sums\<close>

text \<open>The sum of the big-endian 16-bit words, the last one padded with a zero byte, and its remainder in 1 to 65535.\<close>

fun sum16 :: "u8 list \<Rightarrow> nat" where
  "sum16 (a # b # w) = 256 * unat a + unat b + sum16 w"
| "sum16 [a] = 256 * unat a"
| "sum16 [] = 0"

definition ones_sum :: "nat \<Rightarrow> nat" where
  "ones_sum n = (if n = 0 then 0 else (n - 1) mod 65535 + 1)"

lemma ones_sum_le: "ones_sum n \<le> 65535"
proof -
  have "(n - 1) mod 65535 < 65535" by simp
  then show ?thesis unfolding ones_sum_def by auto
qed

lemma ones_sum_cong: "ones_sum n mod 65535 = n mod 65535"
  by (cases n) (auto simp: ones_sum_def mod_Suc)

lemma ones_sum_0_iff [simp]: "ones_sum n = 0 \<longleftrightarrow> n = 0"
  by (simp add: ones_sum_def)

lemma ones_sum_pos_iff [simp]: "0 < ones_sum n \<longleftrightarrow> 0 < n"
  by (simp add: ones_sum_def)

lemma ones_sum_split: "\<exists>q. n = 65535 * q + ones_sum n"
proof (cases "n = 0")
  case False
  have "n = 65535 * ((n - 1) div 65535) + ones_sum n"
    using False div_mult_mod_eq [of "n - 1" 65535] by (simp add: ones_sum_def)
  then show ?thesis by blast
qed (simp add: ones_sum_def)

lemma ones_sum_unique:
  assumes "x \<le> 65535" "x mod 65535 = n mod 65535" "x = 0 \<longleftrightarrow> n = 0"
  shows "x = ones_sum n"
proof (cases "n = 0")
  case False
  have "ones_sum n mod 65535 = x mod 65535" by (simp add: ones_sum_cong assms(2))
  moreover have "0 < ones_sum n" "0 < x" using False assms(3) by simp_all
  ultimately show ?thesis using assms(1) ones_sum_le [of n] by (cases "x = 65535"; cases "ones_sum n = 65535") auto
qed (use assms in simp)

lemma ones_sum_complement: "ones_sum (n + (65535 - ones_sum n)) = 65535"
proof (rule ones_sum_unique [symmetric])
  obtain q where "n = 65535 * q + ones_sum n" using ones_sum_split by blast
  then have "n + (65535 - ones_sum n) = 65535 * q + (ones_sum n + (65535 - ones_sum n))" by presburger
  also have "ones_sum n + (65535 - ones_sum n) = 65535" using ones_sum_le [of n] by simp
  finally show "65535 mod 65535 = (n + (65535 - ones_sum n)) mod 65535" by simp
  show "(65535 :: nat) = 0 \<longleftrightarrow> n + (65535 - ones_sum n) = 0" by (auto simp: ones_sum_def)
qed simp

lemma sum16_le: "sum16 bs \<le> 65535 * ((length bs + 1) div 2)"
proof (induction bs rule: sum16.induct)
  case (1 a b w)
  have "unat a \<le> 255" "unat b \<le> 255" using unsigned_less [of a, where 'a = nat] unsigned_less [of b, where 'a = nat] by simp_all
  with 1 show ?case by simp
next
  case (2 a)
  have "unat a \<le> 255" using unsigned_less [of a, where 'a = nat] by simp
  then show ?case by simp
qed simp

lemma sum16_append: "even (length as) \<Longrightarrow> sum16 (as @ bs) = sum16 as + sum16 bs"
  by (induction as rule: sum16.induct) simp_all

lemma unat_two_bytes: "unat (push_bit 8 (ucast (a :: u8)) OR ucast (b :: u8) :: u32) = 256 * unat a + unat b"
proof -
  have disj: "push_bit 8 (ucast a) AND (ucast b :: u32) = 0"
    by (rule bit_word_eqI) (auto simp: bit_simps dest: bit_imp_le_length)
  have ab: "unat a < 256" "unat b < 256" using unsigned_less [of a, where 'a = nat] unsigned_less [of b, where 'a = nat] by simp_all
  have "push_bit 8 (ucast a) OR ucast b = push_bit 8 (ucast a) + (ucast b :: u32)"
    using disj by (simp add: disjunctive_add_eq_or)
  moreover have "unat (push_bit 8 (ucast a) :: u32) = 256 * unat a"
    using ab by (simp add: push_bit_eq_mult unat_word_ariths unsigned_ucast_eq take_bit_eq_mod)
  ultimately show ?thesis using ab by (simp add: unat_word_ariths unsigned_ucast_eq take_bit_eq_mod)
qed

lemma unat_add_carries: "unat (ucast (add_carries s) :: u16) = ones_sum (unat s)"
proof (rule ones_sum_unique)
  let ?n = "unat s" and ?t = "drop_bit 16 s + (s AND 0xffff)"
  define m where "m = ?n div 65536 + ?n mod 65536"
  have n: "?n < 4294967296" using unsigned_less [of s, where 'a = nat] by simp
  have m: "m \<le> 131070" "m mod 65535 = ?n mod 65535" "m = 0 \<longleftrightarrow> ?n = 0"
  proof -
    show "m \<le> 131070" using n by (auto simp: m_def)
    have eq: "?n = 65535 * (?n div 65536) + m" using div_mult_mod_eq [of ?n 65536] unfolding m_def by linarith
    then show "m mod 65535 = ?n mod 65535" by (metis mod_mult_self4)
    show "m = 0 \<longleftrightarrow> ?n = 0" using eq by (auto simp: m_def)
  qed
  have "s AND 0xffff = take_bit 16 s" by (simp add: take_bit_eq_mask mask_eq_exp_minus_1)
  then have "unat (s AND 0xffff) = ?n mod 65536" by (simp add: unsigned_take_bit_eq) (simp add: take_bit_eq_mod)
  moreover have "unat (drop_bit 16 s) = ?n div 65536" by (simp add: unat_drop_bit_eq) (simp add: drop_bit_eq_div)
  ultimately have t: "unat ?t = m" using n by (simp add: unat_word_ariths m_def)
  have "unat (drop_bit 16 ?t) = m div 65536" by (simp add: unat_drop_bit_eq t) (simp add: drop_bit_eq_div)
  moreover have "m + m div 65536 < 4294967296" using m(1) div_le_dividend [of m 65536] by linarith
  ultimately have "unat (add_carries s) = m + m div 65536"
    by (simp add: add_carries_def Let_def unat_word_ariths(1) [of ?t] t)
  then have u: "unat (ucast (add_carries s) :: u16) = (m + m div 65536) mod 65536"
    by (simp add: unsigned_ucast_eq take_bit_eq_mod)
  have cases: "unat (ucast (add_carries s) :: u16) = (if m < 65536 then m else m - 65535)"
  proof (cases "m < 65536")
    case False
    then have "m div 65536 = 1" using m(1) by simp
    with False m(1) u show ?thesis by (simp add: mod_if)
  qed (use u in simp)
  show "unat (ucast (add_carries s) :: u16) \<le> 65535" unfolding u by simp
  show "unat (ucast (add_carries s) :: u16) mod 65535 = ?n mod 65535"
    unfolding cases m(2) [symmetric] by (auto simp: le_mod_geq)
  show "unat (ucast (add_carries s) :: u16) = 0 \<longleftrightarrow> ?n = 0"
    unfolding cases m(3) [symmetric] by auto
qed

lemma checksum_loop_sum16:
  "unat acc + sum16 bs < 2 ^ 32 \<Longrightarrow> unat (checksum_loop acc bs) = unat acc + sum16 bs"
proof (induction acc bs rule: checksum_loop.induct)
  case (1 acc a b w)
  then show ?case using unat_word_ariths(1) [of acc "push_bit 8 (ucast a) OR ucast b"] by (simp add: unat_two_bytes)
next
  case (2 acc a)
  then show ?case using unat_word_ariths(1) [of acc "push_bit 8 (ucast a)"] unat_two_bytes [of a 0] by simp
qed simp

lemma bit_bswap16: "n < 16 \<Longrightarrow> bit (bswap16 w) n = (if n < 8 then bit w (n + 8) else bit w (n - 8))"
  by (auto simp: bswap16_def bit_simps add.commute dest: bit_imp_le_length)

lemma bswap16_bswap16 [simp]: "bswap16 (bswap16 w) = w"
  by (rule bit_word_eqI) (auto simp: bit_bswap16)

lemma bswap16_eq_iff [simp]: "bswap16 v = bswap16 w \<longleftrightarrow> v = w"
  by (metis bswap16_bswap16)

lemma bswap16_0 [simp]: "bswap16 0 = 0"
  by (simp add: bswap16_def)

lemma bswap16_not: "bswap16 (NOT w) = NOT (bswap16 w)"
  by (rule bit_word_eqI) (auto simp: bit_bswap16 bit_simps)

lemma ucast_not_16: "(ucast (NOT (w :: u32)) :: u16) = NOT (ucast w)"
  by (rule bit_word_eqI) (auto simp: bit_simps)

text \<open>The sums of buffers up to this length fit in 32 bits.\<close>

lemma inet_checksum_sum16:
  assumes "length bs \<le> 131072"
  shows "unat (NOT (ntohs (inet_checksum bs))) = ones_sum (sum16 bs)"
proof -
  have "sum16 bs \<le> 65535 * 65536" using sum16_le [of bs] assms by (simp add: order.trans)
  then have "unat (checksum_loop 0 bs) = sum16 bs" using checksum_loop_sum16 [of 0 bs] by simp
  then show ?thesis by (simp add: inet_checksum_def ucast_not_16 unat_add_carries)
qed

text \<open>The two bytes of a 16-bit value in memory.\<close>

definition le_bytes16 :: "u16 \<Rightarrow> u8 list" where
  "le_bytes16 w = [ucast w, ucast (drop_bit 8 w)]"

lemma sum16_le_bytes16: "sum16 (le_bytes16 w) = unat (bswap16 w)"
proof -
  have "bswap16 w = push_bit 8 (ucast (ucast w :: u8)) OR ucast (ucast (drop_bit 8 w) :: u8)"
    by (rule bit_word_eqI) (auto simp: bit_bswap16 bit_simps add.commute dest: bit_imp_le_length)
  moreover have "(push_bit 8 (ucast (a :: u8)) OR ucast (b :: u8) :: u16) = ucast (push_bit 8 (ucast a) OR ucast b :: u32)" for a b
    by (rule bit_word_eqI) (auto simp: bit_simps dest: bit_imp_le_length)
  moreover have "unat (ucast (push_bit 8 (ucast (a :: u8)) OR ucast (b :: u8) :: u32) :: u16) = 256 * unat a + unat b" for a b
    using unsigned_less [of a, where 'a = nat] unsigned_less [of b, where 'a = nat]
    by (simp add: unsigned_ucast_eq take_bit_eq_mod unat_two_bytes)
  ultimately show ?thesis by (simp add: le_bytes16_def)
qed

lemma unat_not_16: "unat (NOT (w :: u16)) = 65535 - unat w"
proof -
  have "NOT w = - 1 - w" by (simp add: not_eq_complement)
  moreover have "unat (- 1 - w) = unat (- 1 :: u16) - unat w" by (rule unat_sub) (rule word_n1_ge)
  moreover have "unat (- 1 :: u16) = 65535" by (simp add: unsigned_minus_1_eq_mask mask_eq_exp_minus_1)
  ultimately show ?thesis by simp
qed

lemma checksum_in_place:
  assumes "even (length as)" "length as + 2 + length bs \<le> 131072"
  shows "inet_checksum (as @ le_bytes16 (inet_checksum (as @ [0, 0] @ bs)) @ bs) = 0"
proof -
  let ?c = "inet_checksum (as @ [0, 0] @ bs)" and ?n = "sum16 as + sum16 bs"
  have "sum16 (as @ [0, 0] @ bs) = ?n" using assms(1) by (simp add: sum16_append)
  moreover have "length (as @ [0, 0] @ bs) \<le> 131072" using assms(2) by simp
  ultimately have c: "unat (NOT (ntohs ?c)) = ones_sum ?n"
    using inet_checksum_sum16 [of "as @ [0, 0] @ bs"] by (simp only:)
  then have uc: "unat (ntohs ?c) = 65535 - ones_sum ?n"
    using unat_not_16 [of "NOT (ntohs ?c)"] by (simp only: bit.double_compl)
  have "sum16 (as @ le_bytes16 ?c @ bs) = sum16 as + (unat (ntohs ?c) + sum16 bs)"
    using assms(1) sum16_append [of "le_bytes16 ?c" bs] by (simp add: sum16_append sum16_le_bytes16 [symmetric] le_bytes16_def)
  also have "\<dots> = ?n + (65535 - ones_sum ?n)" using uc by simp
  finally have total: "sum16 (as @ le_bytes16 ?c @ bs) = ?n + (65535 - ones_sum ?n)" .
  have "ones_sum (?n + (65535 - ones_sum ?n)) = 65535" by (rule ones_sum_complement)
  moreover have "length (as @ le_bytes16 ?c @ bs) \<le> 131072" using assms(2) by (simp add: le_bytes16_def)
  ultimately have "unat (NOT (ntohs (inet_checksum (as @ le_bytes16 ?c @ bs)))) = 65535"
    using inet_checksum_sum16 [of "as @ le_bytes16 ?c @ bs"] total by (simp only:)
  then have "unat (ntohs (inet_checksum (as @ le_bytes16 ?c @ bs))) = 0"
    using unat_not_16 [of "NOT (ntohs (inet_checksum (as @ le_bytes16 ?c @ bs)))"] by (simp only: bit.double_compl)
  then show ?thesis by (metis bswap16_bswap16 unsigned_0 unsigned_word_eqI bswap16_0)
qed

text \<open>
  C15: A buffer that carries its checksum at an even position, computed with zeros in its place, has
  the checksum 0; so a receiver accepts what a sender sums up.
\<close>

theorem checksum_verifies:
  assumes "even (length as)" "length as + 2 + length bs \<le> 131072"
  shows "inet_checksum (as @ le_bytes16 (inet_checksum (as @ [0, 0] @ bs)) @ bs) = 0"
  by (rule checksum_in_place [OF assms])

theorem checksum_verifies_witness:
  "inet_checksum ([0x45, 0] @ le_bytes16 (inet_checksum ([0x45, 0] @ [0, 0] @ [7])) @ [7]) = 0"
  using checksum_verifies [of "[0x45, 0]" "[7]"] by simp

lemma unat_bswap16: "unat (bswap16 w) mod 65535 = 256 * unat w mod 65535" "unat (bswap16 w) = 0 \<longleftrightarrow> unat w = 0"
proof -
  have b: "unat (ucast w :: u8) = unat w mod 256" "unat (ucast (drop_bit 8 w) :: u8) = unat w div 256"
  proof -
    show "unat (ucast w :: u8) = unat w mod 256" by (simp add: unsigned_ucast_eq take_bit_eq_mod)
    have "unat (drop_bit 8 w) = unat w div 256" by (simp add: unat_drop_bit_eq) (simp add: drop_bit_eq_div)
    then show "unat (ucast (drop_bit 8 w) :: u8) = unat w div 256"
      using unsigned_less [of w, where 'a = nat] by (simp add: unsigned_ucast_eq take_bit_eq_mod)
  qed
  have u: "unat (bswap16 w) = 256 * (unat w mod 256) + unat w div 256"
    using sum16_le_bytes16 [of w] b by (simp add: le_bytes16_def)
  define n where "n = unat w"
  have "256 * n = 65535 * (n div 256) + (256 * (n mod 256) + n div 256)" using div_mult_mod_eq [of n 256] by linarith
  then show "unat (bswap16 w) mod 65535 = 256 * unat w mod 65535" unfolding u n_def [symmetric] by (metis mod_mult_self4)
  show "unat (bswap16 w) = 0 \<longleftrightarrow> unat w = 0" unfolding u using div_mult_mod_eq [of "unat w" 256] by auto
qed

lemma not_memory_order: "NOT w = bswap16 (NOT (ntohs w))"
  by (simp add: bswap16_not)

text \<open>
  C16: The checksum of a buffer is the sum, by \<open>inet_checksum_add\<close>, of the checksums of its parts, when
  the first part has an even number of bytes.
\<close>

theorem checksum_add_correct:
  assumes "even (length as)" "length as + length bs \<le> 131072"
  shows "inet_checksum_add (inet_checksum as) (inet_checksum bs) = inet_checksum (as @ bs)"
proof -
  let ?A = "inet_checksum as" and ?B = "inet_checksum bs" and ?C = "inet_checksum (as @ bs)"
  have "length as \<le> 131072" "length bs \<le> 131072" "length (as @ bs) \<le> 131072" using assms(2) by simp_all
  note c = inet_checksum_sum16 [OF this(1)] inet_checksum_sum16 [OF this(2)]
    inet_checksum_sum16 [OF this(3), unfolded sum16_append [OF assms(1)]]
  have m: "unat (NOT w) mod 65535 = 256 * unat (NOT (ntohs w)) mod 65535" "unat (NOT w) = 0 \<longleftrightarrow> unat (NOT (ntohs w)) = 0" for w
    by (metis not_memory_order unat_bswap16(1)) (metis not_memory_order unat_bswap16(2))
  have ab: "unat (ucast (NOT ?A) + ucast (NOT ?B) :: u32) = unat (NOT ?A) + unat (NOT ?B)"
    using unsigned_less [of "NOT ?A", where 'a = nat] unsigned_less [of "NOT ?B", where 'a = nat]
    by (simp add: unat_word_ariths(1) [of "ucast (NOT ?A) :: u32"] unsigned_ucast_eq take_bit_eq_mod del: unsigned_not_eq)
  have "unat (NOT ?C) = ones_sum (unat (NOT ?A) + unat (NOT ?B))"
  proof (rule ones_sum_unique)
    show "unat (NOT ?C) \<le> 65535" using unsigned_less [of "NOT ?C", where 'a = nat] by simp
    have s: "256 * ones_sum n mod 65535 = 256 * n mod 65535" for n by (metis ones_sum_cong mod_mult_right_eq)
    have "unat (NOT ?A) mod 65535 = 256 * sum16 as mod 65535" "unat (NOT ?B) mod 65535 = 256 * sum16 bs mod 65535"
      by (simp_all only: m(1) c(1,2) s)
    then have "(unat (NOT ?A) + unat (NOT ?B)) mod 65535 = (256 * sum16 as + 256 * sum16 bs) mod 65535"
      by (rule mod_add_cong)
    moreover have "unat (NOT ?C) mod 65535 = (256 * sum16 as + 256 * sum16 bs) mod 65535"
      by (simp only: m(1) c(3) s distrib_left)
    ultimately show "unat (NOT ?C) mod 65535 = (unat (NOT ?A) + unat (NOT ?B)) mod 65535" by simp
    show "unat (NOT ?C) = 0 \<longleftrightarrow> unat (NOT ?A) + unat (NOT ?B) = 0" by (simp only: m(2) c ones_sum_0_iff add_is_0)
  qed
  also have "\<dots> = unat (NOT (inet_checksum_add ?A ?B))"
    by (simp add: inet_checksum_add_def ucast_not_16 unat_add_carries ab del: unsigned_not_eq)
  finally have "unat (NOT ?C) = unat (NOT (inet_checksum_add ?A ?B))" .
  then have "NOT ?C = NOT (inet_checksum_add ?A ?B)" by (rule unsigned_word_eqI)
  then show ?thesis by simp
qed

theorem checksum_add_correct_witness:
  "inet_checksum_add (inet_checksum [1, 2]) (inet_checksum [3]) = inet_checksum ([1, 2] @ [3])"
  using checksum_add_correct [of "[1, 2]" "[3]"] by simp

end
