(* ===== verification/Ip_Header.thy ===== *)
theory Ip_Header
  imports Checksum Buffer IPv4_Addr
begin

text \<open>
  IPv4 headers in a buffer (\<open>libproto/packet.hh\<close>, \<open>packet.cc\<close>): the fields, the header checksum, and
  the fragmentation of a packet.
\<close>

subsection \<open>The fields of the header\<close>

abbreviation IP_SIZE :: nat where "IP_SIZE \<equiv> 20"

definition ip_vhl :: "u8 list \<Rightarrow> u8 res" where "ip_vhl d = byte_at d 0"
definition ip_tos :: "u8 list \<Rightarrow> u8 res" where "ip_tos d = byte_at d 1"
definition ip_len :: "u8 list \<Rightarrow> u16 res" where "ip_len d = word_at d 2"
definition ip_id :: "u8 list \<Rightarrow> u16 res" where "ip_id d = word_at d 4"
definition ip_off :: "u8 list \<Rightarrow> u16 res" where "ip_off d = word_at d 6"
definition ip_ttl :: "u8 list \<Rightarrow> u8 res" where "ip_ttl d = byte_at d 8"
definition ip_p :: "u8 list \<Rightarrow> u8 res" where "ip_p d = byte_at d 9"
definition ip_sum :: "u8 list \<Rightarrow> u16 res" where "ip_sum d = word_at d 10"
definition ip_src :: "u8 list \<Rightarrow> ipv4 res" where "ip_src d = copy_in (drop 12 d)"
definition ip_dst :: "u8 list \<Rightarrow> ipv4 res" where "ip_dst d = copy_in (drop 16 d)"

definition ip_version :: "u8 list \<Rightarrow> u8 res" where
  "ip_version d = res_map (\<lambda>v. drop_bit 4 v AND 0x0f) (ip_vhl d)"

definition ip_header_len :: "u8 list \<Rightarrow> u8 res" where
  "ip_header_len d = res_map (\<lambda>v. push_bit 2 (v AND 0x0f)) (ip_vhl d)"

definition is_valid_version :: "u8 list \<Rightarrow> bool res" where
  "is_valid_version d = res_map (\<lambda>v. v = 4) (ip_version d)"

definition ip_fragment_offset :: "u8 list \<Rightarrow> u16 res" where "ip_fragment_offset d = res_map (\<lambda>off. off AND 0x1fff) (ip_off d)"
definition ip_fragment_flags :: "u8 list \<Rightarrow> u16 res" where "ip_fragment_flags d = res_map (\<lambda>off. off AND 0xe000) (ip_off d)"

definition set_ip_vhl :: "u8 \<Rightarrow> u8 list \<Rightarrow> u8 list res" where "set_ip_vhl v = put 0 [v]"
definition set_ip_tos :: "u8 \<Rightarrow> u8 list \<Rightarrow> u8 list res" where "set_ip_tos v = put 1 [v]"
definition set_ip_len :: "u16 \<Rightarrow> u8 list \<Rightarrow> u8 list res" where "set_ip_len v = put 2 (embed_16 v)"
definition set_ip_id :: "u16 \<Rightarrow> u8 list \<Rightarrow> u8 list res" where "set_ip_id v = put 4 (embed_16 v)"
definition set_ip_off :: "u16 \<Rightarrow> u8 list \<Rightarrow> u8 list res" where "set_ip_off v = put 6 (embed_16 v)"
definition set_ip_ttl :: "u8 \<Rightarrow> u8 list \<Rightarrow> u8 list res" where "set_ip_ttl v = put 8 [v]"
definition set_ip_p :: "u8 \<Rightarrow> u8 list \<Rightarrow> u8 list res" where "set_ip_p v = put 9 [v]"
definition set_ip_sum :: "u16 \<Rightarrow> u8 list \<Rightarrow> u8 list res" where "set_ip_sum v = put 10 (embed_16 v)"
definition set_ip_src :: "ipv4 \<Rightarrow> u8 list \<Rightarrow> u8 list res" where "set_ip_src a = put 12 (copy_out a)"
definition set_ip_dst :: "ipv4 \<Rightarrow> u8 list \<Rightarrow> u8 list res" where "set_ip_dst a = put 16 (copy_out a)"

definition set_ip_version :: "u8 \<Rightarrow> u8 list \<Rightarrow> u8 list res" where
  "set_ip_version v d = res_bind (ip_header_len d) (\<lambda>hl. set_ip_vhl (push_bit 4 v OR drop_bit 2 hl) d)"

definition set_ip_header_len :: "u8 \<Rightarrow> u8 list \<Rightarrow> u8 list res" where
  "set_ip_header_len v d = res_bind (ip_version d) (\<lambda>ver. set_ip_vhl (push_bit 4 ver OR drop_bit 2 v) d)"

definition set_ip_fragment_offset :: "u16 \<Rightarrow> u8 list \<Rightarrow> u8 list res" where
  "set_ip_fragment_offset v d = res_bind (ip_fragment_flags d) (\<lambda>flags. set_ip_off ((v AND 0x1fff) OR flags) d)"

definition set_ip_fragment_flags :: "u16 \<Rightarrow> u8 list \<Rightarrow> u8 list res" where
  "set_ip_fragment_flags v d = res_bind (ip_fragment_offset d) (\<lambda>off. set_ip_off ((v AND 0xe000) OR off) d)"

definition compute_checksum :: "u8 list \<Rightarrow> u8 list res" where
  "compute_checksum d = res_bind (set_ip_sum 0 d) (\<lambda>d. res_bind (ip_header_len d) (\<lambda>hl.
     if length d < unat hl then Inl OutOfBounds
     else set_ip_sum (ntohs (inet_checksum (take (unat hl) d))) d))"

subsection \<open>Fragmentation\<close>

abbreviation IP_DF :: u16 where "IP_DF \<equiv> 0x4000"
abbreviation IP_MF :: u16 where "IP_MF \<equiv> 0x2000"
abbreviation OFFSET_MASK :: u16 where "OFFSET_MASK \<equiv> 0x1fff"

text \<open>Differences of two \<open>size_t\<close>, which wrap.\<close>

definition sub_size :: "nat \<Rightarrow> nat \<Rightarrow> nat" where
  "sub_size a b = (if b \<le> a then a - b else 2 ^ 64 + a - b)"

text \<open>The options behind the header that every fragment gets; \<open>None\<close> for a malformed option.\<close>

lemma optlen_pos: "\<not> unat (w :: u8) < 2 \<Longrightarrow> 0 < uint w"
proof -
  assume "\<not> unat w < 2"
  then have "0 < int (unat w)" by linarith
  then show "0 < uint w" by simp
qed

definition write_option :: "nat \<Rightarrow> u8 list \<Rightarrow> u8 list \<Rightarrow> u8 list res" where
  "write_option cap bs dp = (if length dp + length bs \<le> cap then Inr (dp @ bs) else Inl OutOfBounds)"

function copy_options :: "nat \<Rightarrow> int \<Rightarrow> u8 list \<Rightarrow> u8 list \<Rightarrow> u8 list option res" where
  "copy_options cap cnt cp dp = (if cnt \<le> 0 then Inr (Some dp)
     else res_bind (byte_at cp 0) (\<lambda>opt.
       if opt = 0 then Inr (Some dp)
       else if opt = 1 then res_bind (write_option cap [1] dp) (copy_options cap (cnt - 1) (drop 1 cp))
       else if cnt < 2 then Inr None
       else res_bind (byte_at cp 1) (\<lambda>optlen.
         if unat optlen < 2 \<or> int (unat optlen) > cnt then Inr None
         else if bit opt 7 then
           (if length cp < unat optlen then Inl OutOfBounds
            else res_bind (write_option cap (take (unat optlen) cp) dp)
              (copy_options cap (cnt - int (unat optlen)) (drop (unat optlen) cp)))
         else copy_options cap (cnt - int (unat optlen)) (drop (unat optlen) cp) dp)))"
  by pat_completeness auto
termination by (relation "measure (\<lambda>(cap, cnt, cp, dp). nat cnt)") (auto dest: optlen_pos)

declare copy_options.simps [simp del]

definition pad_options :: "u8 list \<Rightarrow> u8 list" where
  "pad_options dp = dp @ replicate ((4 - length dp mod 4) mod 4) 0"

text \<open>The end of the work on a fragment: the fields that change, which are in different bytes, then the checksum.\<close>

definition close_header :: "bool \<Rightarrow> u16 \<Rightarrow> u16 \<Rightarrow> u8 list \<Rightarrow> u8 list res" where
  "close_header do_checksum off len d = res_bind (set_ip_off off d) (\<lambda>d. res_bind (set_ip_len len d) (\<lambda>d.
     res_bind (set_ip_sum 0 d) (\<lambda>d. if do_checksum then compute_checksum d else Inr d)))"

definition first_fragment :: "nat \<Rightarrow> bool \<Rightarrow> u8 list \<Rightarrow> u8 list res" where
  "first_fragment mtu do_checksum d = res_bind (ip_header_len d) (\<lambda>hl.
     let nfb = sub_size mtu (unat hl) div 8; len = (unat hl + nfb * 8) mod 2 ^ 64
     in res_bind (memcpy 0 d len (resize len (replicate mtu 0))) (\<lambda>f.
        res_bind (ip_off f) (\<lambda>off. close_header do_checksum (off OR IP_MF) (of_nat len) f)))"

text \<open>The flags and the offset of a fragment whose data starts \<open>k\<close> units of 8 bytes into that of the packet.\<close>

definition frag_ip_off :: "u16 \<Rightarrow> bool \<Rightarrow> nat \<Rightarrow> u16" where
  "frag_ip_off off is_last_fragment k = ((off AND NOT OFFSET_MASK) OR (if is_last_fragment then 0 else IP_MF))
     OR ((off AND OFFSET_MASK) + of_nat k)"

text \<open>
  The loop for the other fragments. A round without data would be repeated for ever, and a resize
  beyond the \<open>data_end\<close> bytes that the buffer was made with moves it away from under \<open>frag_ip4\<close>.
\<close>

function fragment_loop :: "nat \<Rightarrow> bool \<Rightarrow> u8 list \<Rightarrow> u16 \<Rightarrow> nat \<Rightarrow> nat \<Rightarrow> nat \<Rightarrow> u8 list \<Rightarrow> nat \<Rightarrow> u8 list list res" where
  "fragment_loop mtu do_checksum d off hl frag_hl data_end buf data_start =
     (if data_end \<le> data_start then Inr []
      else let nfb = sub_size mtu frag_hl div 8;
               last = data_end - data_start \<le> nfb * 8;
               data_len = (if last then data_end - data_start else nfb * 8);
               len = (frag_hl + data_len) mod 2 ^ 64
           in if data_len = 0 then Inl Diverges
              else res_bind (memcpy frag_hl (drop data_start d) data_len (resize len buf)) (\<lambda>buf.
                   if data_end < len then Inl DanglingIterator else
                   res_bind (close_header do_checksum (frag_ip_off off last (sub_size data_start hl div 8)) (of_nat len) buf) (\<lambda>buf.
                   res_map (\<lambda>fs. buf # fs)
                     (fragment_loop mtu do_checksum d off hl frag_hl data_end buf (data_start + data_len)))))"
  by pat_completeness auto
termination by (relation "measure (\<lambda>(_, _, _, _, _, _, data_end, _, data_start). data_end - data_start)") (auto split: if_splits)

declare fragment_loop.simps [simp del]

text \<open>\<open>IpHeader4::fragment\<close>: \<open>None\<close> stands for \<open>XORP_ERROR\<close>, otherwise the fragments, none when the packet is small enough.\<close>

definition fragment :: "nat \<Rightarrow> bool \<Rightarrow> u8 list \<Rightarrow> u8 list list option res" where
  "fragment mtu do_checksum d = res_bind (ip_len d) (\<lambda>datalen. res_bind (ip_off d) (\<lambda>off. res_bind (ip_header_len d) (\<lambda>hl.
     if unat datalen \<le> mtu then Inr (Some [])
     else if off AND IP_DF \<noteq> 0 then Inr None
     else if sub_size mtu (unat hl) div 8 * 8 < 8 then Inr None
     else res_bind (memcpy 0 d IP_SIZE (replicate (unat datalen) 0)) (\<lambda>buf.
       res_bind (copy_options (unat datalen - IP_SIZE) (int (unat hl) - 20) (drop IP_SIZE d) []) (\<lambda>opts. case opts of
         None \<Rightarrow> Inr None
       | Some dp \<Rightarrow>
           res_bind (put IP_SIZE (pad_options dp) buf) (\<lambda>buf.
           let frag_hl = IP_SIZE + length (pad_options dp) in
           res_bind (set_ip_header_len (of_nat frag_hl) buf) (\<lambda>buf.
           res_bind (first_fragment mtu do_checksum d) (\<lambda>f.
           res_map (\<lambda>fs. Some (f # fs))
             (fragment_loop mtu do_checksum d off (unat hl) frag_hl (unat datalen) buf (length f))))))))))"

subsection \<open>Fields after an update\<close>

lemma header_split:
  assumes "12 \<le> length d"
  obtains b0 b1 b2 b3 b4 b5 b6 b7 b8 b9 b10 b11 rest where "d = b0 # b1 # b2 # b3 # b4 # b5 # b6 # b7 # b8 # b9 # b10 # b11 # rest"
  using assms by (auto simp: numeral_eq_Suc Suc_le_length_iff)

lemma embed_16_ntohs: "embed_16 (ntohs c) = le_bytes16 c"
proof -
  have masks: "(0xff :: u16) = mask 8" by (simp add: mask_eq_exp_minus_1)
  show ?thesis unfolding embed_16_def le_bytes16_def masks
    by (auto intro!: bit_word_eqI simp: bit_simps bit_bswap16 add.commute)
qed

lemma put_at:
  assumes "i + length bs \<le> length d"
  shows "\<exists>d'. put i bs d = Inr d' \<and> (\<exists>rest. drop i d' = bs @ rest)"
  using assms by (simp add: put_def)

lemma byte_at_drop: "byte_at d (i + j) = byte_at (drop i d) j"
  by (auto simp: byte_at_def less_diff_conv add.commute)

lemma put_byte: "i < length d \<Longrightarrow> \<exists>d'. put i [v] d = Inr d' \<and> byte_at d' i = Inr v"
  using put_at [of i "[v]" d] byte_at_drop [of _ i 0] by (fastforce simp: byte_at_def)

lemma put_word: "i + 1 < length d \<Longrightarrow> \<exists>d'. put i (embed_16 v) d = Inr d' \<and> word_at d' i = Inr v"
  using put_at [of i "embed_16 v" d] byte_at_drop [of _ i 0] byte_at_drop [of _ i 1]
  by (fastforce simp: word_at_def embed_16_def byte_at_def)

lemma put_addr: "i + 4 \<le> length d \<Longrightarrow> \<exists>d'. put i (copy_out a) d = Inr d' \<and> copy_in (drop i d') = Inr a"
  using put_at [of i "copy_out a" d] copy_in_copy_out [of a] by (fastforce simp: copy_out_def le_bytes_def)

text \<open>What is written to a field is read back from it.\<close>

lemma header_fields_roundtrip:
  assumes "IP_SIZE \<le> length d"
  shows "\<exists>d'. set_ip_tos t d = Inr d' \<and> ip_tos d' = Inr t" "\<exists>d'. set_ip_len n d = Inr d' \<and> ip_len d' = Inr n"
    "\<exists>d'. set_ip_id n d = Inr d' \<and> ip_id d' = Inr n" "\<exists>d'. set_ip_off n d = Inr d' \<and> ip_off d' = Inr n"
    "\<exists>d'. set_ip_ttl t d = Inr d' \<and> ip_ttl d' = Inr t" "\<exists>d'. set_ip_p t d = Inr d' \<and> ip_p d' = Inr t"
    "\<exists>d'. set_ip_sum n d = Inr d' \<and> ip_sum d' = Inr n" "\<exists>d'. set_ip_src a d = Inr d' \<and> ip_src d' = Inr a"
    "\<exists>d'. set_ip_dst a d = Inr d' \<and> ip_dst d' = Inr a"
  unfolding set_ip_tos_def ip_tos_def set_ip_len_def ip_len_def set_ip_id_def ip_id_def set_ip_off_def ip_off_def set_ip_ttl_def ip_ttl_def
    set_ip_p_def ip_p_def set_ip_sum_def ip_sum_def set_ip_src_def ip_src_def set_ip_dst_def ip_dst_def
  using assms by (intro put_byte put_word put_addr; simp)+

lemma embed_16_0: "embed_16 0 = [0, 0]"
  by (simp add: embed_16_def)

lemma compute_checksum_ok:
  assumes "d = b0 # b1 # b2 # b3 # b4 # b5 # b6 # b7 # b8 # b9 # b10 # b11 # rest"
    and "ip_header_len d = Inr hl" "12 \<le> unat hl" "unat hl \<le> length d"
  shows "\<exists>c0 c1. compute_checksum d = Inr (b0 # b1 # b2 # b3 # b4 # b5 # b6 # b7 # b8 # b9 # c0 # c1 # rest)
    \<and> inet_checksum (take (unat hl) (b0 # b1 # b2 # b3 # b4 # b5 # b6 # b7 # b8 # b9 # c0 # c1 # rest)) = 0"
proof -
  let ?as = "[b0, b1, b2, b3, b4, b5, b6, b7, b8, b9]" and ?n = "unat hl - 12"
  let ?c = "inet_checksum (?as @ [0, 0] @ take ?n rest)"
  obtain c0 c1 where c: "le_bytes16 ?c = [c0, c1]" by (simp add: le_bytes16_def)
  have n: "unat hl = 12 + ?n" "?n \<le> 131000" using assms(3) unsigned_less [of hl, where 'a = nat] by simp_all
  have take: "take (unat hl) (b0 # b1 # b2 # b3 # b4 # b5 # b6 # b7 # b8 # b9 # x # y # rest) = ?as @ [x, y] @ take ?n rest" for x y
    by (subst n(1)) (simp add: numeral_eq_Suc)
  have "compute_checksum d = Inr (?as @ [c0, c1] @ rest)"
    using assms(2,4) take [of 0 0] c
    by (simp add: compute_checksum_def set_ip_sum_def embed_16_0 embed_16_ntohs assms(1) ip_header_len_def ip_vhl_def byte_at_def)
  moreover have "inet_checksum (?as @ [c0, c1] @ take ?n rest) = 0"
    using checksum_in_place [of ?as "take ?n rest"] n(2) c by simp
  ultimately show ?thesis using take [of c0 c1] by auto
qed

text \<open>
  What a finished header carries, and what it has in common with the header it is made from: type
  of service, identification, time to live, protocol and the addresses.
\<close>

definition kept_fields :: "u8 list \<Rightarrow> u8 list" where
  "kept_fields d = map ((!) d) [1, 4, 5, 8, 9] @ take 8 (drop 12 d)"

definition closed_header :: "bool \<Rightarrow> u16 \<Rightarrow> u8 \<Rightarrow> u8 list \<Rightarrow> bool" where
  "closed_header do_checksum off hl d \<longleftrightarrow> ip_header_len d = Inr hl \<and> ip_off d = Inr off \<and> ip_len d = Inr (of_nat (length d))
     \<and> (do_checksum \<longrightarrow> inet_checksum (take (unat hl) d) = 0)"

lemma close_header_ok:
  assumes "ip_header_len d = Inr hl" "12 \<le> unat hl" "unat hl \<le> length d"
  shows "\<exists>d'. close_header do_checksum off (of_nat (length d)) d = Inr d' \<and> length d' = length d \<and> drop 12 d' = drop 12 d
    \<and> closed_header do_checksum off hl d' \<and> kept_fields d' = kept_fields d \<and> ip_version d' = ip_version d"
proof -
  have "12 \<le> length d" using assms(2,3) by simp
  then obtain b0 b1 b2 b3 b4 b5 b6 b7 b8 b9 b10 b11 rest where d: "d = b0 # b1 # b2 # b3 # b4 # b5 # b6 # b7 # b8 # b9 # b10 # b11 # rest"
    by (rule header_split)
  obtain o0 o1 where o: "embed_16 off = [o0, o1]" "extract_16 o0 o1 = off" by (simp add: embed_16_def)
  obtain l0 l1 where l: "embed_16 (of_nat (length d)) = [l0, l1]" "extract_16 l0 l1 = of_nat (length d)" by (simp add: embed_16_def)
  let ?e = "b0 # b1 # l0 # l1 # b4 # b5 # o0 # o1 # b8 # b9 # 0 # 0 # rest"
  have hl: "ip_header_len ?e = Inr hl" using assms(1) by (simp add: d ip_header_len_def ip_vhl_def byte_at_def)
  have e: "close_header do_checksum off (of_nat (length d)) d = (if do_checksum then compute_checksum ?e else Inr ?e)"
    using o(1) l(1) by (simp add: close_header_def set_ip_off_def set_ip_len_def set_ip_sum_def embed_16_0 d)
  have len: "length ?e = length d" by (simp add: d)
  have fields: "closed_header do_checksum off hl (b0 # b1 # l0 # l1 # b4 # b5 # o0 # o1 # b8 # b9 # x # y # rest)"
    if "do_checksum \<longrightarrow> inet_checksum (take (unat hl) (b0 # b1 # l0 # l1 # b4 # b5 # o0 # o1 # b8 # b9 # x # y # rest)) = 0" for x y
    using that hl o(2) l(2) by (simp add: closed_header_def ip_header_len_def ip_vhl_def ip_off_def ip_len_def word_at_def byte_at_def d)
  show ?thesis
  proof (cases do_checksum)
    case True
    obtain c0 c1 where "compute_checksum ?e = Inr (b0 # b1 # l0 # l1 # b4 # b5 # o0 # o1 # b8 # b9 # c0 # c1 # rest)"
        "inet_checksum (take (unat hl) (b0 # b1 # l0 # l1 # b4 # b5 # o0 # o1 # b8 # b9 # c0 # c1 # rest)) = 0"
      using compute_checksum_ok [OF refl hl assms(2)] assms(3) len by auto
    with True e fields [of c0 c1] show ?thesis by (simp add: d kept_fields_def ip_version_def ip_vhl_def byte_at_def)
  next
    case False
    with e fields [of 0 0] show ?thesis by (simp add: d kept_fields_def ip_version_def ip_vhl_def byte_at_def)
  qed
qed

subsection \<open>Fragments\<close>

definition payload :: "u8 list \<Rightarrow> u8 list" where
  "payload f = (case ip_header_len f of Inl _ \<Rightarrow> [] | Inr hl \<Rightarrow> drop (unat hl) f)"

definition more_fragments :: "u16 \<Rightarrow> bool" where "more_fragments off \<longleftrightarrow> bit off 13"
definition fragment_offset :: "u16 \<Rightarrow> nat" where "fragment_offset off = unat (off AND OFFSET_MASK)"

text \<open>
  The fragments of a packet in order: the offset of each, in units of 8 bytes, follows on the data
  before it; all but the last say that more follow and carry whole units.
\<close>

fun fragment_chain :: "nat \<Rightarrow> bool \<Rightarrow> u8 list list \<Rightarrow> bool" where
  "fragment_chain start mf [] \<longleftrightarrow> False"
| "fragment_chain start mf (f # fs) \<longleftrightarrow> (case ip_off f of Inl _ \<Rightarrow> False | Inr off \<Rightarrow> fragment_offset off = start
     \<and> (if fs = [] then more_fragments off = mf
        else more_fragments off \<and> length (payload f) mod 8 = 0
          \<and> fragment_chain (start + length (payload f) div 8) mf fs))"

definition fragment_ok :: "nat \<Rightarrow> bool \<Rightarrow> u8 list \<Rightarrow> u8 list \<Rightarrow> bool" where
  "fragment_ok mtu do_checksum d f \<longleftrightarrow> length f \<le> mtu \<and> kept_fields f = kept_fields d \<and> ip_version f = ip_version d
     \<and> (\<exists>off hl. closed_header do_checksum off hl f)"

lemma bit_IP_MF: "bit IP_MF n = (n = 13)"
proof -
  have "IP_MF = 2 ^ 13" by simp
  moreover have "bit (2 ^ 13 :: u16) n = (n = 13)" unfolding bit_exp_iff by auto
  ultimately show ?thesis by (simp only:)
qed

text \<open>The offset field of a later fragment.\<close>

lemma offset_field:
  assumes "fragment_offset off + k < 8192"
  shows "fragment_offset (frag_ip_off off fin k) = fragment_offset off + k"
    and "more_fragments (frag_ip_off off fin k) = (more_fragments off \<or> \<not> fin)"
proof -
  define x where "x = frag_ip_off off fin k"
  have mask: "OFFSET_MASK = mask 13" by (simp add: mask_eq_exp_minus_1)
  define y where "y = (off AND OFFSET_MASK) + of_nat k"
  have y: "unat y = fragment_offset off + k"
    using assms(1) by (simp add: y_def fragment_offset_def unat_word_ariths unsigned_of_nat take_bit_eq_mod)
  have "unat y < 2 ^ 13" using y assms(1) by simp
  then have "unat (take_bit 13 y) = unat y" by (simp only: unsigned_take_bit_eq take_bit_nat_eq_self_iff)
  then have small: "take_bit 13 y = y" by (rule unsigned_word_eqI)
  have high: "\<not> bit y n" if "13 \<le> n" for n
  proof -
    have "bit y n = bit (take_bit 13 y) n" by (simp only: small)
    with that show ?thesis unfolding bit_take_bit_iff by linarith
  qed
  define m where "m = (if fin then 0 else IP_MF)"
  have m: "bit m n = (\<not> fin \<and> n = 13)" for n
    using bit_IP_MF [of n] by (simp add: m_def)
  have x: "bit x n = ((bit off n \<and> \<not> n < 13 \<and> n < 16) \<or> bit m n \<or> bit y n)" for n
    unfolding x_def frag_ip_off_def m_def [symmetric] y_def [symmetric] unfolding mask by (auto simp: bit_or_iff bit_and_iff bit_not_iff bit_mask_iff dest: bit_imp_le_length)
  have "x AND OFFSET_MASK = y"
  proof (rule bit_word_eqI)
    fix n show "bit (x AND OFFSET_MASK) n = bit y n"
      unfolding mask using high [of n] by (cases "n < 13") (auto simp: bit_and_iff bit_mask_iff x m)
  qed
  then show "fragment_offset (frag_ip_off off fin k) = fragment_offset off + k" using y by (simp add: fragment_offset_def x_def)
  show "more_fragments (frag_ip_off off fin k) = (more_fragments off \<or> \<not> fin)"
    using high [of 13] by (simp add: more_fragments_def x_def [symmetric] x m)
qed

lemma drop_eq_drop: "drop m xs = drop m ys \<Longrightarrow> m \<le> n \<Longrightarrow> drop n xs = drop n ys"
  by (metis drop_drop le_add_diff_inverse2)

lemma header_take:
  assumes "20 \<le> n" "20 \<le> length d"
  shows "ip_header_len (take n d @ bs) = ip_header_len d" "ip_version (take n d @ bs) = ip_version d"
    "ip_off (take n d @ bs) = ip_off d" "kept_fields (take n d @ bs) = kept_fields d"
proof -
  have nth: "(take n d @ bs) ! i = d ! i" "i < length (take n d @ bs)" if "i < 20" for i
    using assms that by (simp_all add: nth_append)
  have "byte_at (take n d @ bs) i = byte_at d i" if "i < 20" for i
    using nth [OF that] assms(2) that by (simp add: byte_at_def)
  then show "ip_header_len (take n d @ bs) = ip_header_len d" "ip_version (take n d @ bs) = ip_version d" "ip_off (take n d @ bs) = ip_off d"
    by (simp_all add: ip_header_len_def ip_version_def ip_vhl_def ip_off_def word_at_def)
  have "take 8 (drop 12 (take n d @ bs)) = take 8 (drop 12 d)"
    using assms by (simp add: take_drop min_def)
  with nth show "kept_fields (take n d @ bs) = kept_fields d" by (simp add: kept_fields_def)
qed

text \<open>One round of the loop: a buffer with the header of the fragments gets its data and is closed.\<close>

lemma fragment_round:
  assumes "ip_header_len buf = Inr fhl" "20 \<le> unat fhl" "unat fhl \<le> length buf" "0 < n" "n \<le> length src"
  shows "\<exists>buf1 f. memcpy (unat fhl) src n (resize (unat fhl + n) buf) = Inr buf1
    \<and> close_header do_checksum off (of_nat (unat fhl + n)) buf1 = Inr f
    \<and> closed_header do_checksum off fhl f \<and> payload f = take n src \<and> length f = unat fhl + n
    \<and> kept_fields f = kept_fields buf \<and> ip_version f = ip_version buf"
proof -
  let ?b = "take (unat fhl) buf @ take n src"
  have "memcpy (unat fhl) src n (resize (unat fhl + n) buf) = Inr ?b"
    using assms(3,5) by (simp add: memcpy_def resize_def min_def)
  moreover have len: "length ?b = unat fhl + n" using assms(3,5) by simp
  moreover have same: "ip_header_len ?b = Inr fhl" "ip_version ?b = ip_version buf" "kept_fields ?b = kept_fields buf"
    using assms(1-3) header_take [of "unat fhl" buf "take n src"] by simp_all
  moreover have "12 \<le> unat fhl" "unat fhl \<le> length ?b" using assms(2) len by simp_all
  ultimately obtain f where f: "close_header do_checksum off (of_nat (unat fhl + n)) ?b = Inr f" "length f = unat fhl + n"
      "drop 12 f = drop 12 ?b" "closed_header do_checksum off fhl f" "kept_fields f = kept_fields buf" "ip_version f = ip_version buf"
    using close_header_ok [of ?b fhl do_checksum off] by auto
  have "drop (unat fhl) f = take n src" using drop_eq_drop [OF f(3), of "unat fhl"] assms(2,3) by simp
  then have "payload f = take n src" using f(4) by (simp add: payload_def closed_header_def)
  with f \<open>memcpy (unat fhl) src n (resize (unat fhl + n) buf) = Inr ?b\<close> show ?thesis by blast
qed

lemma fragment_loop_ok:
  assumes "ip_header_len buf = Inr fhl" "20 \<le> unat fhl" "unat fhl \<le> length buf" "unat fhl + 8 \<le> mtu" "mtu < 65536"
    and "hl \<le> start" "8 dvd start - hl" "start < length d" "length d < 65536" "fragment_offset off + (length d - hl) div 8 < 8192"
    and "mtu \<le> length d" "kept_fields buf = kept_fields d" "ip_version buf = ip_version d"
  shows "\<exists>fs. fragment_loop mtu do_checksum d off hl (unat fhl) (length d) buf start = Inr fs
    \<and> concat (map payload fs) = drop start d \<and> (\<forall>f \<in> set fs. fragment_ok mtu do_checksum d f)
    \<and> fragment_chain (fragment_offset off + (start - hl) div 8) (more_fragments off) fs"
  using assms
proof (induction "length d - start" arbitrary: buf start rule: less_induct)
  case less
  let ?nfb = "(mtu - unat fhl) div 8"
  define last where "last = (length d - start \<le> ?nfb * 8)"
  define n where "n = (if last then length d - start else ?nfb * 8)"
  define o' where "o' = frag_ip_off off last ((start - hl) div 8)"
  have nfb: "1 \<le> ?nfb" using less.prems(4) by (simp add: le_div_geq)
  have n: "0 < n" "n \<le> length (drop start d)" "unat fhl + n \<le> mtu"
    using nfb less.prems(4,8) by (auto simp: n_def last_def)
  have small: "unat fhl + n < 2 ^ 64" using n(3) less.prems(5) by simp
  obtain buf1 f where f: "memcpy (unat fhl) (drop start d) n (resize (unat fhl + n) buf) = Inr buf1"
      "close_header do_checksum o' (of_nat (unat fhl + n)) buf1 = Inr f"
      "closed_header do_checksum o' fhl f" "payload f = take n (drop start d)" "length f = unat fhl + n"
      "kept_fields f = kept_fields d" "ip_version f = ip_version d"
    using less.prems(12,13) fragment_round [OF less.prems(1-3) n(1,2)] by metis
  have off: "fragment_offset o' = fragment_offset off + (start - hl) div 8" "more_fragments o' = (more_fragments off \<or> \<not> last)"
  proof -
    have "(start - hl) div 8 \<le> (length d - hl) div 8" using less.prems(8) by (intro div_le_mono) simp
    then have "fragment_offset off + (start - hl) div 8 < 8192" using less.prems(10) by simp
    from offset_field [OF this] show "fragment_offset o' = fragment_offset off + (start - hl) div 8"
      "more_fragments o' = (more_fragments off \<or> \<not> last)" by (simp_all add: o'_def)
  qed
  have ok: "fragment_ok mtu do_checksum d f" using f(3,5-7) n(3) by (auto simp: fragment_ok_def)
  have step: "fragment_loop mtu do_checksum d off hl (unat fhl) (length d) buf start = res_map (\<lambda>fs. f # fs)
      (fragment_loop mtu do_checksum d off hl (unat fhl) (length d) f (start + n))"
    using less.prems(4,6,8,11) n(1,3) small f(1,2)
    by (subst fragment_loop.simps) (simp add: Let_def sub_size_def last_def [symmetric] n_def [symmetric] o'_def [symmetric])
  have ioff: "ip_off f = Inr o'" using f(3) by (simp add: closed_header_def)
  show ?case
  proof (cases last)
    case True
    then have "start + n = length d" using less.prems(8) by (simp add: n_def)
    then have "fragment_loop mtu do_checksum d off hl (unat fhl) (length d) f (start + n) = Inr []"
      by (subst fragment_loop.simps) simp
    with step f(4) ok off ioff True \<open>start + n = length d\<close> show ?thesis by simp
  next
    case False
    then have n8: "n = ?nfb * 8" "start + n < length d" using less.prems(8) by (auto simp: n_def last_def)
    have eq: "start + n - hl = (start - hl) + n" using less.prems(6) by simp
    have "8 dvd n" by (simp add: n8(1))
    then have dvd: "8 dvd start + n - hl" unfolding eq by (rule dvd_add [OF less.prems(7)])
    have "length d - (start + n) < length d - start" "ip_header_len f = Inr fhl" "unat fhl \<le> length f" "hl \<le> start + n"
      using n(1) n8(2) f(3,5) less.prems(6) by (simp_all add: closed_header_def)
    note hyp = less.hyps [OF this(1,2) less.prems(2) this(3) less.prems(4,5) this(4) dvd n8(2) less.prems(9-11) f(6,7)]
    then obtain fs where fs: "fragment_loop mtu do_checksum d off hl (unat fhl) (length d) f (start + n) = Inr fs"
        "concat (map payload fs) = drop (start + n) d" "\<forall>f \<in> set fs. fragment_ok mtu do_checksum d f"
        "fragment_chain (fragment_offset off + (start + n - hl) div 8) (more_fragments off) fs"
      by blast
    have pl: "length (payload f) = n" using f(4) n(2) by simp
    have next_start: "(start - hl) div 8 + n div 8 = (start + n - hl) div 8"
      unfolding eq by (rule div_add [symmetric]) (use less.prems(7) n8(1) in simp_all)
    have "fs \<noteq> []" using fs(4) by auto
    then have "fragment_chain (fragment_offset off + (start - hl) div 8) (more_fragments off) (f # fs)"
      using off False ioff pl n8(1) fs(4) next_start by (simp add: add.assoc)
    moreover have "payload f @ drop (start + n) d = drop start d"
      using f(4) by (simp add: add.commute append_take_drop_id flip: drop_drop)
    ultimately show ?thesis using step fs ok by auto
  qed
qed

text \<open>Options that fit are copied; what is copied is not longer than what was there.\<close>

lemma copy_options_fits:
  assumes "cnt \<le> int (length cp)" "length dp + nat cnt \<le> cap"
  shows "copy_options cap cnt cp dp = Inr None
    \<or> (\<exists>dp'. copy_options cap cnt cp dp = Inr (Some dp') \<and> length dp' \<le> length dp + nat cnt)"
  using assms
proof (induction cap cnt cp dp rule: copy_options.induct)
  case (1 cap cnt cp dp)
  show ?case
  proof (cases "cnt \<le> 0")
    case False
    then have "cp \<noteq> []" using 1(4) by auto
    then obtain opt where opt: "byte_at cp 0 = Inr opt" by (auto simp: byte_at_def)
    note step = copy_options.simps [of cap cnt cp dp]
    consider "opt = 0" | "opt = 1" | "opt \<noteq> 0" "opt \<noteq> 1" "cnt < 2" | "opt \<noteq> 0" "opt \<noteq> 1" "\<not> cnt < 2" by blast
    then show ?thesis
    proof cases
      case 2
      have w: "write_option cap [1] dp = Inr (dp @ [1])" using False 1(5) by (simp add: write_option_def)
      have "cnt - 1 \<le> int (length (drop 1 cp))" "length (dp @ [1]) + nat (cnt - 1) \<le> cap" using False 1(4,5) by simp_all
      note IH = 1(1) [OF False opt _ 2 w this]
      with False 2 opt w step show ?thesis by auto
    next
      case 4
      then have "1 < length cp" using 1(4) by linarith
      then obtain l where l: "byte_at cp 1 = Inr l" by (auto simp: byte_at_def)
      show ?thesis
      proof (cases "unat l < 2 \<or> int (unat l) > cnt")
        case len: False
        have cp: "\<not> length cp < unat l" using len 1(4) by linarith
        have fit: "2 \<le> unat l" "unat l \<le> nat cnt" using len by linarith+
        then have w: "write_option cap (take (unat l) cp) dp = Inr (dp @ take (unat l) cp)" using cp 1(5) by (simp add: write_option_def)
        have "cnt - int (unat l) \<le> int (length (drop (unat l) cp))" "length (dp @ take (unat l) cp) + nat (cnt - int (unat l)) \<le> cap"
            "length dp + nat (cnt - int (unat l)) \<le> cap" using fit cp 1(4,5) by (simp_all only: length_drop length_append length_take)
        note IH = 1(2) [OF False opt 4 l len _ cp w this(1,2)] 1(3) [OF False opt 4 l len _ this(1,3)]
        show ?thesis
        proof (cases "bit opt 7")
          case True
          have "unat l + nat (cnt - int (unat l)) = nat cnt" using len by linarith
          with True IH(1) False opt 4 l len cp w step show ?thesis by auto
        next
          case bit: False
          have "unat l + nat (cnt - int (unat l)) = nat cnt" using len by linarith
          with bit IH(2) False opt 4 l len step show ?thesis by auto
        qed
      qed (use False opt 4 l step in auto)
    qed (use False opt step in auto)
  qed (simp add: copy_options.simps [of cap cnt])
qed

lemma header_len_unit:
  assumes "ip_header_len d = Inr hl"
  shows "4 dvd unat hl" "unat hl \<le> 60"
proof -
  obtain v where v: "hl = push_bit 2 (v AND 0x0f)" using assms by (auto simp: ip_header_len_def)
  have "v AND 0x0f = take_bit 4 v" by (simp add: take_bit_eq_mask mask_eq_exp_minus_1)
  then have "unat (v AND 0x0f) < 16" using unsigned_less [of "take_bit 4 v", where 'a = nat]
    by (simp only: unsigned_take_bit_eq) (simp add: take_bit_eq_mod)
  then have "unat hl = 4 * unat (v AND 0x0f)" by (simp add: v push_bit_eq_mult unat_word_ariths)
  with \<open>unat (v AND 0x0f) < 16\<close> show "4 dvd unat hl" "unat hl \<le> 60" by simp_all
qed

lemma header_len_roundtrip:
  fixes w v :: u8
  assumes "4 dvd unat w" "unat w < 64"
  shows "push_bit 2 ((push_bit 4 v OR drop_bit 2 w) AND 0x0f) = w"
proof -
  have mask: "(0x0f :: u8) = mask 4" by (simp add: mask_eq_exp_minus_1)
  have "unat (take_bit 2 w) = 0" "unat (take_bit 6 w) = unat w"
    using assms by (simp_all only: unsigned_take_bit_eq) (simp_all add: take_bit_eq_mod mod_eq_0_iff_dvd)
  then have low: "take_bit 2 w = 0" "take_bit 6 w = w" by (simp_all only: unat_eq_zero word_unat_eq_iff)
  have b: "\<not> bit w n" if "n < 2 \<or> 6 \<le> n" for n
  proof -
    have "bit (take_bit 2 w) n = bit (0 :: u8) n" "bit (take_bit 6 w) n = bit w n" by (simp_all only: low)
    with that show ?thesis unfolding bit_take_bit_iff by auto
  qed
  show ?thesis unfolding mask
  proof (rule bit_word_eqI)
    fix n assume "n < LENGTH(8)"
    then show "bit (push_bit 2 ((push_bit 4 v OR drop_bit 2 w) AND mask 4)) n = bit w n"
      using b [of n] le_Suc_ex [of 2 n] by (cases "n < 2"; cases "6 \<le> n") (auto simp: bit_simps)
  qed
qed

lemma pad_options_length:
  assumes "length dp \<le> 4 * k"
  shows "4 dvd length (pad_options dp)" "length (pad_options dp) \<le> 4 * k"
proof -
  obtain q r where n: "length dp = 4 * q + r" "r < 4" by (metis div_mult_mod_eq mod_less_divisor mult.commute zero_less_numeral)
  then have "length dp mod 4 = r" by simp
  with n assms show "4 dvd length (pad_options dp)" "length (pad_options dp) \<le> 4 * k"
    by (cases "r = 0"; simp add: pad_options_def; presburger)+
qed

lemma first_fragment_ok:
  assumes "ip_header_len d = Inr hl" "ip_off d = Inr off" "20 \<le> unat hl" "unat hl + 8 \<le> mtu" "mtu < length d" "length d < 65536"
  shows "\<exists>f. first_fragment mtu do_checksum d = Inr f \<and> closed_header do_checksum (off OR IP_MF) hl f
    \<and> payload f = take ((mtu - unat hl) div 8 * 8) (drop (unat hl) d) \<and> length f = unat hl + (mtu - unat hl) div 8 * 8
    \<and> kept_fields f = kept_fields d \<and> ip_version f = ip_version d"
proof -
  let ?n = "(mtu - unat hl) div 8 * 8" and ?len = "unat hl + (mtu - unat hl) div 8 * 8"
  have n: "?len \<le> mtu" using assms(4) by simp
  have copy: "memcpy 0 d ?len (resize ?len (replicate mtu 0)) = Inr (take ?len d)"
    using n assms(5) by (simp add: memcpy_def)
  have same: "ip_header_len (take ?len d) = Inr hl" "ip_off (take ?len d) = Inr off"
      "kept_fields (take ?len d) = kept_fields d" "ip_version (take ?len d) = ip_version d"
    using assms header_take [of ?len d "[]"] by simp_all
  have "length (take ?len d) = ?len" using n assms(5) by simp
  then obtain f where f: "close_header do_checksum (off OR IP_MF) (of_nat ?len) (take ?len d) = Inr f" "length f = ?len"
      "drop 12 f = drop 12 (take ?len d)" "closed_header do_checksum (off OR IP_MF) hl f"
      "kept_fields f = kept_fields d" "ip_version f = ip_version d"
    using same close_header_ok [OF same(1), of do_checksum "off OR IP_MF"] assms(3) by auto
  have "drop (unat hl) f = take ?n (drop (unat hl) d)" using drop_eq_drop [OF f(3), of "unat hl"] assms(3) by (simp add: drop_take)
  then have "payload f = take ?n (drop (unat hl) d)" using f(4) by (simp add: payload_def closed_header_def)
  moreover have "first_fragment mtu do_checksum d = Inr f"
    using assms(1,4,5,6) n copy same(2) f(1) by (simp add: first_fragment_def sub_size_def Let_def)
  ultimately show ?thesis using f by blast
qed

lemma version_roundtrip:
  fixes w v :: u8
  assumes "unat w < 64"
  shows "drop_bit 4 (push_bit 4 (v AND 0x0f) OR drop_bit 2 w) AND 0x0f = v AND 0x0f"
proof -
  have mask: "(0x0f :: u8) = mask 4" by (simp add: mask_eq_exp_minus_1)
  have "unat (take_bit 6 w) = unat w" using assms by (simp only: unsigned_take_bit_eq) (simp add: take_bit_eq_mod)
  then have low: "take_bit 6 w = w" by (rule unsigned_word_eqI)
  have b: "\<not> bit w n" if "6 \<le> n" for n
  proof -
    have "bit w n = bit (take_bit 6 w) n" by (simp only: low)
    with that show ?thesis unfolding bit_take_bit_iff by linarith
  qed
  show ?thesis unfolding mask
  proof (rule bit_word_eqI)
    fix n assume "n < LENGTH(8)"
    then show "bit (drop_bit 4 (push_bit 4 (v AND mask 4) OR drop_bit 2 w) AND mask 4) n = bit (v AND mask 4) n"
      using b [of "n + 6"] by (auto simp: bit_simps add.commute)
  qed
qed

lemma set_header_len_ok:
  assumes "4 dvd n" "n < 64" "buf \<noteq> []"
  shows "\<exists>b. set_ip_header_len (of_nat n) buf = Inr b \<and> ip_header_len b = Inr (of_nat n) \<and> ip_version b = ip_version buf
    \<and> kept_fields b = kept_fields buf \<and> length b = length buf"
proof -
  obtain v rest where buf: "buf = v # rest" using assms(3) by (cases buf) auto
  define w :: u8 where "w = of_nat n"
  define ver where "ver = drop_bit 4 v AND 0x0f"
  have w: "unat w = n" using assms(2) by (simp add: w_def unsigned_of_nat take_bit_eq_mod)
  let ?b = "(push_bit 4 ver OR drop_bit 2 w) # rest"
  have "set_ip_header_len w buf = Inr ?b"
    by (simp add: set_ip_header_len_def ip_version_def ip_vhl_def byte_at_def set_ip_vhl_def buf ver_def)
  moreover have "ip_header_len ?b = Inr w"
    using header_len_roundtrip [of w ver] assms(1,2) w by (simp add: ip_header_len_def ip_vhl_def byte_at_def)
  moreover have "drop_bit 4 (push_bit 4 ver OR drop_bit 2 w) AND 0x0f = ver"
    using version_roundtrip [of w "drop_bit 4 v"] assms(2) w by (simp only: ver_def)
  then have "ip_version ?b = ip_version buf" by (simp add: ip_version_def ip_vhl_def byte_at_def buf ver_def)
  moreover have "kept_fields ?b = kept_fields buf" by (simp add: kept_fields_def buf)
  ultimately show ?thesis unfolding w_def by (auto simp: buf)
qed

lemma first_offset:
  "fragment_offset (off OR IP_MF) = fragment_offset off" "more_fragments (off OR IP_MF)"
proof -
  have mask: "OFFSET_MASK = mask 13" by (simp add: mask_eq_exp_minus_1)
  have "(off OR IP_MF) AND OFFSET_MASK = off AND OFFSET_MASK"
    unfolding mask by (rule bit_word_eqI) (auto simp only: bit_and_iff bit_or_iff bit_mask_iff bit_IP_MF)
  then show "fragment_offset (off OR IP_MF) = fragment_offset off" by (simp only: fragment_offset_def)
  show "more_fragments (off OR IP_MF)" unfolding more_fragments_def bit_or_iff bit_IP_MF by blast
qed

text \<open>The header of the later fragments, as the buffer has it before the loop.\<close>

lemma fragment_header_ok:
  assumes "20 \<le> unat hl" "unat hl < length d" "ip_header_len d = Inr hl" "length dp \<le> unat hl - 20"
  shows "\<exists>buf0 buf1 buf fhl. memcpy 0 d IP_SIZE (replicate (length d) 0) = Inr buf0 \<and> put IP_SIZE (pad_options dp) buf0 = Inr buf1
    \<and> set_ip_header_len (of_nat (IP_SIZE + length (pad_options dp))) buf1 = Inr buf \<and> ip_header_len buf = Inr fhl
    \<and> unat fhl = IP_SIZE + length (pad_options dp) \<and> unat fhl \<le> unat hl \<and> length buf = length d
    \<and> kept_fields buf = kept_fields d \<and> ip_version buf = ip_version d"
proof -
  obtain k where k: "unat hl = 4 * k" using header_len_unit(1) [OF assms(3)] by (auto elim: dvdE)
  have "length dp \<le> 4 * (k - 5)" using assms(4) k by simp
  note pad = pad_options_length [OF this]
  let ?n = "IP_SIZE + length (pad_options dp)"
  have n: "?n \<le> unat hl" using pad(2) k assms(1) by simp
  let ?b0 = "take 20 d @ replicate (length d - 20) 0" and ?b1 = "take 20 d @ pad_options dp @ replicate (length d - ?n) 0"
  have b0: "memcpy 0 d IP_SIZE (replicate (length d) 0) = Inr ?b0" using assms(1,2) by (simp add: memcpy_def)
  have b1: "put IP_SIZE (pad_options dp) ?b0 = Inr ?b1" using n assms(1,2) by simp
  have same: "ip_version ?b1 = ip_version d" "kept_fields ?b1 = kept_fields d"
    using header_take [of 20 d] assms(1,2) by simp_all
  have "4 dvd ?n" "?n < 64" "?b1 \<noteq> []" using pad(1) n header_len_unit(2) [OF assms(3)] assms(1,2) by auto
  from set_header_len_ok [OF this] obtain buf where buf: "set_ip_header_len (of_nat ?n) ?b1 = Inr buf" "ip_header_len buf = Inr (of_nat ?n)"
      "ip_version buf = ip_version ?b1" "kept_fields buf = kept_fields ?b1" "length buf = length ?b1" by blast
  have "unat (of_nat ?n :: u8) = ?n" using \<open>?n < 64\<close> by (simp only: unsigned_of_nat) (simp add: take_bit_eq_mod)
  moreover have "length ?b1 = length d" using n assms(1,2) by simp
  ultimately show ?thesis using b0 b1 buf same n by metis
qed

text \<open>
  C9: A packet that is too long for the MTU, allowed to be fragmented and with well-formed options is
  fragmented without an error: no fragment is longer than the MTU, each has the version, service,
  identification, time to live, protocol and addresses of the packet, its own length and, when asked
  for, a valid checksum; the offsets follow on one another from that of the packet, all but the last
  fragment say that more follow, and the payloads in order are the payload of the packet.
\<close>

theorem fragment_reassembles:
  assumes "ip_len d = Inr (of_nat (length d))" "length d < 65536" "ip_header_len d = Inr hl" "20 \<le> unat hl"
    and "ip_off d = Inr off" "off AND IP_DF = 0" "unat hl + 8 \<le> mtu" "mtu < length d"
    and "fragment_offset off + (length d - unat hl) div 8 < 8192"
    and "copy_options (length d - IP_SIZE) (int (unat hl) - 20) (drop IP_SIZE d) [] \<noteq> Inr None"
  shows "\<exists>fs. fragment mtu do_checksum d = Inr (Some fs) \<and> concat (map payload fs) = payload d
    \<and> (\<forall>f \<in> set fs. fragment_ok mtu do_checksum d f) \<and> fragment_chain (fragment_offset off) (more_fragments off) fs"
proof -
  have datalen: "unat (of_nat (length d) :: u16) = length d" using assms(2) by (simp add: unsigned_of_nat take_bit_eq_mod)
  have "int (unat hl) - 20 \<le> int (length (drop IP_SIZE d))" "length [] + nat (int (unat hl) - 20) \<le> length d - IP_SIZE"
    using assms(4,7,8) by (simp_all only: length_drop list.size)
  note fits = copy_options_fits [OF this]
  have nat: "nat (int (unat hl) - 20) = unat hl - 20" by linarith
  obtain dp where dp:
      "copy_options (length d - IP_SIZE) (int (unat hl) - 20) (drop IP_SIZE d) [] = Inr (Some dp)" "length dp \<le> unat hl - 20"
    using fits [unfolded nat] assms(10) by auto
  have "unat hl < length d" using assms(7,8) by simp
  from fragment_header_ok [OF assms(4) this assms(3) dp(2)] obtain buf0 buf1 buf fhl where
      buf: "memcpy 0 d IP_SIZE (replicate (length d) 0) = Inr buf0" "put IP_SIZE (pad_options dp) buf0 = Inr buf1"
        "set_ip_header_len (of_nat (IP_SIZE + length (pad_options dp))) buf1 = Inr buf" "ip_header_len buf = Inr fhl"
      and fhl: "unat fhl = IP_SIZE + length (pad_options dp)" "unat fhl \<le> unat hl" "length buf = length d"
      and same: "kept_fields buf = kept_fields d" "ip_version buf = ip_version d"
    by blast
  let ?nfb = "(mtu - unat hl) div 8"
  have nfb: "1 \<le> ?nfb" "unat hl + ?nfb * 8 \<le> mtu" using assms(7) by (simp_all add: le_div_geq)
  from first_fragment_ok [OF assms(3,5,4,7,8,2)] obtain f where f: "first_fragment mtu do_checksum d = Inr f"
      "closed_header do_checksum (off OR IP_MF) hl f" "payload f = take (?nfb * 8) (drop (unat hl) d)"
      "length f = unat hl + ?nfb * 8" "kept_fields f = kept_fields d" "ip_version f = ip_version d" by metis
  have "8 dvd length f - unat hl" "length f < length d" "unat hl \<le> length f" "20 \<le> unat fhl" "unat fhl \<le> length buf"
      "unat fhl + 8 \<le> mtu" "mtu < 65536" "mtu \<le> length d"
    using f(4) nfb fhl assms(2,4,7,8) by simp_all
  from fragment_loop_ok [OF buf(4) this(4-7) this(3,1,2) assms(2,9) this(8) same] obtain fs where
      fs: "fragment_loop mtu do_checksum d off (unat hl) (unat fhl) (length d) buf (length f) = Inr fs"
        "concat (map payload fs) = drop (length f) d" "\<forall>f \<in> set fs. fragment_ok mtu do_checksum d f"
        "fragment_chain (fragment_offset off + (length f - unat hl) div 8) (more_fragments off) fs"
    by blast
  have len: "length (payload f) = ?nfb * 8" using f(3) nfb(2) assms(8) by simp
  have "fragment mtu do_checksum d = Inr (Some (f # fs))"
    using assms(1,3,5-8) nfb datalen dp(1) buf f(1) fs(1) fhl(1)
    by (simp add: fragment_def sub_size_def Let_def)
  moreover have "drop (length f) d = drop (?nfb * 8) (drop (unat hl) d)" using f(4) by (simp add: add.commute)
  then have "concat (map payload (f # fs)) = drop (unat hl) d"
    by (simp only: list.map concat.simps f(3) fs(2) append_take_drop_id)
  then have "concat (map payload (f # fs)) = payload d" using assms(3) by (simp add: payload_def)
  moreover have "fragment_ok mtu do_checksum d f" using f(2,4-6) nfb(2) by (auto simp: fragment_ok_def)
  moreover have "fs \<noteq> []" using fs(4) by auto
  then have "fragment_chain (fragment_offset off) (more_fragments off) (f # fs)"
    using f(2,4) fs(4) len first_offset [of off] by (simp add: closed_header_def)
  ultimately show ?thesis using fs(3) by auto
qed

text \<open>A packet with a router alert option and 20 bytes of data, sent over an MTU of 40.\<close>

definition alert_packet :: "u8 list" where
  "alert_packet = [0x46, 0, 0, 44, 0x12, 0x34, 0, 0, 1, 89, 0, 0, 10, 0, 0, 1, 224, 0, 0, 5, 0x94, 4, 0, 0]
     @ [1, 2, 3, 4, 5, 6, 7, 8, 9, 10, 11, 12, 13, 14, 15, 16, 17, 18, 19, 20]"

theorem fragment_reassembles_witness:
  "\<exists>fs. fragment 40 True alert_packet = Inr (Some fs) \<and> concat (map payload fs) = payload alert_packet
    \<and> (\<forall>f \<in> set fs. fragment_ok 40 True alert_packet f) \<and> fragment_chain (fragment_offset 0) (more_fragments 0) fs"
proof (rule fragment_reassembles [where hl = 24])
  show "copy_options (length alert_packet - IP_SIZE) (int (unat (24 :: u8)) - 20) (drop IP_SIZE alert_packet) [] \<noteq> Inr None"
    by (simp add: alert_packet_def copy_options.simps byte_at_def write_option_def bit_numeral_rec)
qed (simp_all add: alert_packet_def ip_len_def ip_header_len_def ip_vhl_def ip_off_def word_at_def byte_at_def extract_16_def fragment_offset_def)

text \<open>
  An MTU below the length of the header: the difference wraps, the guard against fragments without
  data does not see it, and the checksum of the first fragment is taken beyond its end.
\<close>

lemma fragment_small_mtu:
  "fragment 16 True ([0x45, 0, 0, 28, 0, 1, 0, 0, 64, 17, 0, 0, 10, 0, 0, 1, 10, 0, 0, 2] @ [1, 2, 3, 4, 5, 6, 7, 8]) = Inl OutOfBounds"
  by (simp add: fragment_def ip_len_def ip_off_def ip_header_len_def ip_vhl_def word_at_def byte_at_def extract_16_def sub_size_def
    memcpy_def put_def copy_options.simps pad_options_def set_ip_header_len_def ip_version_def set_ip_vhl_def first_fragment_def
    Let_def resize_def close_header_def set_ip_off_def set_ip_len_def set_ip_sum_def embed_16_def compute_checksum_def)

end
