(* ===== verification/Spec2Isabelle.thy ===== *)
theory Spec2Isabelle
  imports Xorp_Prelude Bit_Count Decimal IPv4_Addr IPNet Route_Trie Trie_Lookup Trie_Iteration
    As_Number As_Path As4_Path Decision Bgp_Packet Bgp_Socket Peer_Data Peer_FSM Accept_FSM Peer_Safety
    Peer_Runs Peer_Session Accept_Session Two_Routers Ordered_Map Spt Spt_Queue Spt_Paths Spt_Routes Spt_Client
    Spt_Clear Buffer Checksum Ip_Header
begin

text \<open>
  A verification library for XORP, the extensible open router platform (C++, under \<open>src/xorp\<close>).

  \<^bold>\<open>The program and the parts that are modelled.\<close> XORP is a set of routing processes over a
  common library. This library follows one path through it: addresses and prefixes, the trie that
  stores routes by prefix, the BGP process that exchanges routes with its peers (messages, sockets,
  the state machine of a peering, AS paths), and the decision process that selects routes.

  \<^item> \<open>Xorp_Prelude\<close>: words and bytes of a little-endian host (\<open>htonl\<close>, \<open>ntohl\<close> are \<open>bswap32\<close>), aligned
    blocks of addresses, and the result type \<open>res\<close> of fallible code. \<open>Inl\<close> carries an exception of
    the source (\<open>InvalidString\<close>, \<open>InvalidNetmaskLength\<close>, \<open>CorruptMessage\<close> with its codes and data) or
    one of the ways a process ends: \<open>XlogAssert\<close>, \<open>XlogFatal\<close>, \<open>Abort\<close>, a read behind a buffer
    (\<open>OutOfBounds\<close>), a use of a dead iterator (\<open>DanglingIterator\<close>), a loop that
    does not end (\<open>Diverges\<close>).
  \<^item> \<open>Bit_Count\<close> (\<open>libxorp/utils.hh\<close>): population count and leading zero count, equal to their
    mathematical definitions on every 32-bit word.
  \<^item> \<open>Decimal\<close>: the decimal numerals that \<open>printf\<close>, \<open>strtoul\<close> and \<open>atoi\<close> write and read.
  \<^item> \<open>IPv4_Addr\<close> (\<open>libxorp/ipv4.hh\<close>, \<open>ipv4.cc\<close>, \<open>range.hh\<close>): the address as the word in network order,
    constructors, masks, classes, operators and strings, which \<open>inet_pton4\<close> of \<open>libxorp/inet_pton.c\<close> reads.
    Masking is rounding down to a multiple of a power of two; the strings that are read are exactly
    the dotted quads.
  \<^item> \<open>IPNet\<close> (\<open>libxorp/ipnet.hh\<close>, \<open>ipnet.cc\<close>): prefixes. Constructors and operators establish the
    invariant \<open>wf_net\<close>, which the raw accessors can break (\<open>libxipc/xrl_atom.cc\<close> uses them); containment is inclusion of address sets; \<open>common_subnet\<close> is the least upper bound.
  \<^item> \<open>Route_Trie\<close>, \<open>Trie_Lookup\<close>, \<open>Trie_Iteration\<close> (\<open>libxorp/trie.hh\<close>): the trie with the source's case
    analysis, an iterator as a position (a zipper) in place of node pointers, insertion, erasure,
    longest match, both iterators, bounds. The abstraction of a trie is its set of entries; the
    locale \<open>prefix_table\<close> states the contract of a table with longest prefix match, and the trie
    interprets it.
  \<^item> \<open>As_Number\<close>, \<open>As_Path\<close>, \<open>As4_Path\<close> (\<open>libxorp/asnum.hh\<close>, \<open>bgp/aspath.hh\<close>, \<open>aspath.cc\<close>): AS numbers and
    paths with their cached counters, both wire formats, the text form, order, aggregation,
    confederation segments and the merge of an AS4_PATH. The locale \<open>segment_codec\<close> carries the round
    trip of a path from the round trip of a segment; both wire formats interpret it.
  \<^item> \<open>Decision\<close> (\<open>bgp/route_table_decision.cc\<close> with the routes, messages and peers it touches): the
    tie-breaking phases of \<open>find_winner\<close>, the route handlers with the calls they make on the next
    table. \<open>find_winner\<close> refines a specification by successive minimal sets; the handlers keep the
    next table in step with the flagged winner.
  \<^item> \<open>Bgp_Packet\<close> (\<open>bgp/packet.hh\<close>, \<open>packet.cc\<close>, \<open>open_packet.cc\<close>, \<open>notification_packet.cc\<close>, \<open>parameter.hh\<close>,
    \<open>parameter.cc\<close>): the common header, KEEPALIVE, NOTIFICATION and OPEN messages, and the optional
    parameters with their capabilities; round trips, length bounds, and inputs that abort.
  \<^item> \<open>Bgp_Socket\<close> (\<open>bgp/socket.hh\<close>, \<open>socket.cc\<close>): the client connection (descriptor, pending connect,
    reader, writer queue) and the division of the byte stream into messages.
  \<^item> \<open>Peer_Data\<close> (\<open>bgp/peer_data.hh\<close>, \<open>peer_data.cc\<close>, \<open>local_data.hh\<close>): the kind of a peering and the
    negotiation of capabilities: which families an OPEN makes sent, received and negotiated.
  \<^item> \<open>Peer_FSM\<close> (\<open>bgp/peer.hh\<close>, \<open>peer.cc\<close>, commands of \<open>bgp.cc\<close> and \<open>peer_list.cc\<close>): the state machine of a
    peering, one definition per event, timer and message routine. A timer is the number of seconds
    it is set to or \<open>None\<close>; the calls on the \<open>PeerHandler\<close> are recorded in order.
  \<^item> \<open>Accept_FSM\<close> (\<open>class AcceptSession\<close> of \<open>peer.cc\<close>): the session of an incoming connection, the decision
    of a collision and the exchange of sockets with the peer.
  \<^item> \<open>Peer_Safety\<close>: the invariant \<open>peer_inv\<close> ties socket, timers and handler to the state; every
    operation keeps it.
  \<^item> \<open>Peer_Runs\<close>: the runs of a peer together with the sessions of its incoming connections
    (\<open>peering_run\<close>). An event of a run must be possible (its timer runs, its connect is pending, its
    buffer is queued) and benign, that is, not one of the defect situations that \<open>Peer_Session\<close> and
    \<open>Accept_Session\<close> exhibit: a start during the idle hold, the hold timer while connecting, messages
    that the decoder does not survive, an UPDATE that cannot be encoded, an OPEN on an incoming
    connection in STOPPED or one that cannot be encoded again, a CEASE that cannot be written, buffers
    left on a connection that was swapped, and a swap in OPENCONFIRM while the keepalive timer runs.
    Under these conditions the invariant holds in every state and no event aborts.
  \<^item> \<open>Peer_Session\<close>: what happens over a session: hold times, the handshake, recovery after a loss,
    and the runs that end in an assertion.
  \<^item> \<open>Accept_Session\<close>: how a collision is resolved, and the runs of sessions that end in an assertion.
  \<^item> \<open>Two_Routers\<close>: two state machines at the ends of one connection; the bytes one of them writes
    are the stream the other reads, and both reach ESTABLISHED.
  \<^item> \<open>Ordered_Map\<close>: a \<open>std::map\<close> as an association list in the order of its keys.
  \<^item> \<open>Spt\<close>, \<open>Spt_Queue\<close>, \<open>Spt_Paths\<close>, \<open>Spt_Routes\<close>, \<open>Spt_Client\<close> (\<open>libproto/spt.hh\<close>): the shortest path tree.
    Node objects are elements of a heap and a \<open>NodeRef\<close> is an index into it, so that the aliasing of
    the reference-counted pointers is kept. \<open>Spt\<close> has the operations of the code, \<open>Spt_Queue\<close> the
    order of the queue of tentative nodes, \<open>Spt_Paths\<close> the loop invariant of Dijkstra's algorithm,
    \<open>Spt_Routes\<close> the route commands and the garbage collection, and \<open>Spt_Client\<close> the runs of an
    \<open>Spt\<close> with the client that applies its commands. The locale \<open>spt_operation\<close> is the contract of
    the operations on the graph.
  \<^item> \<open>Spt_Clear\<close> (\<open>Spt::clear\<close>, \<open>libxorp/ref_ptr.hh\<close>): the clearing of the graph with the reference counts of
    its objects; when it returns, and graphs on which it does not.
  \<^item> \<open>Buffer\<close> (\<open>libproto/packet.hh\<close>): 16-bit fields and bounds of byte buffers.
  \<^item> \<open>Checksum\<close> (\<open>libproto/checksum.c\<close>): the Internet checksum, equal to the complement of a one's
    complement sum; buffers that carry their checksum sum up to zero, and checksums of parts add up.
  \<^item> \<open>Ip_Header\<close> (\<open>libproto/packet.hh\<close>, \<open>packet.cc\<close>): the fields of an IPv4 header and \<open>IpHeader4::fragment\<close>; the
    fragments of a packet fit the MTU, carry its fields, and put together give its payload.

  \<^bold>\<open>How the parts interact.\<close> A prefix is an address with a length; the trie compares prefixes only
  through \<open>IPNet\<close>, so its lemmas rest on the arithmetic of blocks in \<open>IPNet\<close>. The decision process
  reads AS path lengths from the cached counters of \<open>As_Path\<close>, whose agreement with the segments is
  an invariant there. The reader of \<open>Bgp_Socket\<close> hands whole messages to \<open>get_message\<close> of \<open>Peer_FSM\<close>, which
  decodes them with \<open>Bgp_Packet\<close> and calls the event; the event negotiates with \<open>Peer_Data\<close> and sends
  through \<open>Bgp_Socket\<close>. An \<open>AcceptSession\<close> hands its socket to the peer. The shortest path tree is
  generic in the names of its nodes and stands alone.

  \<^bold>\<open>Choices.\<close> Unsigned integers of the source are words of their width where they can wrap (hold
  times, lengths of parameters, counters, AS numbers, addresses); \<open>size_t\<close> lengths of buffers are
  natural numbers. Loops are structural recursions or functions with a termination proof; no
  definition of the model uses fuel, except \<open>collect\<close> in \<open>Trie_Iteration\<close>, which repeats \<open>++\<close> a given
  number of times and for which one more than the number of entries is proved to be enough. The loops of
  \<open>merge_as4_path\<close> and \<open>Spt::clear\<close> that need not end are \<open>partial_function\<close>s whose divergence is proved for
  the inputs that cause it. Answers of the environment (results of system calls, expiry of timers, bytes
  received, the decoder of UPDATE messages, resolvability and metric of next hops) are arguments
  of the definitions. The \<open>int\<close> weights of the shortest path tree are integers whose sums are checked for
  overflow (\<open>SignedOverflow\<close>), and the addresses of its nodes, which break ties, are a parameter \<open>addr\<close>.

  \<^bold>\<open>Not modelled, and why.\<close> IPv6 addresses and prefixes have the same code over 128 bits; the
  templates are instantiated at IPv4. UPDATE messages with their path attributes, and the route
  tables of BGP other than the decision table, are not modelled; the state machine takes a decoded
  UPDATE as an argument. The other protocols (OSPF beyond its shortest path tree, RIP, PIM, IGMP/MLD, VRRP, OLSR), the RIB, the
  policy engine and the inter-process layer are not modelled. The event loop, asynchronous file
  I/O, the forwarding plane and the router manager are operating-system or terminal I/O. Logging,
  profiling and printing of objects have no effect on the state and are left out of every
  definition.
\<close>

end
